(* ===== verification/Alarm_Prelude.thy ===== *)
theory Alarm_Prelude
  imports Main "HOL-Library.Word" "HOL-Library.AList" "HOL-Library.Multiset"
begin

text \<open>
  Shared vocabulary of the development: the machine integers of the service, its text
  operations, the model of the standard library's \<open>HashMap\<close>, and transition systems.

  Text is modelled for ASCII: a \<open>string\<close> is the Rust \<open>String\<close> with the same
  characters, \<open>trim\<close> strips the ASCII characters with the Unicode property
  White_Space and \<open>to_uppercase\<close> maps \<open>a\<close> to \<open>z\<close>. Characters outside ASCII
  are left alone by both, which is not what Rust does; the development makes no claim
  about text that holds them.
\<close>

section \<open>Fact collections\<close>

named_theorems hmap_simps \<open>lookups in updated hash maps\<close>
named_theorems coord_defs \<open>definitions of the coordinator's helpers\<close>

section \<open>Machine integers\<close>

type_synonym u8 = "8 word"
type_synonym u64 = "64 word"
type_synonym i32 = "32 word"
type_synonym i64 = "64 word"

text \<open>Instants of the monotonic clock, in nanoseconds.\<close>

type_synonym instant = nat

text \<open>\<open>u8::saturating_add\<close> and \<open>u64::saturating_add\<close>.\<close>

definition sat_add :: "'w::len word \<Rightarrow> 'w word \<Rightarrow> 'w word" where
  "sat_add a b = (if unat a + unat b < 2 ^ LENGTH('w) then a + b else - 1)"

lemma sat_add_unat: "unat (sat_add a b) = min (unat a + unat b) (2 ^ LENGTH('w) - 1)"
  for a b :: "'w::len word"
proof (cases "unat a + unat b < 2 ^ LENGTH('w)")
  case True
  then show ?thesis by (simp add: sat_add_def unat_word_ariths)
next
  case False
  then show ?thesis by (simp add: sat_add_def unsigned_minus_1_eq_mask mask_eq_exp_minus_1)
qed

lemma unat_Suc_word: "unat (w + 1) = Suc (unat w)" if "w \<noteq> - 1" for w :: "'w::len word"
proof -
  have "1 + w \<noteq> 0" using that by (metis add.commute ab_left_minus minus_add_cancel)
  then have "unat (1 + w) = Suc (unat w)" by (rule unatSuc)
  then show ?thesis by (simp add: add.commute)
qed

section \<open>Text\<close>

definition is_whitespace :: "char \<Rightarrow> bool" where
  "is_whitespace c = (let n = (of_char c :: nat) in 9 \<le> n \<and> n \<le> 13 \<or> n = 32)"

definition trim_start :: "string \<Rightarrow> string" where
  "trim_start s = dropWhile is_whitespace s"

definition trim :: "string \<Rightarrow> string" where
  "trim s = rev (trim_start (rev (trim_start s)))"

definition upper_char :: "char \<Rightarrow> char" where
  "upper_char c = (let n = (of_char c :: nat) in
     if 97 \<le> n \<and> n \<le> 122 then char_of (n - 32) else c)"

definition to_uppercase :: "string \<Rightarrow> string" where
  "to_uppercase s = map upper_char s"

definition lower_char :: "char \<Rightarrow> char" where
  "lower_char c = (let n = (of_char c :: nat) in
     if 65 \<le> n \<and> n \<le> 90 then char_of (n + 32) else c)"

definition eq_ignore_ascii_case :: "string \<Rightarrow> string \<Rightarrow> bool" where
  "eq_ignore_ascii_case s t = (map lower_char s = map lower_char t)"

text \<open>\<open>str::split_once\<close>: the text before and after the first occurrence.\<close>

fun split_once :: "char \<Rightarrow> string \<Rightarrow> (string \<times> string) option" where
  "split_once d [] = None"
| "split_once d (c # cs) =
     (if c = d then Some ([], cs)
      else case split_once d cs of None \<Rightarrow> None | Some (l, r) \<Rightarrow> Some (c # l, r))"

text \<open>\<open>[String]::join\<close>.\<close>

fun join :: "string \<Rightarrow> string list \<Rightarrow> string" where
  "join sep [] = []"
| "join sep [x] = x"
| "join sep (x # y # xs) = x @ sep @ join sep (y # xs)"

lemma split_once_notin: "d \<notin> set l \<Longrightarrow> split_once d (l @ d # r) = Some (l, r)"
  by (induction l) auto

lemma split_once_None_iff: "split_once d s = None \<longleftrightarrow> d \<notin> set s"
  by (induction s) (auto split: option.splits)

lemma split_once_Some: "split_once d s = Some (l, r) \<Longrightarrow> s = l @ d # r \<and> d \<notin> set l"
  by (induction s arbitrary: l) (auto split: if_splits option.splits)

lemma dropWhile_dropWhile [simp]: "dropWhile P (dropWhile P xs) = dropWhile P xs"
  by (induction xs) auto

lemma dropWhile_rev_dropWhile:
  "dropWhile P (rev (dropWhile P (rev (dropWhile P xs)))) = rev (dropWhile P (rev (dropWhile P xs)))"
proof (cases "dropWhile P xs")
  case Nil
  then show ?thesis by (simp del: dropWhile_eq_Nil_conv)
next
  case (Cons y ys)
  then have ny: "\<not> P y" by (metis hd_dropWhile list.sel(1) list.simps(3))
  have "rev (dropWhile P (rev (y # ys))) = y # rev (dropWhile P (rev ys))"
    using ny by (auto simp: dropWhile_append)
  then show ?thesis using ny Cons by simp
qed

lemma trim_idem [simp]: "trim (trim s) = trim s"
  by (simp add: trim_def trim_start_def dropWhile_rev_dropWhile)

lemma set_trim: "set (trim s) \<subseteq> set s"
  by (auto simp: trim_def trim_start_def dest!: set_dropWhileD)

lemma of_char_upper: "of_char (upper_char c) = (let n = (of_char c :: nat) in
     if 97 \<le> n \<and> n \<le> 122 then n - 32 else n)"
proof -
  have "of_char c - 32 < (256::nat)"
    by (rule le_less_trans [OF diff_le_self]) simp
  then show ?thesis by (auto simp: upper_char_def Let_def)
qed

lemma upper_char_idem [simp]: "upper_char (upper_char c) = upper_char c"
  by (simp add: upper_char_def [of "upper_char c"] of_char_upper Let_def) auto

lemma to_uppercase_idem [simp]: "to_uppercase (to_uppercase s) = to_uppercase s"
  by (simp add: to_uppercase_def)

lemma is_whitespace_upper [simp]: "is_whitespace (upper_char c) = is_whitespace c"
  by (auto simp: is_whitespace_def of_char_upper Let_def)

lemma trim_to_uppercase: "trim (to_uppercase s) = to_uppercase (trim s)"
  by (simp add: trim_def trim_start_def to_uppercase_def dropWhile_map rev_map comp_def)

lemma to_uppercase_Nil_iff [simp]: "to_uppercase s = [] \<longleftrightarrow> s = []"
  by (simp add: to_uppercase_def)

end
