(* ===== verification/Alarm_Proto.thy ===== *)
theory Alarm_Proto
  imports Alarm_Prelude
begin

text \<open>
  The protobuf messages the service works on, as far as the sources under \<open>src/\<close> use
  them. The messages are generated at build time, so the numbering of their enumerations is
  not part of the repository: it is the parameter \<open>proto\<close> of every definition that
  converts between an enumeration and the \<open>i32\<close> field that carries it. The generated
  accessors (\<open>status.state()\<close> and the like) decode the field and fall back to a default
  variant for an unknown number. The only fact about the numbering that is used is
  \<open>proto_ok\<close>: decoding the number of a variant gives the variant back.
\<close>

section \<open>Enumerations\<close>

datatype alarm_state =
  Ok | Alarmed | Latched | Acknowledged | Bypassed | Unbypassed | Unknown

datatype alarm_source = Analog | Digital | Epics | Source_Unknown

datatype alarm_severity = Severity_Unknown | Low | High

instantiation alarm_state :: enum
begin

definition enum_alarm_state :: "alarm_state list" where
  "enum_alarm_state = [Ok, Alarmed, Latched, Acknowledged, Bypassed, Unbypassed, Unknown]"

definition enum_all_alarm_state :: "(alarm_state \<Rightarrow> bool) \<Rightarrow> bool" where
  "enum_all_alarm_state P = list_all P
     [Ok, Alarmed, Latched, Acknowledged, Bypassed, Unbypassed, Unknown]"

definition enum_ex_alarm_state :: "(alarm_state \<Rightarrow> bool) \<Rightarrow> bool" where
  "enum_ex_alarm_state P = list_ex P
     [Ok, Alarmed, Latched, Acknowledged, Bypassed, Unbypassed, Unknown]"

instance
proof
  show "(UNIV :: alarm_state set) = set enum_class.enum"
    by (auto simp: enum_alarm_state_def) (metis alarm_state.exhaust)
  show "distinct (enum_class.enum :: alarm_state list)"
    by (simp add: enum_alarm_state_def)
  show "enum_class.enum_all P \<longleftrightarrow> Ball UNIV P" for P :: "alarm_state \<Rightarrow> bool"
    by (simp add: enum_all_alarm_state_def) (metis alarm_state.exhaust)
  show "enum_class.enum_ex P \<longleftrightarrow> Bex UNIV P" for P :: "alarm_state \<Rightarrow> bool"
    by (simp add: enum_ex_alarm_state_def) (metis alarm_state.exhaust)
qed

end

instantiation alarm_source :: enum
begin

definition enum_alarm_source :: "alarm_source list" where
  "enum_alarm_source = [Analog, Digital, Epics, Source_Unknown]"

definition enum_all_alarm_source :: "(alarm_source \<Rightarrow> bool) \<Rightarrow> bool" where
  "enum_all_alarm_source P = list_all P [Analog, Digital, Epics, Source_Unknown]"

definition enum_ex_alarm_source :: "(alarm_source \<Rightarrow> bool) \<Rightarrow> bool" where
  "enum_ex_alarm_source P = list_ex P [Analog, Digital, Epics, Source_Unknown]"

instance
proof
  show "(UNIV :: alarm_source set) = set enum_class.enum"
    by (auto simp: enum_alarm_source_def) (metis alarm_source.exhaust)
  show "distinct (enum_class.enum :: alarm_source list)"
    by (simp add: enum_alarm_source_def)
  show "enum_class.enum_all P \<longleftrightarrow> Ball UNIV P" for P :: "alarm_source \<Rightarrow> bool"
    by (simp add: enum_all_alarm_source_def) (metis alarm_source.exhaust)
  show "enum_class.enum_ex P \<longleftrightarrow> Bex UNIV P" for P :: "alarm_source \<Rightarrow> bool"
    by (simp add: enum_ex_alarm_source_def) (metis alarm_source.exhaust)
qed

end

instantiation alarm_severity :: enum
begin

definition enum_alarm_severity :: "alarm_severity list" where
  "enum_alarm_severity = [Severity_Unknown, Low, High]"

definition enum_all_alarm_severity :: "(alarm_severity \<Rightarrow> bool) \<Rightarrow> bool" where
  "enum_all_alarm_severity P = list_all P [Severity_Unknown, Low, High]"

definition enum_ex_alarm_severity :: "(alarm_severity \<Rightarrow> bool) \<Rightarrow> bool" where
  "enum_ex_alarm_severity P = list_ex P [Severity_Unknown, Low, High]"

instance
proof
  show "(UNIV :: alarm_severity set) = set enum_class.enum"
    by (auto simp: enum_alarm_severity_def) (metis alarm_severity.exhaust)
  show "distinct (enum_class.enum :: alarm_severity list)"
    by (simp add: enum_alarm_severity_def)
  show "enum_class.enum_all P \<longleftrightarrow> Ball UNIV P" for P :: "alarm_severity \<Rightarrow> bool"
    by (simp add: enum_all_alarm_severity_def) (metis alarm_severity.exhaust)
  show "enum_class.enum_ex P \<longleftrightarrow> Bex UNIV P" for P :: "alarm_severity \<Rightarrow> bool"
    by (simp add: enum_ex_alarm_severity_def) (metis alarm_severity.exhaust)
qed

end

section \<open>Messages\<close>

record timestamp =
  ts_seconds :: i64
  ts_nanos :: i32

record status =
  st_device :: string
  st_severity :: i32
  st_state :: i32
  st_source :: i32
  st_acknowledgeable :: bool
  st_time :: "timestamp option"
  st_epics_type :: string
  st_user :: string
  st_wake :: "timestamp option"

text \<open>\<open>Status::default()\<close>: every field has its type's default.\<close>

definition status_default :: status where
  "status_default = \<lparr>st_device = [], st_severity = 0, st_state = 0, st_source = 0,
     st_acknowledgeable = False, st_time = None, st_epics_type = [], st_user = [],
     st_wake = None\<rparr>"

section \<open>The generated enumeration codecs\<close>

record proto =
  state_to_i32 :: "alarm_state \<Rightarrow> i32"
  state_of_i32 :: "i32 \<Rightarrow> alarm_state"
  source_to_i32 :: "alarm_source \<Rightarrow> i32"
  source_of_i32 :: "i32 \<Rightarrow> alarm_source"
  severity_to_i32 :: "alarm_severity \<Rightarrow> i32"
  severity_of_i32 :: "i32 \<Rightarrow> alarm_severity"

definition status_state :: "proto \<Rightarrow> status \<Rightarrow> alarm_state" where
  "status_state pb s = state_of_i32 pb (st_state s)"

definition status_source :: "proto \<Rightarrow> status \<Rightarrow> alarm_source" where
  "status_source pb s = source_of_i32 pb (st_source s)"

definition status_severity :: "proto \<Rightarrow> status \<Rightarrow> alarm_severity" where
  "status_severity pb s = severity_of_i32 pb (st_severity s)"

definition proto_ok :: "proto \<Rightarrow> bool" where
  "proto_ok pb \<longleftrightarrow>
     (\<forall>x. state_of_i32 pb (state_to_i32 pb x) = x) \<and>
     (\<forall>x. source_of_i32 pb (source_to_i32 pb x) = x) \<and>
     (\<forall>x. severity_of_i32 pb (severity_to_i32 pb x) = x)"

lemma proto_okD [simp]:
  assumes "proto_ok pb"
  shows "state_of_i32 pb (state_to_i32 pb x) = x"
    and "source_of_i32 pb (source_to_i32 pb y) = y"
    and "severity_of_i32 pb (severity_to_i32 pb z) = z"
  using assms by (auto simp: proto_ok_def)

lemma status_accessors [simp]:
  "status_state pb (s\<lparr>st_state := i\<rparr>) = state_of_i32 pb i"
  "status_source pb (s\<lparr>st_source := i\<rparr>) = source_of_i32 pb i"
  "status_severity pb (s\<lparr>st_severity := i\<rparr>) = severity_of_i32 pb i"
  by (simp_all add: status_state_def status_source_def status_severity_def)

text \<open>A numbering that satisfies \<open>proto_ok\<close>, for the closed examples.\<close>

definition sample_proto :: proto where
  "sample_proto = \<lparr>
     state_to_i32 = (\<lambda>x. case x of Unknown \<Rightarrow> 0 | Ok \<Rightarrow> 1 | Alarmed \<Rightarrow> 2 | Latched \<Rightarrow> 3
        | Acknowledged \<Rightarrow> 4 | Bypassed \<Rightarrow> 5 | Unbypassed \<Rightarrow> 6),
     state_of_i32 = (\<lambda>i. if i = 1 then Ok else if i = 2 then Alarmed else if i = 3 then Latched
        else if i = 4 then Acknowledged else if i = 5 then Bypassed
        else if i = 6 then Unbypassed else Unknown),
     source_to_i32 = (\<lambda>x. case x of Source_Unknown \<Rightarrow> 0 | Analog \<Rightarrow> 1 | Digital \<Rightarrow> 2 | Epics \<Rightarrow> 3),
     source_of_i32 = (\<lambda>i. if i = 1 then Analog else if i = 2 then Digital
        else if i = 3 then Epics else Source_Unknown),
     severity_to_i32 = (\<lambda>x. case x of Severity_Unknown \<Rightarrow> 0 | Low \<Rightarrow> 1 | High \<Rightarrow> 2),
     severity_of_i32 = (\<lambda>i. if i = 1 then Low else if i = 2 then High else Severity_Unknown)\<rparr>"

lemma sample_proto_ok: "proto_ok sample_proto"
  by (simp add: proto_ok_def sample_proto_def split: alarm_state.splits alarm_source.splits
      alarm_severity.splits)

definition sample_status ::
  "string \<Rightarrow> alarm_state \<Rightarrow> alarm_severity \<Rightarrow> alarm_source \<Rightarrow> status" where
  "sample_status dev st sev src = status_default\<lparr>st_device := dev,
     st_state := state_to_i32 sample_proto st, st_severity := severity_to_i32 sample_proto sev,
     st_source := source_to_i32 sample_proto src\<rparr>"

lemma sample_status_simps [simp]:
  "status_state sample_proto (sample_status dev st sev src) = st"
  "status_severity sample_proto (sample_status dev st sev src) = sev"
  "status_source sample_proto (sample_status dev st sev src) = src"
  "st_device (sample_status dev st sev src) = dev"
  "st_wake (sample_status dev st sev src) = None"
  by (simp_all add: sample_status_def status_state_def status_severity_def status_source_def
      sample_proto_ok status_default_def)

end
