(* ===== verification/Alarm_Key.thy ===== *)
theory Alarm_Key
  imports Alarm_Proto
begin

text \<open>
  Alarm identity (\<open>src/model/key.rs\<close>): the \<open>Key\<close> of an alarm, how it is read off a
  status, parsed from \<open>DEVICE#Source\<close> and printed. The lemmas show that every key the
  constructors build is normalised, when printing and parsing are inverse, and which texts
  the parser accepts.
\<close>

record alarm_key =
  key_device :: string
  key_source :: alarm_source

definition key_from_status :: "proto \<Rightarrow> status \<Rightarrow> alarm_key" where
  "key_from_status pb status =
     \<lparr>key_device = to_uppercase (trim (st_device status)), key_source = status_source pb status\<rparr>"

definition parse_source :: "string \<Rightarrow> alarm_source option" where
  "parse_source source_str =
     (let t = to_uppercase (trim source_str) in
      if t = ''ANALOG'' then Some Analog
      else if t = ''DIGITAL'' then Some Digital
      else if t = ''EPICS'' then Some Epics
      else None)"

definition key_try_from :: "string \<Rightarrow> string + alarm_key" where
  "key_try_from s =
     (case split_once (CHR ''#'') s of
        Some (device, source_str) \<Rightarrow>
          (case parse_source source_str of
             None \<Rightarrow> Inl (s @ '' does not contain a known alarms source.'')
           | Some source \<Rightarrow>
               (let device = to_uppercase (trim device) in
                if device = [] then Inl (s @ '' is missing a device name.'')
                else Inr \<lparr>key_device = device, key_source = source\<rparr>))
      | None \<Rightarrow> Inl (s @ '' does not contain the expected '' @ [char_of (39::nat)] @ ''#'' @
          [char_of (39::nat)] @
          '' delimiter for separating device name from alarm source.''))"

fun source_debug :: "alarm_source \<Rightarrow> string" where
  "source_debug Analog = ''Analog''"
| "source_debug Digital = ''Digital''"
| "source_debug Epics = ''Epics''"
| "source_debug Source_Unknown = ''Unknown''"

definition key_to_string :: "alarm_key \<Rightarrow> string" where
  "key_to_string k = key_device k @ ''#'' @ source_debug (key_source k)"

section \<open>Normalisation and round trips\<close>

definition normal_device :: "string \<Rightarrow> bool" where
  "normal_device d \<longleftrightarrow> trim d = d \<and> to_uppercase d = d"

lemma normal_device_upper_trim [simp]: "normal_device (to_uppercase (trim d))"
  by (simp add: normal_device_def trim_to_uppercase)

lemma parse_source_names:
  "parse_source ''Analog'' = Some Analog" "parse_source ''Digital'' = Some Digital"
  "parse_source ''Epics'' = Some Epics" "parse_source ''Unknown'' = None"
  by code_simp+

lemma parse_source_debug: "parse_source (source_debug src) =
    (if src = Source_Unknown then None else Some src)"
  by (cases src) (simp_all add: parse_source_names)

lemma hash_notin_source_debug [simp]: "CHR ''#'' \<notin> set (source_debug src)"
  by (cases src) auto

lemma upper_char_hash: "upper_char c = CHR ''#'' \<longleftrightarrow> c = CHR ''#''"
proof
  assume "upper_char c = CHR ''#''"
  then have "of_char (upper_char c) = (of_char (CHR ''#'') :: nat)" by simp
  then have "of_char c = (of_char (CHR ''#'') :: nat)"
    by (simp add: of_char_upper Let_def split: if_splits)
  then show "c = CHR ''#''" by (simp only: of_char_eq_iff)
next
  assume "c = CHR ''#''"
  then show "upper_char c = CHR ''#''" by (simp add: upper_char_def)
qed

lemma hash_notin_upper_trim:
  assumes "CHR ''#'' \<notin> set d"
  shows "CHR ''#'' \<notin> set (to_uppercase (trim d))"
proof
  assume "CHR ''#'' \<in> set (to_uppercase (trim d))"
  then obtain c where "c \<in> set (trim d)" "upper_char c = CHR ''#''"
    by (auto simp: to_uppercase_def )
  then show False using assms set_trim [of d] by (auto simp: upper_char_hash)
qed

lemma key_try_from_Inr_iff:
  "key_try_from s = Inr k \<longleftrightarrow>
     (\<exists>d t. split_once (CHR ''#'') s = Some (d, t) \<and> parse_source t = Some (key_source k) \<and>
        key_device k = to_uppercase (trim d) \<and> key_device k \<noteq> [])"
  by (cases k) (auto simp: key_try_from_def Let_def split: option.splits if_splits)

text \<open>
  C34: printing a key and parsing the text gives the key back, for every key with a
  normalised, non-empty device name without a hash character and a known source.
\<close>

theorem key_print_parse:
  assumes "normal_device (key_device k)" "key_device k \<noteq> []"
    and "CHR ''#'' \<notin> set (key_device k)" "key_source k \<noteq> Source_Unknown"
  shows "key_try_from (key_to_string k) = Inr k"
  using assms
  by (simp add: key_try_from_Inr_iff key_to_string_def split_once_notin parse_source_debug
      normal_device_def)

lemma eval_key_text: "trim ''M:BEAM'' = ''M:BEAM''" "to_uppercase ''M:BEAM'' = ''M:BEAM''"
  by code_simp+

theorem key_print_parse_witness:
  "key_try_from ''M:BEAM#Analog'' = Inr \<lparr>key_device = ''M:BEAM'', key_source = Analog\<rparr>"
  using key_print_parse [of "\<lparr>key_device = ''M:BEAM'', key_source = Analog\<rparr>"]
  by (simp add: normal_device_def key_to_string_def eval_key_text)

text \<open>
  C35: whatever text the parser accepts, the key it returns is normalised, has a device name
  without a hash character and a known source, and parsing its printed form again gives the
  same key (parsing is idempotent up to printing).
\<close>

theorem key_parse_normal:
  assumes "key_try_from s = Inr k"
  shows "normal_device (key_device k) \<and> key_device k \<noteq> [] \<and> CHR ''#'' \<notin> set (key_device k) \<and>
    key_source k \<noteq> Source_Unknown \<and> key_try_from (key_to_string k) = Inr k"
proof -
  from assms obtain d t where s: "split_once (CHR ''#'') s = Some (d, t)"
    and src: "parse_source t = Some (key_source k)"
    and dev: "key_device k = to_uppercase (trim d)" "key_device k \<noteq> []"
    by (auto simp: key_try_from_Inr_iff)
  have "normal_device (key_device k)" by (simp add: dev(1))
  moreover have "CHR ''#'' \<notin> set (key_device k)"
    unfolding dev(1) using split_once_Some [OF s] by (intro hash_notin_upper_trim) simp
  moreover have "key_source k \<noteq> Source_Unknown"
    using src by (auto simp: parse_source_def Let_def split: if_splits)
  ultimately show ?thesis using dev(2)
    by (simp add: key_try_from_Inr_iff key_to_string_def split_once_notin parse_source_debug
        normal_device_def)
qed

theorem key_parse_normal_witness:
  "key_try_from (key_to_string \<lparr>key_device = ''M:BEAM'', key_source = Epics\<rparr>)
     = Inr \<lparr>key_device = ''M:BEAM'', key_source = Epics\<rparr>"
proof -
  have "key_try_from '' m:beam #epics'' = Inr \<lparr>key_device = ''M:BEAM'', key_source = Epics\<rparr>"
    by code_simp
  from key_parse_normal [OF this] show ?thesis by blast
qed

end
