(* ===== verification/Hash_Map.thy ===== *)
theory Hash_Map
  imports Alarm_Prelude
begin

text \<open>
  The model of \<open>std::collections::HashMap\<close> used by the coordinator, the workflow handler,
  the snooze scheduler and startup hydration: an association list with one entry per key.
  The list order stands for the unspecified iteration order of the hash map; no property
  of the development depends on it. The interface is stated once as a locale, its client
  lemmas are proved in it, and the association lists are an interpretation of it.
\<close>

lemma map_of_rev: "distinct (map fst xs) \<Longrightarrow> map_of (rev xs) = map_of xs"
proof (rule ext)
  fix k assume d: "distinct (map fst xs)"
  then have "map_of (rev xs) k = Some v \<longleftrightarrow> map_of xs k = Some v" for v
    by (simp add: map_of_eq_Some_iff flip: rev_map)
  then show "map_of (rev xs) k = map_of xs k"
    by (metis not_Some_eq)
qed

section \<open>The interface\<close>

locale keyed_map =
  fixes get :: "'m \<Rightarrow> 'k \<Rightarrow> 'v option"
    and put :: "'m \<Rightarrow> 'k \<Rightarrow> 'v \<Rightarrow> 'm"
    and del :: "'m \<Rightarrow> 'k \<Rightarrow> 'm"
    and new :: 'm
    and entries :: "'m \<Rightarrow> ('k \<times> 'v) list"
    and wf :: "'m \<Rightarrow> bool"
  assumes get_new: "get new k = None"
    and get_put: "wf m \<Longrightarrow> get (put m k v) j = (if j = k then Some v else get m j)"
    and get_del: "wf m \<Longrightarrow> get (del m k) j = (if j = k then None else get m j)"
    and wf_new: "wf new"
    and wf_put: "wf m \<Longrightarrow> wf (put m k v)"
    and wf_del: "wf m \<Longrightarrow> wf (del m k)"
    and entries_get: "wf m \<Longrightarrow> (k, v) \<in> set (entries m) \<longleftrightarrow> get m k = Some v"
    and entries_distinct: "wf m \<Longrightarrow> distinct (map fst (entries m))"
begin

definition collect :: "('k \<times> 'v) list \<Rightarrow> 'm" where
  "collect kvs = foldl (\<lambda>m kv. put m (fst kv) (snd kv)) new kvs"

lemma collect_snoc: "collect (kvs @ [(k, v)]) = put (collect kvs) k v"
  by (simp add: collect_def)

lemma wf_collect: "wf (collect kvs)"
  by (induction kvs rule: rev_induct) (auto simp: collect_snoc wf_put, simp add: collect_def wf_new)

lemma get_collect: "get (collect kvs) k = map_of (rev kvs) k"
proof (induction kvs rule: rev_induct)
  case Nil
  show ?case by (simp add: collect_def get_new)
next
  case (snoc kv kvs)
  then show ?case
    by (cases kv) (simp add: collect_snoc get_put wf_collect)
qed

lemma map_of_entries: "wf m \<Longrightarrow> map_of (entries m) k = get m k"
  by (metis entries_get entries_distinct map_of_eq_Some_iff not_Some_eq)

lemma get_collect_entries: "wf m \<Longrightarrow> get (collect (entries m)) k = get m k"
  by (simp add: get_collect entries_distinct map_of_rev map_of_entries)

end

section \<open>Association lists\<close>

type_synonym ('k, 'v) hmap = "('k \<times> 'v) list"

definition hm_new :: "('k, 'v) hmap" where
  "hm_new = []"

definition hm_get :: "('k, 'v) hmap \<Rightarrow> 'k \<Rightarrow> 'v option" where
  "hm_get m k = map_of m k"

definition hm_insert :: "('k, 'v) hmap \<Rightarrow> 'k \<Rightarrow> 'v \<Rightarrow> ('k, 'v) hmap" where
  "hm_insert m k v = AList.update k v m"

definition hm_remove :: "('k, 'v) hmap \<Rightarrow> 'k \<Rightarrow> ('k, 'v) hmap" where
  "hm_remove m k = AList.delete k m"

definition hm_contains_key :: "('k, 'v) hmap \<Rightarrow> 'k \<Rightarrow> bool" where
  "hm_contains_key m k = (hm_get m k \<noteq> None)"

definition hm_wf :: "('k, 'v) hmap \<Rightarrow> bool" where
  "hm_wf m = distinct (map fst m)"

definition hm_collect :: "('k \<times> 'v) list \<Rightarrow> ('k, 'v) hmap" where
  "hm_collect kvs = foldl (\<lambda>m kv. hm_insert m (fst kv) (snd kv)) hm_new kvs"

lemma hm_get_new [simp, hmap_simps]: "hm_get hm_new = Map.empty"
  by (simp add: hm_get_def hm_new_def fun_eq_iff)

lemma hm_get_insert [simp, hmap_simps]: "hm_get (hm_insert m k v) = (hm_get m)(k \<mapsto> v)"
  by (simp add: hm_get_def hm_insert_def AList.update_conv' fun_eq_iff)

lemma hm_get_remove [simp, hmap_simps]: "hm_get (hm_remove m k) = (hm_get m)(k := None)"
  by (simp add: hm_get_def hm_remove_def AList.delete_conv' fun_eq_iff)

lemma hm_contains_key_iff [simp, hmap_simps]: "hm_contains_key m k \<longleftrightarrow> hm_get m k \<noteq> None"
  by (simp add: hm_contains_key_def)

lemma hm_wf_new [simp, intro]: "hm_wf hm_new"
  by (simp add: hm_wf_def hm_new_def)

lemma hm_wf_insert [simp, intro]: "hm_wf m \<Longrightarrow> hm_wf (hm_insert m k v)"
  by (simp add: hm_wf_def hm_insert_def distinct_update)

lemma hm_wf_remove [simp, intro]: "hm_wf m \<Longrightarrow> hm_wf (hm_remove m k)"
  by (simp add: hm_wf_def hm_remove_def distinct_delete)

lemma hm_get_Some_iff: "hm_wf m \<Longrightarrow> hm_get m k = Some v \<longleftrightarrow> (k, v) \<in> set m"
  by (simp add: hm_wf_def hm_get_def map_of_eq_Some_iff)

lemma hm_get_SomeD: "hm_get m k = Some v \<Longrightarrow> (k, v) \<in> set m"
  by (simp add: hm_get_def map_of_SomeD)

interpretation hm: keyed_map hm_get hm_insert hm_remove hm_new "\<lambda>m. m" hm_wf
  by unfold_locales (auto simp: hm_get_Some_iff, simp add: hm_wf_def)

lemma hm_collect_eq: "hm_collect kvs = hm.collect kvs"
  by (simp add: hm_collect_def hm.collect_def)

lemma hm_wf_collect [simp, intro]: "hm_wf (hm_collect kvs)"
  unfolding hm_collect_eq by (rule hm.wf_collect)

lemma hm_get_collect: "hm_get (hm_collect kvs) k = map_of (rev kvs) k"
  unfolding hm_collect_eq by (rule hm.get_collect)

lemma length_hm_insert:
  "length (hm_insert m k v) = (if hm_get m k = None then Suc (length m) else length m)"
  by (induction m) (auto simp: hm_insert_def hm_get_def)

lemma length_hm_remove:
  "hm_wf m \<Longrightarrow> length (hm_remove m k) = (if hm_get m k = None then length m else length m - 1)"
proof (induction m)
  case Nil
  then show ?case by (simp add: hm_remove_def)
next
  case (Cons a m)
  have "m \<noteq> []" if "map_of m k \<noteq> None" using that by auto
  with Cons show ?case
    by (cases m) (auto simp: hm_remove_def hm_get_def hm_wf_def image_iff intro!: delete_id)
qed

text \<open>The entries as a multiset, for maps with one entry per key.\<close>

lemma mset_hm_insert_absent:
  "hm_get m k = None \<Longrightarrow> mset (hm_insert m k v) = add_mset (k, v) (mset m)"
  by (induction m) (auto simp: hm_insert_def hm_get_def split: if_splits)

lemma hm_remove_id: "hm_get m k = None \<Longrightarrow> hm_remove m k = m"
  by (auto simp: hm_get_def hm_remove_def map_of_eq_None_iff)

lemma mset_hm_remove:
  "hm_wf m \<Longrightarrow> hm_get m k = Some v \<Longrightarrow> mset m = add_mset (k, v) (mset (hm_remove m k))"
proof (induction m)
  case (Cons e m)
  have rm: "hm_remove m k = m" if "fst e = k"
    using that Cons.prems(1) by (intro hm_remove_id) (auto simp: hm_wf_def hm_get_def map_of_eq_None_iff)
  have "hm_wf m" using Cons.prems(1) by (simp add: hm_wf_def)
  with Cons.IH Cons.prems(2) rm show ?case
    by (cases e) (auto simp: hm_get_def hm_remove_def split: if_splits)
qed (simp add: hm_get_def)

lemma mset_hm_insert_present:
  assumes "hm_wf m" "hm_get m k = Some u"
  shows "mset (hm_insert m k v) = add_mset (k, v) (mset (hm_remove m k))"
proof -
  have "hm_remove (hm_insert m k v) k = hm_remove m k"
    by (simp add: hm_remove_def hm_insert_def) (induction m; auto)
  with mset_hm_remove [OF hm_wf_insert [OF assms(1)], of k v k v] show ?thesis by simp
qed

end
