(* ===== verification/Alarm_Model.thy ===== *)
theory Alarm_Model
  imports Alarm_Key Hash_Map
begin

text \<open>
  The remaining data model (\<open>src/model/\<close> and \<open>src/engine/messages.rs\<close>): update
  errors and their texts, \<open>SymmetricalResult\<close>, user actions, publish requests with their
  attempt counter, the snooze protocol's commands and outcomes, and the messages the
  coordinator accepts. A one-shot sender is represented by its identity.
\<close>

section \<open>Errors (\<open>model/errors.rs\<close>)\<close>

record state_transition =
  tr_key :: alarm_key
  tr_current :: alarm_state
  tr_requested :: alarm_state

datatype update_error = Internal alarm_key | StateNotAllowed state_transition

fun state_debug :: "alarm_state \<Rightarrow> string" where
  "state_debug Ok = ''Ok''"
| "state_debug Alarmed = ''Alarmed''"
| "state_debug Latched = ''Latched''"
| "state_debug Acknowledged = ''Acknowledged''"
| "state_debug Bypassed = ''Bypassed''"
| "state_debug Unbypassed = ''Unbypassed''"
| "state_debug Unknown = ''Unknown''"

definition transition_to_string :: "state_transition \<Rightarrow> string" where
  "transition_to_string t = ''for '' @ key_to_string (tr_key t) @ '' from '' @
     state_debug (tr_current t) @ '' into '' @ state_debug (tr_requested t)"

fun update_error_to_string :: "update_error \<Rightarrow> string" where
  "update_error_to_string (Internal key) =
     ''Internal error. The update for '' @ key_to_string key @ '' has not been persisted.''"
| "update_error_to_string (StateNotAllowed st) =
     ''Invalid state transition '' @ transition_to_string st @ '' requested.''"

datatype 'a symmetrical_result = Sym_Ok 'a | Sym_Err 'a

fun sym_inner_ref :: "'a symmetrical_result \<Rightarrow> 'a" where
  "sym_inner_ref (Sym_Err val) = val"
| "sym_inner_ref (Sym_Ok val) = val"

fun sym_into_inner :: "'a symmetrical_result \<Rightarrow> 'a" where
  "sym_into_inner (Sym_Err val) = val"
| "sym_into_inner (Sym_Ok val) = val"

fun sym_map :: "('a \<Rightarrow> 'b) \<Rightarrow> 'a symmetrical_result \<Rightarrow> 'b symmetrical_result" where
  "sym_map func (Sym_Err val) = Sym_Err (func val)"
| "sym_map func (Sym_Ok val) = Sym_Ok (func val)"

fun sym_is_ok :: "'a symmetrical_result \<Rightarrow> bool" where
  "sym_is_ok (Sym_Ok _) = True"
| "sym_is_ok (Sym_Err _) = False"

lemma sym_map_simps [simp]:
  "sym_into_inner (sym_map f r) = f (sym_into_inner r)"
  "sym_inner_ref (sym_map f r) = f (sym_inner_ref r)"
  "sym_is_ok (sym_map f r) = sym_is_ok r"
  by (cases r; simp)+

lemma sym_inner_ref_eq [simp]: "sym_inner_ref r = sym_into_inner r"
  by (cases r) auto

section \<open>User actions (\<open>model/user_action.rs\<close>)\<close>

datatype user_action = Acknowledge | Activate | Bypass "timestamp option"

fun action_as_state :: "user_action \<Rightarrow> alarm_state" where
  "action_as_state Acknowledge = Acknowledged"
| "action_as_state Activate = Unbypassed"
| "action_as_state (Bypass _) = Bypassed"

fun action_get_wake :: "user_action \<Rightarrow> timestamp option" where
  "action_get_wake (Bypass wake) = wake"
| "action_get_wake _ = None"

section \<open>Publish requests (\<open>model/publish.rs\<close>)\<close>

record publish_details =
  pd_key :: alarm_key
  pd_status :: status

datatype publish = Publish_Automated publish_details | Publish_User publish_details

fun publish_details_ref :: "publish \<Rightarrow> publish_details" where
  "publish_details_ref (Publish_Automated details) = details"
| "publish_details_ref (Publish_User details) = details"

fun publish_into_details :: "publish \<Rightarrow> publish_details" where
  "publish_into_details (Publish_Automated details) = details"
| "publish_into_details (Publish_User details) = details"

fun publish_is_user_initiated :: "publish \<Rightarrow> bool" where
  "publish_is_user_initiated (Publish_User _) = True"
| "publish_is_user_initiated (Publish_Automated _) = False"

record publish_attempt =
  pa_request :: publish
  pa_attempt_count :: u8

definition attempt_new :: "publish \<Rightarrow> publish_attempt" where
  "attempt_new request = \<lparr>pa_request = request, pa_attempt_count = 1\<rparr>"

definition attempt_details_ref :: "publish_attempt \<Rightarrow> publish_details" where
  "attempt_details_ref a = publish_details_ref (pa_request a)"

definition increment_attempt :: "publish_attempt \<Rightarrow> publish_attempt" where
  "increment_attempt a = a\<lparr>pa_attempt_count := sat_add (pa_attempt_count a) 1\<rparr>"

type_synonym publish_result = "alarm_key symmetrical_result"

datatype publish_outcome = Batch "publish_result list" | Single publish_result

lemma publish_into_details_eq [simp]: "publish_into_details p = publish_details_ref p"
  by (cases p) auto

lemma increment_attempt_request [simp]:
  "pa_request (increment_attempt a) = pa_request a"
  by (simp add: increment_attempt_def)

section \<open>Snooze protocol (\<open>model/snooze.rs\<close>)\<close>

record snooze_input =
  si_key :: alarm_key
  si_wake :: "timestamp option"

datatype snooze = Snooze_Set alarm_key timestamp | Snooze_Cancel alarm_key

definition snooze_from_input :: "snooze_input \<Rightarrow> snooze" where
  "snooze_from_input value = (case si_wake value of
       Some timestamp \<Rightarrow> Snooze_Set (si_key value) timestamp
     | None \<Rightarrow> Snooze_Cancel (si_key value))"

datatype snooze_outcome = Expired alarm_key | InvalidWake alarm_key | Accepted alarm_key

section \<open>Messages of the publishing library\<close>

text \<open>
  \<open>StringMessage\<close> of rust-pubsub-lib, as far as the sources use it: an optional key and a
  body, put together by \<open>StringMessage::new\<close> and taken apart by \<open>extract_key_value\<close>.
\<close>

record string_message =
  msg_key :: "string option"
  msg_body :: string

section \<open>Coordinator messages (\<open>engine/messages.rs\<close>)\<close>

type_synonym alarms_cache = "(alarm_key, status \<times> u64) hmap"
type_synonym alarms_snapshot = "status list"
type_synonym confirmation = nat
type_synonym snapshot_sender = nat

datatype domain_input =
  SnapshotRequest snapshot_sender
| AutomatedUpdate status
| UserUpdate alarm_key user_action string confirmation

section \<open>Jobs (\<open>engine/workflow.rs\<close>)\<close>

record job =
  job_id :: u64
  job_key :: alarm_key
  job_status :: status
  job_user_initiated :: bool

datatype job_outcome = Committed job | Failed job | Wake alarm_key

definition details_from_job :: "job \<Rightarrow> publish_details" where
  "details_from_job j = \<lparr>pd_key = job_key j, pd_status = job_status j\<rparr>"

end
