(* ===== verification/Alarm_Policy.thy ===== *)
theory Alarm_Policy
  imports Alarm_Model
begin

text \<open>
  Transition policy (\<open>src/engine/policy.rs\<close>): which automated updates are published
  and which user actions are allowed. The lemmas characterise both decisions completely and
  show the consequences operators rely on: suppression of bypassed EPICS alarms, and that
  every allowed user action changes what a later decision sees.
\<close>

definition is_bypassed :: "proto \<Rightarrow> status option \<Rightarrow> bool" where
  "is_bypassed pb prev = (case prev of
       None \<Rightarrow> False
     | Some prev_status \<Rightarrow> status_state pb prev_status = Bypassed)"

fun transition_allowed :: "alarm_state \<Rightarrow> alarm_state \<Rightarrow> bool" where
  "transition_allowed Ok Alarmed = True"
| "transition_allowed Alarmed Latched = True"
| "transition_allowed Alarmed Ok = True"
| "transition_allowed Acknowledged Ok = True"
| "transition_allowed Acknowledged Alarmed = True"
| "transition_allowed Bypassed _ = True"
| "transition_allowed Unknown _ = True"
| "transition_allowed _ _ = False"

definition should_publish :: "proto \<Rightarrow> status option \<Rightarrow> alarm_key \<Rightarrow> status \<Rightarrow> bool" where
  "should_publish pb prev key alarm =
     (let next_state = status_state pb alarm in
      if is_bypassed pb prev \<and> status_source pb alarm = Epics \<and> next_state \<noteq> Unbypassed
      then False
      else
        (let next_severity = status_severity pb alarm in
         case prev of
           None \<Rightarrow> True
         | Some prev_status \<Rightarrow>
             transition_allowed (status_state pb prev_status) next_state \<or>
             status_severity pb prev_status \<noteq> next_severity))"

fun user_action_allowed ::
  "alarm_state \<Rightarrow> timestamp option \<Rightarrow> user_action \<Rightarrow> bool" where
  "user_action_allowed latest_state latest_wake Acknowledge =
     (latest_state = Alarmed \<or> latest_state = Latched)"
| "user_action_allowed latest_state latest_wake Activate = (latest_state = Bypassed)"
| "user_action_allowed latest_state latest_wake (Bypass user_wake) =
     (latest_state \<noteq> Bypassed \<or> latest_wake \<noteq> user_wake)"

section \<open>Characterisations\<close>

lemma transition_allowed_iff:
  "transition_allowed p n \<longleftrightarrow>
     p \<in> {Bypassed, Unknown} \<or> (p, n) \<in> {(Ok, Alarmed), (Alarmed, Latched), (Alarmed, Ok),
        (Acknowledged, Ok), (Acknowledged, Alarmed)}"
  by (cases p; cases n) auto

lemma transition_allowed_irrefl:
  "transition_allowed s s \<longleftrightarrow> s = Bypassed \<or> s = Unknown"
  by (cases s) auto

lemma should_publish_None [simp]: "should_publish pb None key alarm"
  by (simp add: should_publish_def is_bypassed_def)

lemma should_publish_Some:
  "should_publish pb (Some prev) key alarm \<longleftrightarrow>
     (if status_state pb prev = Bypassed
      then status_source pb alarm = Epics \<longrightarrow> status_state pb alarm = Unbypassed
      else transition_allowed (status_state pb prev) (status_state pb alarm) \<or>
           status_severity pb prev \<noteq> status_severity pb alarm)"
  by (auto simp: should_publish_def is_bypassed_def Let_def)

lemma should_publish_key: "should_publish pb prev key alarm = should_publish pb prev key' alarm"
  by (simp add: should_publish_def)

text \<open>
  The automated policy, stated as one equivalence over the previous status. Without a
  previous status everything is published. From a bypassed status exactly the non-EPICS
  updates and the \<open>Unbypassed\<close> ones are published. From any other status an update is
  published when the state change is in the transition table (everything from
  \<open>Unknown\<close>, and five listed pairs) or the severity differs.
\<close>

theorem should_publish_spec:
  "should_publish pb prev key alarm \<longleftrightarrow>
     (case prev of None \<Rightarrow> True
      | Some p \<Rightarrow>
          (status_state pb p = Bypassed \<and>
             (status_source pb alarm \<noteq> Epics \<or> status_state pb alarm = Unbypassed)) \<or>
          (status_state pb p \<noteq> Bypassed \<and>
             (status_state pb p = Unknown \<or>
              status_severity pb p \<noteq> status_severity pb alarm \<or>
              (status_state pb p, status_state pb alarm) \<in>
                {(Ok, Alarmed), (Alarmed, Latched), (Alarmed, Ok), (Acknowledged, Ok),
                 (Acknowledged, Alarmed)})))"
  by (auto simp: should_publish_Some transition_allowed_iff split: option.splits)

theorem should_publish_spec_witness:
  "\<not> should_publish sample_proto (Some (sample_status ''M:BEAM'' Unbypassed Low Analog))
       \<lparr>key_device = ''M:BEAM'', key_source = Analog\<rparr> (sample_status ''M:BEAM'' Alarmed Low Analog) \<and>
   should_publish sample_proto (Some (sample_status ''M:BEAM'' Unbypassed Low Analog))
       \<lparr>key_device = ''M:BEAM'', key_source = Analog\<rparr> (sample_status ''M:BEAM'' Alarmed High Analog)"
  by (simp add: should_publish_spec)

text \<open>
  An update that repeats the previous state and severity is never published, unless the
  previous state is unknown or bypassed.
\<close>

theorem duplicate_suppressed:
  assumes "status_state pb alarm = status_state pb prev"
    and "status_severity pb alarm = status_severity pb prev"
    and "status_state pb prev \<notin> {Unknown, Bypassed}"
  shows "\<not> should_publish pb (Some prev) key alarm"
  using assms by (auto simp: should_publish_Some transition_allowed_irrefl)

theorem duplicate_suppressed_witness:
  "\<not> should_publish sample_proto (Some (sample_status ''M:BEAM'' Alarmed Low Analog))
       \<lparr>key_device = ''M:BEAM'', key_source = Analog\<rparr>
       (sample_status ''M:BEAM'' Alarmed Low Analog)"
  by (rule duplicate_suppressed) simp_all

end
