(* ===== verification/Alarm_Coordinator.thy ===== *)
theory Alarm_Coordinator
  imports Alarm_Policy
begin

text \<open>
  The coordinator (\<open>src/engine/coordinator.rs\<close>), the semantic authority over alarm
  state. The record holds the fields of \<open>AlarmStateCoordinator\<close> other than its channels;
  a handler returns the new state, the messages it sent and its \<open>Result\<close>. Sending to
  the workflow handler fails exactly when the receiving half is gone, which is the argument
  \<open>job_open\<close>; \<open>now\<close> is the wall clock in seconds. Job ids are 64-bit words whose
  increment wraps, as in the release profile.

  This theory has the operations and their functional behaviour branch by branch; the
  invariants over whole runs are in \<open>Coordinator_Machine\<close>.
\<close>

definition DEFAULT_HYDRATED_ID :: u64 where
  "DEFAULT_HYDRATED_ID = 0"

definition INITIAL_PUBLISH_ID :: u64 where
  "INITIAL_PUBLISH_ID = 1"

definition WORKFLOW_HANDLER_STOPPED :: string where
  "WORKFLOW_HANDLER_STOPPED = ''Workflow handler stopped running!''"

record coordinator =
  confirmed_state :: alarms_cache
  speculative_state :: alarms_cache
  pending_confirmations :: "(u64, confirmation) hmap"
  id_counter :: u64

datatype coord_effect =
  Send_Job job
| Confirm confirmation "update_error + unit"
| Send_Snapshot snapshot_sender alarms_snapshot

type_synonym handler_result = "string + unit"
type_synonym handler_out = "coordinator \<times> coord_effect list \<times> handler_result"

definition coordinator_new :: "(alarm_key, status) hmap \<Rightarrow> coordinator" where
  "coordinator_new hydrated_statuses =
     \<lparr>confirmed_state =
        hm_collect (map (\<lambda>(key, status). (key, (status, DEFAULT_HYDRATED_ID))) hydrated_statuses),
      speculative_state = hm_new,
      pending_confirmations = hm_new,
      id_counter = INITIAL_PUBLISH_ID\<rparr>"

section \<open>Helpers\<close>

definition job_port_send :: "bool \<Rightarrow> job \<Rightarrow> coord_effect list \<times> handler_result" where
  "job_port_send job_open j =
     (if job_open then ([Send_Job j], Inr ()) else ([], Inl WORKFLOW_HANDLER_STOPPED))"

definition get_latest_status :: "coordinator \<Rightarrow> alarm_key \<Rightarrow> status option" where
  "get_latest_status c key = map_option fst
     (case hm_get (speculative_state c) key of
        Some e \<Rightarrow> Some e
      | None \<Rightarrow> hm_get (confirmed_state c) key)"

definition get_next_id :: "coordinator \<Rightarrow> u64 \<times> coordinator" where
  "get_next_id c = (id_counter c, c\<lparr>id_counter := id_counter c + 1\<rparr>)"

definition build_user_status ::
  "proto \<Rightarrow> i64 \<Rightarrow> alarm_key \<Rightarrow> user_action \<Rightarrow> string \<Rightarrow> status" where
  "build_user_status pb now key action user = status_default\<lparr>
     st_device := key_device key,
     st_source := source_to_i32 pb (key_source key),
     st_state := state_to_i32 pb (action_as_state action),
     st_wake := action_get_wake action,
     st_user := user,
     st_time := Some \<lparr>ts_seconds = now, ts_nanos = 0\<rparr>\<rparr>"

definition send_next_for ::
  "bool \<Rightarrow> coordinator \<Rightarrow> alarm_key \<Rightarrow> coord_effect list \<times> handler_result" where
  "send_next_for job_open c key =
     (case hm_get (speculative_state c) key of
        Some (status, jid) \<Rightarrow>
          job_port_send job_open \<lparr>job_id = jid, job_key = key, job_status = status,
            job_user_initiated = hm_contains_key (pending_confirmations c) jid\<rparr>
      | None \<Rightarrow> ([], Inr ()))"

section \<open>Handlers\<close>

definition handle_snapshot :: "proto \<Rightarrow> coordinator \<Rightarrow> snapshot_sender \<Rightarrow> handler_out" where
  "handle_snapshot pb c sender =
     (let snapshot = filter (\<lambda>status. status_state pb status \<notin> {Ok, Unbypassed})
            (map (\<lambda>(_, status, _). status) (confirmed_state c)) in
      (c, [Send_Snapshot sender snapshot], Inr ()))"

definition handle_automated_update ::
  "proto \<Rightarrow> bool \<Rightarrow> coordinator \<Rightarrow> status \<Rightarrow> handler_out" where
  "handle_automated_update pb job_open c status =
     (let key = key_from_status pb status;
          prev = get_latest_status c key in
      if should_publish pb prev key status then
        (let (jid, c1) = get_next_id c;
             in_flight = hm_get (speculative_state c1) key;
             c2 = c1\<lparr>speculative_state := hm_insert (speculative_state c1) key (status, jid)\<rparr> in
         if in_flight = None then (c2, send_next_for job_open c2 key) else (c2, [], Inr ()))
      else (c, [], Inr ()))"

definition handle_user_update ::
  "proto \<Rightarrow> i64 \<Rightarrow> bool \<Rightarrow> coordinator \<Rightarrow> alarm_key \<Rightarrow> user_action \<Rightarrow> string \<Rightarrow> confirmation \<Rightarrow> handler_out" where
  "handle_user_update pb now job_open c key action user confirmation =
     (let latest_status = get_latest_status c key;
          latest_state = (case latest_status of None \<Rightarrow> Unknown | Some s \<Rightarrow> status_state pb s);
          latest_wake = (case latest_status of None \<Rightarrow> None | Some s \<Rightarrow> st_wake s) in
      if user_action_allowed latest_state latest_wake action then
        (let updated_status = build_user_status pb now key action user;
             (jid, c1) = get_next_id c;
             c2 = c1\<lparr>pending_confirmations := hm_insert (pending_confirmations c1) jid confirmation\<rparr>;
             in_flight = hm_get (speculative_state c2) key;
             c3 = c2\<lparr>speculative_state := hm_insert (speculative_state c2) key (updated_status, jid)\<rparr> in
         if in_flight = None then (c3, send_next_for job_open c3 key) else (c3, [], Inr ()))
      else (c, [Confirm confirmation (Inl (StateNotAllowed
               \<lparr>tr_key = key, tr_current = latest_state, tr_requested = action_as_state action\<rparr>))],
            Inr ()))"

definition fail_all_confirmations :: "coordinator \<Rightarrow> coordinator \<times> coord_effect list" where
  "fail_all_confirmations c =
     (c\<lparr>pending_confirmations := hm_new\<rparr>,
      List.concat (map (\<lambda>(jid, confirmation).
        case find (\<lambda>(key, status, mapped_id). mapped_id = jid) (speculative_state c) of
          Some (key, _) \<Rightarrow> [Confirm confirmation (Inl (Internal key))]
        | None \<Rightarrow> []) (pending_confirmations c)))"

definition dispatch_automated_wake ::
  "proto \<Rightarrow> i64 \<Rightarrow> bool \<Rightarrow> coordinator \<Rightarrow> alarm_key \<Rightarrow> handler_out" where
  "dispatch_automated_wake pb now job_open c key =
     handle_automated_update pb job_open c (status_default\<lparr>
       st_device := key_device key,
       st_source := source_to_i32 pb (key_source key),
       st_state := state_to_i32 pb Unbypassed,
       st_time := Some \<lparr>ts_seconds = now, ts_nanos = 0\<rparr>\<rparr>)"

definition converge_to_last_confirmed :: "proto \<Rightarrow> coordinator \<Rightarrow> alarm_key \<Rightarrow> coordinator" where
  "converge_to_last_confirmed pb c key =
     (let confirmed_entry = (case hm_get (confirmed_state c) key of
            Some e \<Rightarrow> e
          | None \<Rightarrow> (status_default\<lparr>st_device := key_device key,
                       st_source := source_to_i32 pb (key_source key)\<rparr>, DEFAULT_HYDRATED_ID)) in
      c\<lparr>speculative_state := hm_insert (speculative_state c) key confirmed_entry\<rparr>)"

definition resolve_confirmation ::
  "coordinator \<Rightarrow> u64 \<Rightarrow> (update_error + unit) \<Rightarrow> coordinator \<times> coord_effect list" where
  "resolve_confirmation c jid answer =
     (case hm_get (pending_confirmations c) jid of
        Some confirmation \<Rightarrow>
          (c\<lparr>pending_confirmations := hm_remove (pending_confirmations c) jid\<rparr>,
           [Confirm confirmation answer])
      | None \<Rightarrow> (c, []))"

definition reconcile_failure ::
  "proto \<Rightarrow> bool \<Rightarrow> coordinator \<Rightarrow> job \<Rightarrow> handler_out" where
  "reconcile_failure pb job_open c j =
     (let key = job_key j;
          (c1, es1) = resolve_confirmation c (job_id j) (Inl (Internal key)) in
      case hm_get (speculative_state c1) key of
        None \<Rightarrow> (c1, es1, Inl ''Lost state for job'')
      | Some (_, spec_id) \<Rightarrow>
          (let c2 = (if spec_id = job_id j \<and> job_user_initiated j
                     then converge_to_last_confirmed pb c1 key else c1);
               (es2, r) = send_next_for job_open c2 key in
           (c2, es1 @ es2, r)))"

definition reconcile_success :: "bool \<Rightarrow> coordinator \<Rightarrow> job \<Rightarrow> handler_out" where
  "reconcile_success job_open c success =
     (let key = job_key success;
          (c1, es1) = resolve_confirmation c (job_id success) (Inr ());
          (c2, es2, r) =
            (case hm_get (speculative_state c1) key of
               Some (_, spec_id) \<Rightarrow>
                 if spec_id = job_id success
                 then (c1\<lparr>speculative_state := hm_remove (speculative_state c1) key\<rparr>, [], Inr ())
                 else (c1, send_next_for job_open c1 key)
             | None \<Rightarrow> (c1, [], Inr ())) in
      case r of
        Inl e \<Rightarrow> (c2, es1 @ es2, Inl e)
      | Inr _ \<Rightarrow> (c2\<lparr>confirmed_state := hm_insert (confirmed_state c2) key
                     (job_status success, job_id success)\<rparr>, es1 @ es2, Inr ()))"

fun reconcile_job_outcome ::
  "proto \<Rightarrow> i64 \<Rightarrow> bool \<Rightarrow> coordinator \<Rightarrow> job_outcome \<Rightarrow> handler_out" where
  "reconcile_job_outcome pb now job_open c (Committed j) = reconcile_success job_open c j"
| "reconcile_job_outcome pb now job_open c (Failed j) = reconcile_failure pb job_open c j"
| "reconcile_job_outcome pb now job_open c (Wake key) = dispatch_automated_wake pb now job_open c key"

fun handle_message ::
  "proto \<Rightarrow> i64 \<Rightarrow> bool \<Rightarrow> coordinator \<Rightarrow> domain_input \<Rightarrow> handler_out" where
  "handle_message pb now job_open c (SnapshotRequest sender) = handle_snapshot pb c sender"
| "handle_message pb now job_open c (AutomatedUpdate status) =
     handle_automated_update pb job_open c status"
| "handle_message pb now job_open c (UserUpdate key action user confirmation) =
     handle_user_update pb now job_open c key action user confirmation"

section \<open>The event loop\<close>

text \<open>
  A receiver as \<open>tokio::select!\<close> sees it: its queued messages and whether a sender is
  left. \<open>recv\<close> yields a message, or \<open>None\<close> once the queue is empty and every sender
  is gone, and otherwise is not ready.
\<close>

record 'a receiver =
  rx_queue :: "'a list"
  rx_open :: bool

datatype 'a polled = Ready 'a "'a receiver" | Disabled | Not_Ready

definition poll_recv :: "'a receiver \<Rightarrow> 'a polled" where
  "poll_recv rx = (case rx_queue rx of
       x # xs \<Rightarrow> Ready x (rx\<lparr>rx_queue := xs\<rparr>)
     | [] \<Rightarrow> if rx_open rx then Not_Ready else Disabled)"

record coord_ports =
  outcome_rx :: "job_outcome receiver"
  user_rx :: "domain_input receiver"
  automated_rx :: "domain_input receiver"

datatype coord_event =
  On_Outcome job_outcome
| On_User domain_input
| On_Automated domain_input
| All_Dropped
| Blocked

text \<open>The biased select: the first branch that is ready, in the order of the source.\<close>

definition coord_select :: "coord_ports \<Rightarrow> coord_event \<times> coord_ports" where
  "coord_select p =
     (case poll_recv (outcome_rx p) of
        Ready x rx \<Rightarrow> (On_Outcome x, p\<lparr>outcome_rx := rx\<rparr>)
      | o1 \<Rightarrow>
        (case poll_recv (user_rx p) of
           Ready x rx \<Rightarrow> (On_User x, p\<lparr>user_rx := rx\<rparr>)
         | o2 \<Rightarrow>
           (case poll_recv (automated_rx p) of
              Ready x rx \<Rightarrow> (On_Automated x, p\<lparr>automated_rx := rx\<rparr>)
            | o3 \<Rightarrow>
              if o1 = Disabled \<and> o2 = Disabled \<and> o3 = Disabled then (All_Dropped, p)
              else (Blocked, p))))"

text \<open>
  One turn of the loop of \<open>start\<close>: the handler of the selected event, and on an error
  the failing of all confirmations, after which the loop has ended (\<open>False\<close>).
\<close>

definition coord_turn ::
  "proto \<Rightarrow> i64 \<Rightarrow> bool \<Rightarrow> coordinator \<Rightarrow> coord_event \<Rightarrow> coordinator \<times> coord_effect list \<times> bool" where
  "coord_turn pb now job_open c ev =
     (let (c1, es, outcome) =
            (case ev of
               On_Outcome jo \<Rightarrow> reconcile_job_outcome pb now job_open c jo
             | On_User m \<Rightarrow> handle_message pb now job_open c m
             | On_Automated m \<Rightarrow> handle_message pb now job_open c m
             | All_Dropped \<Rightarrow> (c, [], Inl ''All channels dropped'')
             | Blocked \<Rightarrow> (c, [], Inr ())) in
      case outcome of
        Inr _ \<Rightarrow> (c1, es, True)
      | Inl _ \<Rightarrow> (let (c2, es2) = fail_all_confirmations c1 in (c2, es @ es2, False)))"

section \<open>Functional behaviour\<close>

lemma hm_remove_absent: "hm_get m k = None \<Longrightarrow> hm_remove m k = m"
  by (auto simp: hm_get_def hm_remove_def map_of_eq_None_iff)

lemma resolve_confirmation_eq:
  "resolve_confirmation c n a =
     (c\<lparr>pending_confirmations := hm_remove (pending_confirmations c) n\<rparr>,
      case hm_get (pending_confirmations c) n of Some x \<Rightarrow> [Confirm x a] | None \<Rightarrow> [])"
  by (auto simp: resolve_confirmation_def hm_remove_absent split: option.splits)

lemma send_next_for_open:
  "send_next_for True c k =
     (case hm_get (speculative_state c) k of
        Some (st, n) \<Rightarrow> ([Send_Job \<lparr>job_id = n, job_key = k, job_status = st,
            job_user_initiated = (hm_get (pending_confirmations c) n \<noteq> None)\<rparr>], Inr ())
      | None \<Rightarrow> ([], Inr ()))"
  by (auto simp: send_next_for_def job_port_send_def split: option.splits)

lemma get_latest_status_simps:
  "hm_get (speculative_state c) k = Some (st, n) \<Longrightarrow> get_latest_status c k = Some st"
  "hm_get (speculative_state c) k = None \<Longrightarrow>
     get_latest_status c k = map_option fst (hm_get (confirmed_state c) k)"
  by (simp_all add: get_latest_status_def)

lemma coordinator_new_confirmed:
  assumes "hm_wf h"
  shows "hm_get (confirmed_state (coordinator_new h)) k =
    map_option (\<lambda>st. (st, DEFAULT_HYDRATED_ID)) (hm_get h k)"
proof -
  let ?f = "\<lambda>(key, status). (key, (status, DEFAULT_HYDRATED_ID))"
  have "map_of (rev (map ?f h)) k = map_of (map ?f h) k"
  proof -
    have "map fst (map ?f h) = map fst h" by (induction h) auto
    then have "distinct (map fst (map ?f h))" using assms by (simp only: hm_wf_def)
    then show ?thesis by (simp only: map_of_rev)
  qed
  also have "\<dots> = map_option (\<lambda>st. (st, DEFAULT_HYDRATED_ID)) (map_of h k)"
    by (induction h) auto
  finally show ?thesis by (simp add: coordinator_new_def hm_get_collect hm_get_def [of h])
qed

lemma coordinator_new_simps [simp]:
  "speculative_state (coordinator_new h) = hm_new"
  "pending_confirmations (coordinator_new h) = hm_new"
  "id_counter (coordinator_new h) = 1"
  "hm_wf (confirmed_state (coordinator_new h))"
  by (simp_all add: coordinator_new_def INITIAL_PUBLISH_ID_def)

lemma coordinator_new_empty [simp]: "confirmed_state (coordinator_new hm_new) = hm_new"
  by (simp add: coordinator_new_def hm_collect_def) (simp add: hm_new_def)

text \<open>
  The snapshot sent to a requester holds exactly the confirmed statuses whose state is
  neither \<open>Ok\<close> nor \<open>Unbypassed\<close>, one per confirmed alarm, whatever is speculative, and
  the handler changes nothing.
\<close>

theorem snapshot_of_confirmed:
  assumes "hm_wf (confirmed_state c)"
  shows "\<exists>snap. handle_snapshot pb c sender = (c, [Send_Snapshot sender snap], Inr ()) \<and>
    mset snap = image_mset (\<lambda>k. fst (the (hm_get (confirmed_state c) k)))
      (mset_set {k. \<exists>st n. hm_get (confirmed_state c) k = Some (st, n) \<and>
         status_state pb st \<notin> {Ok, Unbypassed}})"
proof -
  let ?keep = "\<lambda>(k, st, n). status_state pb st \<notin> {Ok, Unbypassed}"
  let ?es = "filter ?keep (confirmed_state c)"
  have d: "distinct (map fst ?es)"
    using assms by (auto simp: hm_wf_def distinct_map intro: inj_on_subset)
  have get: "hm_get (confirmed_state c) k = Some e" if "(k, e) \<in> set ?es" for k e
    using that assms by (simp add: hm_get_Some_iff)
  have keys: "set (map fst ?es) = {k. \<exists>st n. hm_get (confirmed_state c) k = Some (st, n) \<and>
         status_state pb st \<notin> {Ok, Unbypassed}}"
    using assms by (force simp: hm_get_Some_iff)
  have "filter (\<lambda>st. status_state pb st \<notin> {Ok, Unbypassed})
      (map (\<lambda>(_, st, _). st) (confirmed_state c)) = map (\<lambda>(_, st, _). st) ?es"
    by (simp add: filter_map comp_def case_prod_unfold)
  also have "\<dots> = map (\<lambda>k. fst (the (hm_get (confirmed_state c) k))) (map fst ?es)"
    using get by (auto simp del: set_filter)
  finally have "handle_snapshot pb c sender = (c, [Send_Snapshot sender
      (map (\<lambda>k. fst (the (hm_get (confirmed_state c) k))) (map fst ?es))], Inr ())"
    by (simp only: handle_snapshot_def Let_def)
  moreover have "mset (map fst ?es) = mset_set (set (map fst ?es))"
    using d by (rule mset_set_set [symmetric])
  ultimately show ?thesis unfolding keys by (metis mset_map)
qed

theorem snapshot_of_confirmed_witness:
  "\<exists>snap. handle_snapshot sample_proto (coordinator_new
       [(\<lparr>key_device = ''A'', key_source = Epics\<rparr>, sample_status ''A'' Bypassed Low Epics),
        (\<lparr>key_device = ''B'', key_source = Analog\<rparr>, sample_status ''B'' Ok Low Analog)]) 3 =
     (coordinator_new
       [(\<lparr>key_device = ''A'', key_source = Epics\<rparr>, sample_status ''A'' Bypassed Low Epics),
        (\<lparr>key_device = ''B'', key_source = Analog\<rparr>, sample_status ''B'' Ok Low Analog)],
      [Send_Snapshot 3 snap], Inr ())"
proof -
  let ?c = "coordinator_new
       [(\<lparr>key_device = ''A'', key_source = Epics\<rparr>, sample_status ''A'' Bypassed Low Epics),
        (\<lparr>key_device = ''B'', key_source = Analog\<rparr>, sample_status ''B'' Ok Low Analog)]"
  have "hm_wf (confirmed_state ?c)" by simp
  from snapshot_of_confirmed [OF this, of sample_proto 3] show ?thesis by blast
qed

end
