(* ===== verification/Transition_System.thy ===== *)
theory Transition_System
  imports Main
begin

text \<open>
  Reachable states of a transition system and the invariant principle, shared by the
  ingress protocol, the coordinator and the composed service.
\<close>

inductive reach :: "('s \<Rightarrow> bool) \<Rightarrow> ('s \<Rightarrow> 's \<Rightarrow> bool) \<Rightarrow> 's \<Rightarrow> bool"
  for init :: "'s \<Rightarrow> bool" and step :: "'s \<Rightarrow> 's \<Rightarrow> bool" where
  reach_init: "init s \<Longrightarrow> reach init step s"
| reach_step: "reach init step s \<Longrightarrow> step s t \<Longrightarrow> reach init step t"

lemma reach_mono: "reach init step s \<Longrightarrow> (\<And>u. init u \<Longrightarrow> init' u) \<Longrightarrow> reach init' step s"
  by (induction rule: reach.induct) (auto intro: reach.intros)

lemma reach_steps: "reach init step s \<Longrightarrow> step\<^sup>*\<^sup>* s t \<Longrightarrow> reach init step t"
  by (rotate_tac, induction rule: rtranclp_induct) (auto intro: reach.intros)

locale invariant_system =
  fixes init :: "'s \<Rightarrow> bool"
    and step :: "'s \<Rightarrow> 's \<Rightarrow> bool"
    and inv :: "'s \<Rightarrow> bool"
  assumes inv_init: "init s \<Longrightarrow> inv s"
    and inv_step: "step s t \<Longrightarrow> inv s \<Longrightarrow> inv t"
begin

lemma reach_inv: "reach init step s \<Longrightarrow> inv s"
  by (induction rule: reach.induct) (auto intro: inv_init inv_step)

lemma steps_inv: "step\<^sup>*\<^sup>* s t \<Longrightarrow> inv s \<Longrightarrow> inv t"
  by (induction rule: rtranclp_induct) (auto intro: inv_step)

end

text \<open>
  A simulation with stuttering: a step of the concrete system is matched by a step of the
  abstract one or by none, from abstract states that are themselves reachable.
\<close>

locale stuttering_simulation =
  fixes init :: "'s \<Rightarrow> bool"
    and step :: "'s \<Rightarrow> 's \<Rightarrow> bool"
    and abs_init :: "'a \<Rightarrow> bool"
    and abs_step :: "'a \<Rightarrow> 'a \<Rightarrow> bool"
    and rel :: "'s \<Rightarrow> 'a \<Rightarrow> bool"
  assumes sim_init: "init s \<Longrightarrow> \<exists>m. abs_init m \<and> rel s m"
    and sim_step: "reach abs_init abs_step m \<Longrightarrow> rel s m \<Longrightarrow> step s t \<Longrightarrow>
      rel t m \<or> (\<exists>m'. abs_step m m' \<and> rel t m')"
begin

lemma reach_matched: "reach init step s \<Longrightarrow> \<exists>m. reach abs_init abs_step m \<and> rel s m"
proof (induction rule: reach.induct)
  case (reach_init s)
  then show ?case using sim_init by (blast intro: reach.reach_init)
next
  case (reach_step s t)
  then obtain m where "reach abs_init abs_step m" "rel s m" by blast
  with sim_step [OF this reach_step(2)] show ?case by (blast intro: reach.reach_step)
qed

lemma reach_transfer:
  assumes "reach init step s" and "\<And>m. reach abs_init abs_step m \<Longrightarrow> P m"
  shows "\<exists>m. P m \<and> rel s m"
  using reach_matched [OF assms(1)] assms(2) by blast

end

end
