(* ===== verification/Coordinator_Machine.thy ===== *)
theory Coordinator_Machine
  imports Alarm_Coordinator Transition_System
begin

text \<open>
  The coordinator as a machine, against the contract of its job executor: jobs it has sent
  are in flight until the executor answers each of them once, with \<open>Committed\<close> or
  \<open>Failed\<close>; \<open>Wake\<close> events and inputs arrive at any time. \<open>Alarm_System\<close> shows that
  the workflow handler with its effect workers keeps this contract.

  The invariant ties the speculative cache to the jobs in flight (one per key), the ids to
  their keys and statuses, and the pending confirmations to the jobs that carry them. Job
  ids are 64-bit; a run is followed until the id counter would wrap.
\<close>

section \<open>The machine\<close>

record cmachine =
  cm_coord :: coordinator
  cm_jobs :: "job list"
  cm_answers :: "(confirmation \<times> (update_error + unit)) list"
  cm_running :: bool

fun sent_job :: "coord_effect \<Rightarrow> job list" where
  "sent_job (Send_Job j) = [j]"
| "sent_job _ = []"

fun sent_answer :: "coord_effect \<Rightarrow> (confirmation \<times> (update_error + unit)) list" where
  "sent_answer (Confirm x a) = [(x, a)]"
| "sent_answer _ = []"

definition sent_jobs :: "coord_effect list \<Rightarrow> job list" where
  "sent_jobs es = List.concat (map sent_job es)"

definition sent_answers :: "coord_effect list \<Rightarrow> (confirmation \<times> (update_error + unit)) list" where
  "sent_answers es = List.concat (map sent_answer es)"

fun finished_job :: "coord_event \<Rightarrow> job list \<Rightarrow> job list" where
  "finished_job (On_Outcome (Committed j)) js = remove1 j js"
| "finished_job (On_Outcome (Failed j)) js = remove1 j js"
| "finished_job _ js = js"

fun cm_enabled :: "coord_event \<Rightarrow> cmachine \<Rightarrow> bool" where
  "cm_enabled (On_Outcome (Committed j)) s = (j \<in> set (cm_jobs s))"
| "cm_enabled (On_Outcome (Failed j)) s = (j \<in> set (cm_jobs s))"
| "cm_enabled (On_Outcome (Wake k)) s = True"
| "cm_enabled (On_User m) s = True"
| "cm_enabled (On_Automated m) s = True"
| "cm_enabled All_Dropped s = False"
| "cm_enabled Blocked s = True"

definition cm_next :: "proto \<Rightarrow> i64 \<Rightarrow> coord_event \<Rightarrow> cmachine \<Rightarrow> cmachine" where
  "cm_next pb now ev s =
     (let (c, es, running) = coord_turn pb now True (cm_coord s) ev in
      \<lparr>cm_coord = c,
       cm_jobs = finished_job ev (cm_jobs s) @ sent_jobs es,
       cm_answers = cm_answers s @ sent_answers es,
       cm_running = running\<rparr>)"

definition cm_init :: "(alarm_key, status) hmap \<Rightarrow> cmachine" where
  "cm_init h = \<lparr>cm_coord = coordinator_new h, cm_jobs = [], cm_answers = [], cm_running = True\<rparr>"

definition cm_start :: "cmachine \<Rightarrow> bool" where
  "cm_start s \<longleftrightarrow> (\<exists>h. hm_wf h \<and> s = cm_init h)"

inductive cm_step :: "proto \<Rightarrow> cmachine \<Rightarrow> cmachine \<Rightarrow> bool" for pb :: proto where
  cm_stepI: "cm_running s \<Longrightarrow> id_counter (cm_coord s) \<noteq> - 1 \<Longrightarrow> cm_enabled ev s \<Longrightarrow>
     cm_step pb s (cm_next pb now ev s)"

inductive_cases cm_stepE: "cm_step pb s t"

text \<open>The abbreviations used in the statements below.\<close>

abbreviation spec :: "cmachine \<Rightarrow> alarm_key \<Rightarrow> (status \<times> u64) option" where
  "spec s \<equiv> hm_get (speculative_state (cm_coord s))"

abbreviation conf :: "cmachine \<Rightarrow> alarm_key \<Rightarrow> (status \<times> u64) option" where
  "conf s \<equiv> hm_get (confirmed_state (cm_coord s))"

abbreviation pend :: "cmachine \<Rightarrow> u64 \<Rightarrow> confirmation option" where
  "pend s \<equiv> hm_get (pending_confirmations (cm_coord s))"

abbreviation counter :: "cmachine \<Rightarrow> u64" where
  "counter s \<equiv> id_counter (cm_coord s)"

lemma sent_simps [simp]:
  "sent_jobs [] = []" "sent_answers [] = []"
  "sent_jobs (es @ fs) = sent_jobs es @ sent_jobs fs"
  "sent_answers (es @ fs) = sent_answers es @ sent_answers fs"
  "sent_jobs (e # es) = sent_job e @ sent_jobs es"
  "sent_answers (e # es) = sent_answer e @ sent_answers es"
  by (simp_all add: sent_jobs_def sent_answers_def)

section \<open>What a turn does\<close>

text \<open>
  Under the invariant every turn is one of five state changes. They are stated as results of
  \<open>cm_next\<close>, so that the invariant proofs split on them and not on the handlers.
\<close>

definition record_intent ::
  "alarm_key \<Rightarrow> status \<Rightarrow> confirmation option \<Rightarrow> cmachine \<Rightarrow> cmachine" where
  "record_intent k st cf s =
     (let n = counter s;
          j = \<lparr>job_id = n, job_key = k, job_status = st, job_user_initiated = (cf \<noteq> None \<or> pend s n \<noteq> None)\<rparr> in
      s\<lparr>cm_coord := (cm_coord s)\<lparr>
          speculative_state := hm_insert (speculative_state (cm_coord s)) k (st, n),
          pending_confirmations := (case cf of None \<Rightarrow> pending_confirmations (cm_coord s)
             | Some x \<Rightarrow> hm_insert (pending_confirmations (cm_coord s)) n x),
          id_counter := n + 1\<rparr>,
        cm_jobs := (if spec s k = None then cm_jobs s @ [j] else cm_jobs s)\<rparr>)"

definition answer_with :: "(confirmation \<times> (update_error + unit)) list \<Rightarrow> cmachine \<Rightarrow> cmachine" where
  "answer_with as s = s\<lparr>cm_answers := cm_answers s @ as\<rparr>"

definition resolve :: "job \<Rightarrow> (update_error + unit) \<Rightarrow> cmachine \<Rightarrow> cmachine" where
  "resolve j a s = s\<lparr>
     cm_coord := (cm_coord s)\<lparr>pending_confirmations :=
        hm_remove (pending_confirmations (cm_coord s)) (job_id j)\<rparr>,
     cm_jobs := remove1 j (cm_jobs s),
     cm_answers := cm_answers s @ (case pend s (job_id j) of None \<Rightarrow> [] | Some x \<Rightarrow> [(x, a)])\<rparr>"

definition resend :: "alarm_key \<Rightarrow> cmachine \<Rightarrow> cmachine" where
  "resend k s = (case spec s k of None \<Rightarrow> s
     | Some (st, n) \<Rightarrow> s\<lparr>cm_jobs := cm_jobs s @ [\<lparr>job_id = n, job_key = k, job_status = st,
         job_user_initiated = (pend s n \<noteq> None)\<rparr>]\<rparr>)"

definition set_spec :: "alarm_key \<Rightarrow> status \<times> u64 \<Rightarrow> cmachine \<Rightarrow> cmachine" where
  "set_spec k e s = s\<lparr>cm_coord := (cm_coord s)\<lparr>speculative_state :=
     hm_insert (speculative_state (cm_coord s)) k e\<rparr>\<rparr>"

definition clear_spec :: "alarm_key \<Rightarrow> cmachine \<Rightarrow> cmachine" where
  "clear_spec k s = s\<lparr>cm_coord := (cm_coord s)\<lparr>speculative_state :=
     hm_remove (speculative_state (cm_coord s)) k\<rparr>\<rparr>"

definition set_conf :: "alarm_key \<Rightarrow> status \<times> u64 \<Rightarrow> cmachine \<Rightarrow> cmachine" where
  "set_conf k e s = s\<lparr>cm_coord := (cm_coord s)\<lparr>confirmed_state :=
     hm_insert (confirmed_state (cm_coord s)) k e\<rparr>\<rparr>"

lemmas cm_prims = record_intent_def answer_with_def resolve_def resend_def set_spec_def
  clear_spec_def set_conf_def

definition rollback_entry :: "proto \<Rightarrow> cmachine \<Rightarrow> alarm_key \<Rightarrow> status \<times> u64" where
  "rollback_entry pb s k = (case conf s k of Some e \<Rightarrow> e
     | None \<Rightarrow> (status_default\<lparr>st_device := key_device k,
                  st_source := source_to_i32 pb (key_source k)\<rparr>, DEFAULT_HYDRATED_ID))"

definition wake_status :: "proto \<Rightarrow> i64 \<Rightarrow> alarm_key \<Rightarrow> status" where
  "wake_status pb now key = status_default\<lparr>
     st_device := key_device key,
     st_source := source_to_i32 pb (key_source key),
     st_state := state_to_i32 pb Unbypassed,
     st_time := Some \<lparr>ts_seconds = now, ts_nanos = 0\<rparr>\<rparr>"

definition automated_result :: "proto \<Rightarrow> status \<Rightarrow> cmachine \<Rightarrow> cmachine" where
  "automated_result pb st s =
     (let k = key_from_status pb st in
      if should_publish pb (get_latest_status (cm_coord s) k) k st
      then record_intent k st None s else s)"

lemma automated_turn:
  assumes "handle_automated_update pb True (cm_coord s) st = (c, es, r)" "cm_running s"
  shows "r = Inr () \<and> \<lparr>cm_coord = c, cm_jobs = cm_jobs s @ sent_jobs es,
      cm_answers = cm_answers s @ sent_answers es, cm_running = True\<rparr> = automated_result pb st s"
  using assms
  by (auto simp: handle_automated_update_def get_next_id_def send_next_for_open record_intent_def
      automated_result_def Let_def split: if_splits)

lemma cm_next_automated:
  assumes "cm_running s"
  shows "cm_next pb now (On_Automated (AutomatedUpdate st)) s = automated_result pb st s"
    and "cm_next pb now (On_User (AutomatedUpdate st)) s = automated_result pb st s"
    and "cm_next pb now (On_Outcome (Wake k)) s = automated_result pb (wake_status pb now k) s"
proof -
  have step: "\<lparr>cm_coord = c, cm_jobs = cm_jobs s @ sent_jobs es,
      cm_answers = cm_answers s @ sent_answers es, cm_running = True\<rparr> = automated_result pb st' s
      \<and> r = Inr ()"
    if "handle_automated_update pb True (cm_coord s) st' = (c, es, r)" for st' c es r
    using automated_turn [OF that assms] by simp
  obtain c es r where h: "handle_automated_update pb True (cm_coord s) st = (c, es, r)"
    by (metis prod_cases3)
  with step [OF h] show "cm_next pb now (On_Automated (AutomatedUpdate st)) s = automated_result pb st s"
    and "cm_next pb now (On_User (AutomatedUpdate st)) s = automated_result pb st s"
    by (simp_all add: cm_next_def coord_turn_def)
  obtain c es r where h: "handle_automated_update pb True (cm_coord s) (wake_status pb now k) = (c, es, r)"
    by (metis prod_cases3)
  with step [OF h]
  show "cm_next pb now (On_Outcome (Wake k)) s = automated_result pb (wake_status pb now k) s"
    by (simp add: cm_next_def coord_turn_def dispatch_automated_wake_def wake_status_def)
qed

lemma cm_next_snapshot:
  assumes "cm_running s"
  shows "cm_next pb now (On_Automated (SnapshotRequest x)) s = s"
    and "cm_next pb now (On_User (SnapshotRequest x)) s = s"
    and "cm_next pb now Blocked s = s"
  using assms by (simp_all add: cm_next_def coord_turn_def handle_snapshot_def)

definition latest_state :: "proto \<Rightarrow> cmachine \<Rightarrow> alarm_key \<Rightarrow> alarm_state" where
  "latest_state pb s k = (case get_latest_status (cm_coord s) k of None \<Rightarrow> Unknown
     | Some st \<Rightarrow> status_state pb st)"

definition latest_wake :: "cmachine \<Rightarrow> alarm_key \<Rightarrow> timestamp option" where
  "latest_wake s k = (case get_latest_status (cm_coord s) k of None \<Rightarrow> None
     | Some st \<Rightarrow> st_wake st)"

definition user_result ::
  "proto \<Rightarrow> i64 \<Rightarrow> alarm_key \<Rightarrow> user_action \<Rightarrow> string \<Rightarrow> confirmation \<Rightarrow> cmachine \<Rightarrow> cmachine" where
  "user_result pb now k action user cf s =
     (if user_action_allowed (latest_state pb s k) (latest_wake s k) action
      then record_intent k (build_user_status pb now k action user) (Some cf) s
      else answer_with [(cf, Inl (StateNotAllowed \<lparr>tr_key = k,
        tr_current = latest_state pb s k, tr_requested = action_as_state action\<rparr>))] s)"

lemma cm_next_user:
  assumes "cm_running s"
  shows "cm_next pb now (On_User (UserUpdate k action user cf)) s = user_result pb now k action user cf s"
    and "cm_next pb now (On_Automated (UserUpdate k action user cf)) s = user_result pb now k action user cf s"
  using assms
  by (auto simp: cm_next_def coord_turn_def handle_user_update_def get_next_id_def
      send_next_for_open record_intent_def answer_with_def user_result_def Let_def
      latest_state_def latest_wake_def)

lemma cm_next_committed:
  assumes "cm_running s"
  shows "cm_next pb now (On_Outcome (Committed j)) s =
    set_conf (job_key j) (job_status j, job_id j)
      ((case spec s (job_key j) of None \<Rightarrow> (\<lambda>x. x)
        | Some (_, m) \<Rightarrow> if m = job_id j then clear_spec (job_key j) else resend (job_key j))
       (resolve j (Inr ()) s))"
  using assms
  by (auto simp: cm_next_def coord_turn_def reconcile_success_def resolve_confirmation_eq
      send_next_for_open cm_prims Let_def split: option.splits)

lemma cm_next_failed:
  assumes "cm_running s" "spec s (job_key j) = Some (st, m)"
  shows "cm_next pb now (On_Outcome (Failed j)) s =
    resend (job_key j)
      ((if m = job_id j \<and> job_user_initiated j
        then set_spec (job_key j) (rollback_entry pb s (job_key j)) else (\<lambda>x. x))
       (resolve j (Inl (Internal (job_key j))) s))"
  using assms
  by (auto simp: cm_next_def coord_turn_def reconcile_failure_def resolve_confirmation_eq
      send_next_for_open cm_prims converge_to_last_confirmed_def rollback_entry_def Let_def
      split: option.splits)

lemma cm_next_failed_lost:
  assumes "spec s (job_key j) = None"
  shows "\<not> cm_running (cm_next pb now (On_Outcome (Failed j)) s)"
  using assms
  by (auto simp: cm_next_def coord_turn_def reconcile_failure_def resolve_confirmation_eq
      fail_all_confirmations_def split: option.splits)

section \<open>The invariant\<close>

text \<open>\<open>entry s k n st\<close>: the id \<open>n\<close> stands for status \<open>st\<close> of alarm \<open>k\<close> somewhere.\<close>

definition entry :: "cmachine \<Rightarrow> alarm_key \<Rightarrow> u64 \<Rightarrow> status \<Rightarrow> bool" where
  "entry s k n st \<longleftrightarrow> spec s k = Some (st, n) \<or> conf s k = Some (st, n) \<or>
     (\<exists>j\<in>set (cm_jobs s). job_key j = k \<and> job_id j = n \<and> job_status j = st)"

definition default_status :: "proto \<Rightarrow> alarm_key \<Rightarrow> status" where
  "default_status pb k = status_default\<lparr>st_device := key_device k,
     st_source := source_to_i32 pb (key_source k)\<rparr>"

text \<open>One job in flight per key, exactly for the keys with speculative state.\<close>

definition inv_flight :: "cmachine \<Rightarrow> bool" where
  "inv_flight s \<longleftrightarrow> distinct (map job_key (cm_jobs s)) \<and>
     (\<forall>k. spec s k = None \<longleftrightarrow> (\<forall>j\<in>set (cm_jobs s). job_key j \<noteq> k))"

text \<open>Ids in use are below the counter, and pending ids were allocated by the counter.\<close>

definition inv_ids :: "cmachine \<Rightarrow> bool" where
  "inv_ids s \<longleftrightarrow> 0 < counter s \<and> (\<forall>k n st. entry s k n st \<longrightarrow> n < counter s) \<and>
     (\<forall>n. pend s n \<noteq> None \<longrightarrow> 0 < n \<and> n < counter s)"

text \<open>An id stands for one status of one alarm; only the baseline id 0 is shared by alarms.\<close>

definition inv_entry :: "proto \<Rightarrow> cmachine \<Rightarrow> bool" where
  "inv_entry pb s \<longleftrightarrow>
     (\<forall>k k' n st st'. entry s k n st \<and> entry s k' n st' \<and> (n \<noteq> 0 \<or> k = k') \<longrightarrow> k = k' \<and> st = st') \<and>
     (\<forall>k st. conf s k = None \<and> entry s k 0 st \<longrightarrow> st = default_status pb k)"

text \<open>A job carries the user flag exactly while its confirmation is pending.\<close>

definition inv_user :: "cmachine \<Rightarrow> bool" where
  "inv_user s \<longleftrightarrow>
     (\<forall>j\<in>set (cm_jobs s). job_user_initiated j \<longleftrightarrow> pend s (job_id j) \<noteq> None) \<and>
     (\<forall>k st n. conf s k = Some (st, n) \<longrightarrow> pend s n = None)"

definition inv_maps :: "cmachine \<Rightarrow> bool" where
  "inv_maps s \<longleftrightarrow> hm_wf (speculative_state (cm_coord s)) \<and> hm_wf (confirmed_state (cm_coord s)) \<and>
     hm_wf (pending_confirmations (cm_coord s))"

definition cm_inv :: "proto \<Rightarrow> cmachine \<Rightarrow> bool" where
  "cm_inv pb s \<longleftrightarrow> cm_running s \<and> inv_maps s \<and> inv_flight s \<and> inv_ids s \<and> inv_entry pb s \<and> inv_user s"

lemmas cm_inv_defs = inv_maps_def inv_flight_def inv_ids_def inv_entry_def inv_user_def

lemma cm_inv_init: "hm_wf h \<Longrightarrow> cm_inv pb (cm_init h)"
  by (auto simp: cm_inv_def cm_inv_defs cm_init_def entry_def coordinator_new_confirmed
      DEFAULT_HYDRATED_ID_def)

section \<open>The invariant is preserved\<close>

lemma prim_simps [simp]:
  "cm_coord (answer_with as s) = cm_coord s" "cm_jobs (answer_with as s) = cm_jobs s"
  "cm_running (answer_with as s) = cm_running s"
  "spec (resolve j a s) = spec s" "conf (resolve j a s) = conf s"
  "pend (resolve j a s) = (pend s)(job_id j := None)" "counter (resolve j a s) = counter s"
  "cm_jobs (resolve j a s) = remove1 j (cm_jobs s)" "cm_running (resolve j a s) = cm_running s"
  "cm_coord (resend k s) = cm_coord s" "cm_running (resend k s) = cm_running s"
  "spec (set_spec k e s) = (spec s)(k \<mapsto> e)" "conf (set_spec k e s) = conf s"
  "pend (set_spec k e s) = pend s" "counter (set_spec k e s) = counter s"
  "cm_jobs (set_spec k e s) = cm_jobs s" "cm_running (set_spec k e s) = cm_running s"
  "spec (clear_spec k s) = (spec s)(k := None)" "conf (clear_spec k s) = conf s"
  "pend (clear_spec k s) = pend s" "counter (clear_spec k s) = counter s"
  "cm_jobs (clear_spec k s) = cm_jobs s" "cm_running (clear_spec k s) = cm_running s"
  "spec (set_conf k e s) = spec s" "conf (set_conf k e s) = (conf s)(k \<mapsto> e)"
  "pend (set_conf k e s) = pend s" "counter (set_conf k e s) = counter s"
  "cm_jobs (set_conf k e s) = cm_jobs s" "cm_running (set_conf k e s) = cm_running s"
  "spec (record_intent k st cf s) = (spec s)(k \<mapsto> (st, counter s))"
  "conf (record_intent k st cf s) = conf s"
  "counter (record_intent k st cf s) = counter s + 1"
  "cm_running (record_intent k st cf s) = cm_running s"
  by (auto simp: cm_prims Let_def split: option.splits)

lemma answers_simps [simp]:
  "cm_answers (resend k s) = cm_answers s" "cm_answers (set_spec k e s) = cm_answers s"
  "cm_answers (clear_spec k s) = cm_answers s" "cm_answers (set_conf k e s) = cm_answers s"
  "cm_answers (record_intent k st cf s) = cm_answers s" "cm_answers (answer_with xs s) = cm_answers s @ xs"
  "cm_answers (resolve j a s) = cm_answers s @ (case pend s (job_id j) of None \<Rightarrow> [] | Some x \<Rightarrow> [(x, a)])"
  by (auto simp: cm_prims Let_def split: option.splits)

lemma pend_record [simp]: "pend (record_intent k st cf s) =
    (case cf of None \<Rightarrow> pend s | Some x \<Rightarrow> (pend s)(counter s \<mapsto> x))"
  by (auto simp: record_intent_def Let_def split: option.splits)

lemma jobs_record: "cm_jobs (record_intent k st cf s) = (if spec s k = None
    then cm_jobs s @ [\<lparr>job_id = counter s, job_key = k, job_status = st,
      job_user_initiated = (cf \<noteq> None \<or> pend s (counter s) \<noteq> None)\<rparr>] else cm_jobs s)"
  by (simp add: record_intent_def Let_def)

lemma jobs_resend: "cm_jobs (resend k s) = (case spec s k of None \<Rightarrow> cm_jobs s
    | Some (st, n) \<Rightarrow> cm_jobs s @ [\<lparr>job_id = n, job_key = k, job_status = st,
        job_user_initiated = (pend s n \<noteq> None)\<rparr>])"
  by (auto simp: resend_def split: option.splits)

lemma maps_prims [simp]:
  "inv_maps s \<Longrightarrow> inv_maps (resolve j a s)" "inv_maps s \<Longrightarrow> inv_maps (set_spec k e s)"
  "inv_maps s \<Longrightarrow> inv_maps (clear_spec k s)" "inv_maps s \<Longrightarrow> inv_maps (set_conf k e s)"
  "inv_maps (resend k s) = inv_maps s" "inv_maps (answer_with as s) = inv_maps s"
  "inv_maps s \<Longrightarrow> inv_maps (record_intent k st cf s)"
  by (auto simp: inv_maps_def cm_prims Let_def split: option.splits)

lemma less_Suc_word: "n < c \<Longrightarrow> c \<noteq> - 1 \<Longrightarrow> n < c + 1" for n c :: u64
  by (simp add: word_less_nat_alt unat_Suc_word)

lemma self_less_Suc_word: "c \<noteq> - 1 \<Longrightarrow> c < c + 1" for c :: u64
  by (simp add: word_less_nat_alt unat_Suc_word)

lemma flight_remove:
  assumes "distinct (map job_key js)" "j \<in> set js"
  shows "set (remove1 j js) = set js - {j}"
    and "job_key ` (set js - {j}) = job_key ` set js - {job_key j}"
    and "distinct (map job_key (remove1 j js))"
    and "\<And>j'. j' \<in> set js \<Longrightarrow> job_key j' = job_key j \<Longrightarrow> j' = j"
proof -
  have d: "distinct js" and inj: "inj_on job_key (set js)"
    using assms(1) by (simp_all add: distinct_map)
  from d show set: "set (remove1 j js) = set js - {j}" by simp
  from inj assms(2) show "job_key ` (set js - {j}) = job_key ` set js - {job_key j}"
    by (auto simp: inj_on_def)
  from d inj set show "distinct (map job_key (remove1 j js))"
    by (auto simp: distinct_map intro: inj_on_subset)
  show "\<And>j'. j' \<in> set js \<Longrightarrow> job_key j' = job_key j \<Longrightarrow> j' = j"
    using inj assms(2) by (auto simp: inj_on_def)
qed

lemma entry_record: "entry (record_intent k st cf s) k' n st' \<Longrightarrow>
    (k' = k \<and> n = counter s \<and> st' = st) \<or> entry s k' n st'"
  by (auto simp: entry_def jobs_record split: if_splits)

lemma record_intent_inv:
  assumes "cm_inv pb s" "counter s \<noteq> - 1"
  shows "cm_inv pb (record_intent k st cf s)"
proof -
  let ?t = "record_intent k st cf s"
  have fresh: "\<not> entry s k' (counter s) st'" for k' st'
    using assms(1) by (auto simp: cm_inv_def inv_ids_def dest!: spec)
  have pfresh: "pend s (counter s) = None"
    using assms(1) by (auto simp: cm_inv_def inv_ids_def) 
  have pos: "0 < counter s" using assms(1) by (simp add: cm_inv_def inv_ids_def)
  have "inv_flight ?t"
    using assms(1) by (auto simp: cm_inv_def inv_flight_def jobs_record)
  moreover have "inv_ids ?t"
    using assms pos self_less_Suc_word [OF assms(2)]
    by (auto simp: cm_inv_def inv_ids_def dest!: entry_record split: option.splits if_splits
        intro: less_Suc_word less_trans)
  moreover have "inv_entry pb ?t"
    using assms(1) fresh pos unfolding cm_inv_def inv_entry_def
    by (auto dest!: entry_record) blast+
  moreover have "inv_user ?t"
    using assms(1) fresh pfresh
    by (auto simp: cm_inv_def inv_user_def jobs_record entry_def split: option.splits)
  ultimately show ?thesis using assms(1) by (simp add: cm_inv_def)
qed

lemma automated_result_inv: "cm_inv pb s \<Longrightarrow> counter s \<noteq> - 1 \<Longrightarrow> cm_inv pb (automated_result pb st s)"
  by (simp add: automated_result_def Let_def record_intent_inv)

lemma answer_with_inv [simp]: "cm_inv pb (answer_with as s) = cm_inv pb s"
  by (simp add: cm_inv_def cm_inv_defs entry_def)

lemma user_result_inv: "cm_inv pb s \<Longrightarrow> counter s \<noteq> - 1 \<Longrightarrow>
    cm_inv pb (user_result pb now k action user cf s)"
  by (simp add: user_result_def record_intent_inv)

text \<open>
  A step that allocates no id keeps the id and entry parts of the invariant as long as its
  entries are old ones, or the default status of an alarm that was never confirmed.
\<close>

lemma cm_inv_by_subset:
  assumes inv: "cm_inv pb s"
    and t: "cm_running t" "inv_maps t" "inv_flight t" "inv_user t" "counter t = counter s"
    and ent: "\<And>k n st. entry t k n st \<Longrightarrow>
      entry s k n st \<or> conf s k = None \<and> n = 0 \<and> st = default_status pb k"
    and cf: "\<And>k. conf t k = None \<Longrightarrow> conf s k = None"
    and pd: "\<And>n. pend t n \<noteq> None \<Longrightarrow> pend s n \<noteq> None"
  shows "cm_inv pb t"
proof -
  have "inv_ids t"
    using inv pd unfolding cm_inv_def inv_ids_def t(5) by (auto dest!: ent) blast+
  moreover have "inv_entry pb t"
    unfolding inv_entry_def
  proof (intro conjI allI impI; (elim conjE)?)
    fix k k' n st st'
    assume e: "entry t k n st" "entry t k' n st'" "n \<noteq> 0 \<or> k = k'"
    from inv have u: "entry s k n st \<Longrightarrow> entry s k' n st' \<Longrightarrow> k = k' \<and> st = st'"
      and d: "\<And>k st. conf s k = None \<Longrightarrow> entry s k 0 st \<Longrightarrow> st = default_status pb k"
      using e(3) unfolding cm_inv_def inv_entry_def by blast+
    from ent [OF e(1)] ent [OF e(2)] e(3) u d show "k = k'" "st = st'" by blast+
  next
    fix k st assume "conf t k = None" "entry t k 0 st"
    with cf [of k] ent [of k 0 st] inv show "st = default_status pb k"
      unfolding cm_inv_def inv_entry_def by blast
  qed
  ultimately show ?thesis using t by (simp add: cm_inv_def)
qed

lemma resolve_user:
  assumes "cm_inv pb s" "j \<in> set (cm_jobs s)"
  shows "\<And>j'. j' \<in> set (cm_jobs s) \<Longrightarrow> j' \<noteq> j \<Longrightarrow>
      job_user_initiated j' \<longleftrightarrow> ((pend s)(job_id j := None)) (job_id j') \<noteq> None"
    and "\<And>k st n. conf s k = Some (st, n) \<Longrightarrow> pend s n = None"
proof -
  fix j' assume j': "j' \<in> set (cm_jobs s)" "j' \<noteq> j"
  have d: "distinct (map job_key (cm_jobs s))"
    and u: "job_user_initiated j' \<longleftrightarrow> pend s (job_id j') \<noteq> None"
    and z: "pend s 0 = None"
    using assms(1) j'(1) by (auto simp: cm_inv_def inv_flight_def inv_user_def inv_ids_def)
  have "job_id j' = job_id j \<Longrightarrow> job_id j = 0"
  proof (rule ccontr)
    assume "job_id j' = job_id j" "job_id j \<noteq> 0"
    moreover have "entry s (job_key j') (job_id j') (job_status j')" "entry s (job_key j) (job_id j) (job_status j)"
      using assms(2) j'(1) by (auto simp: entry_def)
    ultimately have "job_key j' = job_key j"
      using assms(1) unfolding cm_inv_def inv_entry_def by metis
    with flight_remove(4) [OF d assms(2) j'(1)] j'(2) show False by simp
  qed
  with u z show "job_user_initiated j' \<longleftrightarrow> ((pend s)(job_id j := None)) (job_id j') \<noteq> None"
    by auto
next
  show "\<And>k st n. conf s k = Some (st, n) \<Longrightarrow> pend s n = None"
    using assms(1) by (auto simp: cm_inv_def inv_user_def)
qed

lemma committed_entries:
  assumes inv: "cm_inv pb s" and j: "j \<in> set (cm_jobs s)"
    and ent: "entry (cm_next pb now (On_Outcome (Committed j)) s) k n st'"
  shows "entry s k n st'"
proof -
  have d: "distinct (map job_key (cm_jobs s))" and run: "cm_running s"
    and fl: "\<And>k. spec s k = None \<longleftrightarrow> (\<forall>j\<in>set (cm_jobs s). job_key j \<noteq> k)"
    using inv by (simp_all add: cm_inv_def inv_flight_def)
  from fl [of "job_key j"] j obtain st m where sp: "spec s (job_key j) = Some (st, m)" by fastforce
  have "entry s (job_key j) (job_id j) (job_status j)" "entry s (job_key j) m st"
    using j sp by (auto simp: entry_def)
  with ent flight_remove(1) [OF d j] sp show ?thesis
    by (auto simp: cm_next_committed [OF run] entry_def jobs_resend split: if_splits)
qed

text \<open>A failure brings in no entries but the default status of an alarm that was never confirmed.\<close>

lemma failed_entries:
  assumes inv: "cm_inv pb s" and j: "j \<in> set (cm_jobs s)"
    and ent: "entry (cm_next pb now (On_Outcome (Failed j)) s) k n st'"
  shows "entry s k n st' \<or> k = job_key j \<and> conf s k = None \<and> n = 0 \<and> st' = default_status pb k"
proof -
  let ?k = "job_key j"
  have d: "distinct (map job_key (cm_jobs s))" and run: "cm_running s"
    and fl: "\<And>k. spec s k = None \<longleftrightarrow> (\<forall>j\<in>set (cm_jobs s). job_key j \<noteq> k)"
    using inv by (simp_all add: cm_inv_def inv_flight_def)
  from fl [of ?k] j obtain st m where sp: "spec s ?k = Some (st, m)" by fastforce
  have own: "entry s ?k m st" using sp by (simp add: entry_def)
  obtain rst rn where r: "rollback_entry pb s ?k = (rst, rn)" by fastforce
  then have "entry s ?k rn rst \<or> conf s ?k = None \<and> rn = 0 \<and> rst = default_status pb ?k"
    by (auto simp: rollback_entry_def entry_def default_status_def DEFAULT_HYDRATED_ID_def split: option.splits)
  with ent own flight_remove(1) [OF d j] sp r show ?thesis
    by (auto simp: cm_next_failed [OF run sp] entry_def jobs_resend split: if_splits)
qed

lemma committed_inv:
  assumes inv: "cm_inv pb s" and j: "j \<in> set (cm_jobs s)"
  shows "cm_inv pb (cm_next pb now (On_Outcome (Committed j)) s)"
proof -
  let ?k = "job_key j" and ?t = "cm_next pb now (On_Outcome (Committed j)) s"
  have d: "distinct (map job_key (cm_jobs s))"
    and fl: "\<And>k. spec s k = None \<longleftrightarrow> (\<forall>j\<in>set (cm_jobs s). job_key j \<noteq> k)"
    and run: "cm_running s"
    using inv by (simp_all add: cm_inv_def inv_flight_def)
  note rm = flight_remove [OF d j]
  from fl [of ?k] j obtain st m where sp: "spec s ?k = Some (st, m)" by fastforce
  note t = cm_next_committed [OF run, of pb now j, unfolded sp option.case prod.case]
  show ?thesis
  proof (rule cm_inv_by_subset [OF inv])
    show "cm_running ?t" "counter ?t = counter s" using run by (simp_all add: t)
    show "inv_maps ?t" using inv by (simp add: t cm_inv_def)
    show "inv_flight ?t"
      using d fl rm sp j by (auto simp: t inv_flight_def jobs_resend)
    show "inv_user ?t"
      using resolve_user [OF inv j] rm sp
      by (auto simp: t inv_user_def jobs_resend split: if_splits)
    show "conf ?t k = None \<Longrightarrow> conf s k = None" for k
      by (auto simp: t split: if_splits)
    show "pend ?t n \<noteq> None \<Longrightarrow> pend s n \<noteq> None" for n
      by (auto simp: t split: if_splits)
    show "entry ?t k n st' \<Longrightarrow> entry s k n st' \<or> conf s k = None \<and> n = 0 \<and> st' = default_status pb k"
      for k n st'
      using committed_entries [OF inv j] by blast
  qed
qed

lemma failed_inv:
  assumes inv: "cm_inv pb s" and j: "j \<in> set (cm_jobs s)"
  shows "cm_inv pb (cm_next pb now (On_Outcome (Failed j)) s)"
proof -
  let ?k = "job_key j" and ?t = "cm_next pb now (On_Outcome (Failed j)) s"
  have d: "distinct (map job_key (cm_jobs s))"
    and fl: "\<And>k. spec s k = None \<longleftrightarrow> (\<forall>j\<in>set (cm_jobs s). job_key j \<noteq> k)"
    and run: "cm_running s"
    using inv by (simp_all add: cm_inv_def inv_flight_def)
  note rm = flight_remove [OF d j]
  from fl [of ?k] j obtain st m where sp: "spec s ?k = Some (st, m)" by fastforce
  note t = cm_next_failed [OF run sp, of pb now]
  obtain rst rn where r: "rollback_entry pb s ?k = (rst, rn)" by fastforce
  show ?thesis
  proof (rule cm_inv_by_subset [OF inv])
    show "cm_running ?t" "counter ?t = counter s" using run by (simp_all add: t)
    show "inv_maps ?t" using inv by (simp add: t cm_inv_def)
    show "inv_flight ?t"
      using d fl rm sp r j by (auto simp: t inv_flight_def jobs_resend)
    show "inv_user ?t"
      using resolve_user [OF inv j] rm sp r
      by (auto simp: t inv_user_def jobs_resend split: if_splits)
    show "conf ?t k = None \<Longrightarrow> conf s k = None" for k
      by (auto simp: t split: if_splits)
    show "pend ?t n \<noteq> None \<Longrightarrow> pend s n \<noteq> None" for n
      by (auto simp: t split: if_splits)
    show "entry ?t k n st' \<Longrightarrow> entry s k n st' \<or> conf s k = None \<and> n = 0 \<and> st' = default_status pb k"
      for k n st'
      using failed_entries [OF inv j] by blast
  qed
qed

lemma cm_next_inv:
  assumes inv: "cm_inv pb s" and en: "cm_enabled ev s" and c: "counter s \<noteq> - 1"
  shows "cm_inv pb (cm_next pb now ev s)"
proof -
  have run: "cm_running s" using inv by (simp add: cm_inv_def)
  note turn = cm_next_automated [OF run] cm_next_user [OF run] cm_next_snapshot [OF run]
    automated_result_inv [OF inv c] user_result_inv [OF inv c] committed_inv [OF inv]
    failed_inv [OF inv] inv
  have msg: "cm_inv pb (cm_next pb now (On_User m) s)" "cm_inv pb (cm_next pb now (On_Automated m) s)"
    for m by (cases m; simp add: turn)+
  have out: "cm_inv pb (cm_next pb now (On_Outcome jo) s)" if "ev = On_Outcome jo" for jo
    using en that by (cases jo) (simp_all add: turn)
  show ?thesis
    using en msg out by (cases ev) (simp_all add: turn)
qed

interpretation coord: invariant_system cm_start "cm_step pb" "cm_inv pb" for pb
  by unfold_locales (auto simp: cm_start_def cm_inv_init elim!: cm_stepE intro: cm_next_inv)

end
