(* ===== verification/Coordinator_Properties.thy ===== *)
theory Coordinator_Properties
  imports Coordinator_Machine
begin

text \<open>
  What the invariant of \<open>Coordinator_Machine\<close> gives for the runs of the coordinator:
  one job in flight per alarm, ids that identify an intent, outcomes that resolve the right
  confirmation and never replace newer intent, rollback of failed user actions, convergence
  once the executor accepts the jobs, and the confirmations that are never answered.
\<close>

section \<open>A concrete run for the examples\<close>

definition demo_key :: alarm_key where
  "demo_key = \<lparr>key_device = ''M:BEAM'', key_source = Epics\<rparr>"

definition demo_bypass :: coord_event where
  "demo_bypass = On_User (UserUpdate demo_key (Bypass None) ''op'' 7)"

definition demo_run :: cmachine where
  "demo_run = cm_next sample_proto 100 demo_bypass (cm_init hm_new)"

definition demo_status :: status where
  "demo_status = build_user_status sample_proto 100 demo_key (Bypass None) ''op''"

definition demo_job :: job where
  "demo_job = \<lparr>job_id = 1, job_key = demo_key, job_status = demo_status, job_user_initiated = True\<rparr>"

lemma demo_run_eq: "demo_run = record_intent demo_key demo_status (Some 7) (cm_init hm_new)"
  by (simp add: demo_run_def demo_bypass_def cm_next_user cm_init_def user_result_def
      latest_state_def get_latest_status_def demo_status_def)

lemma demo_simps [simp]:
  "cm_jobs demo_run = [demo_job]" "cm_running demo_run" "counter demo_run = 2"
  "spec demo_run demo_key = Some (demo_status, 1)" "pend demo_run 1 = Some 7"
  "job_key demo_job = demo_key" "job_id demo_job = 1" "job_user_initiated demo_job"
  "job_status demo_job = demo_status" "cm_answers demo_run = []"
  "conf demo_run demo_key = None"
  by (simp_all add: demo_run_eq jobs_record demo_job_def cm_init_def)

lemma reach_demo: "reach cm_start (cm_step sample_proto) demo_run"
proof (rule reach_step [OF reach_init])
  show "cm_start (cm_init hm_new)" by (auto simp: cm_start_def)
  show "cm_step sample_proto (cm_init hm_new) demo_run"
    unfolding demo_run_def by (rule cm_stepI) (simp_all add: cm_init_def demo_bypass_def)
qed

lemma reach_cm_inv: "reach cm_start (cm_step pb) s \<Longrightarrow> cm_inv pb s"
  by (rule coord.reach_inv)

section \<open>Jobs in flight and ids\<close>

text \<open>
  C1: in every reachable state the coordinator is still running (it never stops with
  \<open>Lost state for job\<close>), there is at most one job in flight per alarm, and an alarm has
  speculative state exactly while a job for it is in flight.
\<close>

theorem coordinator_flight:
  assumes "reach cm_start (cm_step pb) s"
  shows "cm_running s \<and> distinct (map job_key (cm_jobs s)) \<and>
    (\<forall>k. spec s k \<noteq> None \<longleftrightarrow> k \<in> job_key ` set (cm_jobs s))"
  using reach_cm_inv [OF assms]
  by (auto simp: cm_inv_def inv_flight_def image_iff simp del: not_None_eq)

theorem coordinator_flight_witness:
  "cm_running demo_run \<and> distinct (map job_key (cm_jobs demo_run)) \<and>
    (spec demo_run demo_key \<noteq> None \<longleftrightarrow> demo_key \<in> job_key ` set (cm_jobs demo_run))"
  using coordinator_flight [OF reach_demo] by blast

text \<open>
  In every reachable state an id other than the hydration baseline 0 stands for one status
  of one alarm: wherever it occurs in the speculative cache, the confirmed cache or a job in
  flight, it comes with the same alarm and the same status. All ids in use are smaller than
  the id the coordinator allocates next, so a new intent always gets a fresh, larger id.
\<close>

theorem coordinator_ids:
  assumes "reach cm_start (cm_step pb) s" "entry s k n st"
  shows "n < counter s \<and> (entry s k' n st' \<and> n \<noteq> 0 \<longrightarrow> k' = k \<and> st' = st)"
  using reach_cm_inv [OF assms(1)] assms(2)
  unfolding cm_inv_def inv_ids_def inv_entry_def by metis

theorem coordinator_ids_witness:
  "(1::u64) < counter demo_run \<and>
    \<not> entry demo_run \<lparr>key_device = ''Z'', key_source = Analog\<rparr> 1 demo_status"
proof -
  have "entry demo_run demo_key 1 demo_status" by (simp add: entry_def)
  from coordinator_ids [OF reach_demo this, of "\<lparr>key_device = ''Z'', key_source = Analog\<rparr>" demo_status]
  show ?thesis by (simp add: demo_key_def)
qed

section \<open>Outcomes\<close>

lemma flight_spec:
  assumes "cm_inv pb s" "j \<in> set (cm_jobs s)"
  obtains st m where "spec s (job_key j) = Some (st, m)"
    "m = job_id j \<longrightarrow> st = job_status j"
proof -
  from assms obtain st m where sp: "spec s (job_key j) = Some (st, m)"
    by (fastforce simp: cm_inv_def inv_flight_def)
  moreover have "entry s (job_key j) m st" "entry s (job_key j) (job_id j) (job_status j)"
    using sp assms(2) by (auto simp: entry_def)
  with assms(1) have "m = job_id j \<longrightarrow> st = job_status j"
    unfolding cm_inv_def inv_entry_def by metis
  ultimately show thesis by (rule that)
qed

text \<open>
  C17: when a job in flight is committed, its status becomes the confirmed status of the alarm,
  the confirmation registered for it (if any) is answered \<open>Ok\<close> and nothing else is
  answered; if its id is still the current one the speculative state is cleared, and if newer
  intent was recorded meanwhile that intent is kept unchanged and sent as the next job.
\<close>

theorem commit_outcome:
  assumes "reach cm_start (cm_step pb) s" "j \<in> set (cm_jobs s)"
    and t: "t = cm_next pb now (On_Outcome (Committed j)) s"
  shows "conf t (job_key j) = Some (job_status j, job_id j) \<and>
    cm_answers t = cm_answers s @
      (case pend s (job_id j) of None \<Rightarrow> [] | Some cf \<Rightarrow> [(cf, Inr ())]) \<and>
    pend t (job_id j) = None \<and>
    (\<exists>st m. spec s (job_key j) = Some (st, m) \<and>
      (if m = job_id j then spec t = (spec s)(job_key j := None) \<and> cm_jobs t = remove1 j (cm_jobs s)
       else spec t = spec s \<and> cm_jobs t = remove1 j (cm_jobs s) @
          [\<lparr>job_id = m, job_key = job_key j, job_status = st, job_user_initiated = (pend s m \<noteq> None)\<rparr>]))"
proof -
  have inv: "cm_inv pb s" by (rule reach_cm_inv [OF assms(1)])
  then have run: "cm_running s" by (simp add: cm_inv_def)
  obtain st m where sp: "spec s (job_key j) = Some (st, m)" using flight_spec [OF inv assms(2)] .
  show ?thesis
  proof (cases "m = job_id j")
    case True
    with sp show ?thesis by (simp add: t cm_next_committed [OF run])
  next
    case False
    with sp show ?thesis by (simp add: t cm_next_committed [OF run] jobs_resend)
  qed
qed

theorem commit_outcome_witness:
  "conf (cm_next sample_proto 100 (On_Outcome (Committed demo_job)) demo_run) demo_key = Some (demo_status, 1) \<and>
   cm_answers (cm_next sample_proto 100 (On_Outcome (Committed demo_job)) demo_run) = [(7, Inr ())]"
  using commit_outcome [OF reach_demo _ refl, where j = demo_job and now = 100] by simp

text \<open>
  When a job in flight fails, only its own confirmation (if any) is answered, with
  \<open>Internal\<close>, and confirmed state does not change. If newer intent was recorded meanwhile
  it stays the speculative state and is sent as the next job: a stale failure never removes
  newer intent.
\<close>

theorem stale_failure_keeps_intent:
  assumes "reach cm_start (cm_step pb) s" "j \<in> set (cm_jobs s)"
    and "spec s (job_key j) = Some (st, m)" "m \<noteq> job_id j"
    and t: "t = cm_next pb now (On_Outcome (Failed j)) s"
  shows "spec t = spec s \<and> conf t = conf s \<and>
    cm_jobs t = remove1 j (cm_jobs s) @
      [\<lparr>job_id = m, job_key = job_key j, job_status = st, job_user_initiated = (pend s m \<noteq> None)\<rparr>] \<and>
    cm_answers t = cm_answers s @
      (case pend s (job_id j) of None \<Rightarrow> [] | Some cf \<Rightarrow> [(cf, Inl (Internal (job_key j)))])"
proof -
  have run: "cm_running s" using reach_cm_inv [OF assms(1)] by (simp add: cm_inv_def)
  show ?thesis
    using assms(3,4) by (simp add: t cm_next_failed [OF run assms(3)] jobs_resend)
qed

definition demo_run2 :: cmachine where
  "demo_run2 = cm_next sample_proto 101 (On_User (UserUpdate demo_key Activate ''op'' 8)) demo_run"

definition demo_status2 :: status where
  "demo_status2 = build_user_status sample_proto 101 demo_key Activate ''op''"

lemma demo_run2_eq: "demo_run2 = record_intent demo_key demo_status2 (Some 8) demo_run"
  by (simp add: demo_run2_def cm_next_user user_result_def latest_state_def
      get_latest_status_def demo_status2_def)
    (simp add: demo_status_def build_user_status_def status_state_def sample_proto_ok)

lemma demo2_simps [simp]:
  "cm_jobs demo_run2 = [demo_job]" "cm_running demo_run2" "counter demo_run2 = 3"
  "spec demo_run2 demo_key = Some (demo_status2, 2)" "pend demo_run2 1 = Some 7"
  "pend demo_run2 2 = Some 8" "conf demo_run2 demo_key = None" "cm_answers demo_run2 = []"
  by (simp_all add: demo_run2_eq jobs_record)

lemma reach_demo2: "reach cm_start (cm_step sample_proto) demo_run2"
  unfolding demo_run2_def by (rule reach_step [OF reach_demo], rule cm_stepI) simp_all

theorem stale_failure_keeps_intent_witness:
  "spec (cm_next sample_proto 102 (On_Outcome (Failed demo_job)) demo_run2) demo_key = Some (demo_status2, 2)"
  using stale_failure_keeps_intent [OF reach_demo2 _ _ _ refl, where j = demo_job and now = 102
    and st = demo_status2 and m = 2] by simp

text \<open>
  C18: when the current job of a user action fails, the user is answered \<open>Internal\<close>, the
  speculative state is rolled back to the last confirmed entry (or a default status if the
  alarm was never confirmed), so that the next policy decision sees the confirmed status
  again, and that entry is sent to the executor as a job nobody waits for.
\<close>

theorem failed_user_job_rolls_back:
  assumes "reach cm_start (cm_step pb) s" "j \<in> set (cm_jobs s)" "job_user_initiated j"
    and "spec s (job_key j) = Some (st, job_id j)"
    and t: "t = cm_next pb now (On_Outcome (Failed j)) s"
  shows "\<exists>cf rst rn. pend s (job_id j) = Some cf \<and>
    cm_answers t = cm_answers s @ [(cf, Inl (Internal (job_key j)))] \<and>
    rollback_entry pb s (job_key j) = (rst, rn) \<and>
    get_latest_status (cm_coord t) (job_key j) = Some rst \<and> conf t = conf s \<and>
    cm_jobs t = remove1 j (cm_jobs s) @
      [\<lparr>job_id = rn, job_key = job_key j, job_status = rst, job_user_initiated = False\<rparr>]"
proof -
  have inv: "cm_inv pb s" by (rule reach_cm_inv [OF assms(1)])
  then have run: "cm_running s" by (simp add: cm_inv_def)
  obtain cf where cf: "pend s (job_id j) = Some cf"
    using inv assms(2,3) by (auto simp: cm_inv_def inv_user_def)
  obtain rst rn where r: "rollback_entry pb s (job_key j) = (rst, rn)" by fastforce
  have "pend s rn = None"
    using r inv by (auto simp: rollback_entry_def cm_inv_def inv_user_def inv_ids_def
        DEFAULT_HYDRATED_ID_def split: option.splits)
  then show ?thesis
    using assms(3) cf r
    by (simp add: t cm_next_failed [OF run assms(4)] jobs_resend get_latest_status_def)
qed

theorem failed_user_job_rolls_back_witness:
  "cm_answers (cm_next sample_proto 102 (On_Outcome (Failed demo_job)) demo_run) = [(7, Inl (Internal demo_key))]"
  using failed_user_job_rolls_back [OF reach_demo _ _ _ refl, where j = demo_job and now = 102
    and st = demo_status] by auto

text \<open>
  A current automated job that fails while it is the only one in flight leaves the whole
  coordinator as it was and sends exactly the same job again: the coordinator retries a
  failing automated update without bound, one failure at a time.
\<close>

theorem automated_failure_retries:
  assumes "reach cm_start (cm_step pb) s" "cm_jobs s = [j]" "\<not> job_user_initiated j"
    and "spec s (job_key j) = Some (st, job_id j)"
  shows "cm_next pb now (On_Outcome (Failed j)) s = s"
proof -
  have inv: "cm_inv pb s" by (rule reach_cm_inv [OF assms(1)])
  then have run: "cm_running s" by (simp add: cm_inv_def)
  have pn: "pend s (job_id j) = None"
    using inv assms(2,3) by (simp add: cm_inv_def inv_user_def)
  then have rm: "hm_remove (pending_confirmations (cm_coord s)) (job_id j) = pending_confirmations (cm_coord s)"
    by (rule hm_remove_absent)
  have "st = job_status j"
    using flight_spec [OF inv, of j] assms(2,4) by auto
  then have "\<lparr>job_id = job_id j, job_key = job_key j, job_status = st, job_user_initiated = False\<rparr> = j"
    using assms(3) by simp
  then show ?thesis
    using assms pn rm by (simp add: cm_next_failed [OF run assms(4)] resend_def) (simp add: resolve_def)
qed

definition demo_alarm :: status where
  "demo_alarm = sample_status ''M:BEAM'' Alarmed Low Epics"

lemma demo_alarm_key [simp]: "key_from_status sample_proto demo_alarm = demo_key"
  by (simp add: key_from_status_def demo_alarm_def demo_key_def eval_key_text)

definition demo_auto :: cmachine where
  "demo_auto = cm_next sample_proto 100 (On_Automated (AutomatedUpdate demo_alarm)) (cm_init hm_new)"

lemma demo_auto_eq: "demo_auto = record_intent demo_key demo_alarm None (cm_init hm_new)"
  by (simp add: demo_auto_def cm_next_automated cm_init_def automated_result_def
      get_latest_status_def)

lemma demo_auto_simps [simp]:
  "cm_jobs demo_auto = [\<lparr>job_id = 1, job_key = demo_key, job_status = demo_alarm, job_user_initiated = False\<rparr>]"
  "spec demo_auto demo_key = Some (demo_alarm, 1)"
  by (simp_all add: demo_auto_eq jobs_record cm_init_def)

lemma reach_demo_auto: "reach cm_start (cm_step sample_proto) demo_auto"
proof (rule reach_step [OF reach_init])
  show "cm_start (cm_init hm_new)" by (auto simp: cm_start_def)
  show "cm_step sample_proto (cm_init hm_new) demo_auto"
    unfolding demo_auto_def by (rule cm_stepI) (simp_all add: cm_init_def)
qed

theorem automated_failure_retries_witness:
  "cm_next sample_proto 100 (On_Outcome (Failed \<lparr>job_id = 1, job_key = demo_key,
     job_status = demo_alarm, job_user_initiated = False\<rparr>)) demo_auto = demo_auto"
  by (rule automated_failure_retries [OF reach_demo_auto]) simp_all

section \<open>Convergence\<close>

fun drain :: "proto \<Rightarrow> i64 \<Rightarrow> nat \<Rightarrow> cmachine \<Rightarrow> cmachine" where
  "drain pb now 0 s = s"
| "drain pb now (Suc fuel) s =
     (case cm_jobs s of [] \<Rightarrow> s
      | j # _ \<Rightarrow> drain pb now fuel (cm_next pb now (On_Outcome (Committed j)) s))"

definition is_stale :: "cmachine \<Rightarrow> job \<Rightarrow> bool" where
  "is_stale s j \<longleftrightarrow> (case spec s (job_key j) of None \<Rightarrow> False | Some (_, m) \<Rightarrow> m \<noteq> job_id j)"

definition drain_fuel :: "cmachine \<Rightarrow> nat" where
  "drain_fuel s = length (cm_jobs s) + length (filter (is_stale s) (cm_jobs s))"

definition latest_entry :: "cmachine \<Rightarrow> alarm_key \<Rightarrow> (status \<times> u64) option" where
  "latest_entry s k = (case spec s k of Some e \<Rightarrow> Some e | None \<Rightarrow> conf s k)"

definition is_live :: "cmachine \<Rightarrow> u64 \<Rightarrow> bool" where
  "is_live s n \<longleftrightarrow> n \<in> job_id ` set (cm_jobs s) \<or> (\<exists>k st. spec s k = Some (st, n))"

lemma commit_step:
  assumes inv: "cm_inv pb s" and js: "cm_jobs s = j # js"
    and t: "t = cm_next pb now (On_Outcome (Committed j)) s"
  shows "drain_fuel t < drain_fuel s" and "latest_entry t = latest_entry s"
    and "is_live s n \<Longrightarrow> pend s n = Some cf \<Longrightarrow>
      (cf, Inr ()) \<in> set (cm_answers t) \<or> is_live t n \<and> pend t n = Some cf"
    and "set (cm_answers s) \<subseteq> set (cm_answers t)"
proof -
  let ?k = "job_key j"
  have run: "cm_running s" and d: "distinct (map job_key (cm_jobs s))"
    using inv by (simp_all add: cm_inv_def inv_flight_def)
  obtain st m where sp: "spec s ?k = Some (st, m)" and same: "m = job_id j \<longrightarrow> st = job_status j"
    using flight_spec [OF inv, of j] js by auto
  have "?k \<notin> job_key ` set js" using d js by simp
  then have other: "job_key j' \<noteq> ?k" if "j' \<in> set js" for j' using that by (metis image_eqI)
  show "set (cm_answers s) \<subseteq> set (cm_answers t)"
    by (auto simp: t cm_next_committed [OF run] sp)
  have spt: "spec t k = (if k = ?k \<and> m = job_id j then None else spec s k)" for k
    by (simp add: t cm_next_committed [OF run] sp)
  moreover have "conf t k = (if k = ?k then Some (job_status j, job_id j) else conf s k)" for k
    by (simp add: t cm_next_committed [OF run] sp)
  ultimately show "latest_entry t = latest_entry s"
    using same sp by (auto simp: fun_eq_iff latest_entry_def split: option.splits)
  from spt have st_eq: "is_stale t j' = is_stale s j'" if "j' \<in> set js" for j'
    using other [OF that] by (simp add: is_stale_def)
  then have fil: "filter (is_stale t) js = filter (is_stale s) js" by (auto intro: filter_cong)
  show "drain_fuel t < drain_fuel s"
  proof (cases "m = job_id j")
    case True
    then have "cm_jobs t = js" by (simp add: t cm_next_committed [OF run] sp js)
    then show ?thesis by (simp add: drain_fuel_def fil js)
  next
    case False
    then obtain u where jt: "cm_jobs t = js @ [\<lparr>job_id = m, job_key = ?k, job_status = st, job_user_initiated = u\<rparr>]"
      by (simp add: t cm_next_committed [OF run] sp js jobs_resend)
    have "is_stale s j" using False sp by (simp add: is_stale_def)
    moreover have "\<not> is_stale t \<lparr>job_id = m, job_key = ?k, job_status = st, job_user_initiated = u\<rparr>"
      using False sp by (simp add: is_stale_def spt)
    ultimately show ?thesis by (simp add: drain_fuel_def fil js jt)
  qed
  show "(cf, Inr ()) \<in> set (cm_answers t) \<or> is_live t n \<and> pend t n = Some cf"
    if "is_live s n" "pend s n = Some cf"
  proof (cases "n = job_id j")
    case True
    with that(2) show ?thesis by (simp add: t cm_next_committed [OF run] sp)
  next
    case False
    then have pn: "pend t n = Some cf" using that(2) by (simp add: t cm_next_committed [OF run] sp)
    have "set js \<subseteq> set (cm_jobs t)"
      by (auto simp: t cm_next_committed [OF run] sp js jobs_resend)
    moreover have "spec t k = Some (st', n)" if "spec s k = Some (st', n)" for k st'
      using that False sp by (auto simp: spt)
    ultimately have "is_live t n"
      using that(1) False unfolding is_live_def js by (simp add: image_iff) blast
    with pn show ?thesis by simp
  qed
qed

lemma drain_inv:
  assumes "cm_inv pb s" "drain_fuel s \<le> fuel" "t = drain pb now fuel s"
  shows "cm_inv pb t \<and> cm_jobs t = [] \<and> latest_entry t = latest_entry s \<and>
    set (cm_answers s) \<subseteq> set (cm_answers t) \<and>
    (\<forall>n cf. is_live s n \<and> pend s n = Some cf \<longrightarrow> (cf, Inr ()) \<in> set (cm_answers t))"
  using assms
proof (induction fuel arbitrary: s)
  case 0
  then have js: "cm_jobs s = []" by (simp add: drain_fuel_def)
  moreover have "\<not> is_live s n" for n
    using 0(1) js by (auto simp: is_live_def cm_inv_def inv_flight_def)
  ultimately show ?case using 0 by simp
next
  case (Suc fuel)
  show ?case
  proof (cases "cm_jobs s")
    case Nil
    moreover have "\<not> is_live s n" for n
      using Suc.prems(1) Nil by (auto simp: is_live_def cm_inv_def inv_flight_def)
    ultimately show ?thesis using Suc.prems by simp
  next
    case (Cons j js)
    let ?s = "cm_next pb now (On_Outcome (Committed j)) s"
    note st = commit_step [OF Suc.prems(1) Cons refl, where now = now]
    have "cm_inv pb ?s" using Suc.prems(1) Cons by (simp add: committed_inv)
    moreover have "drain_fuel ?s \<le> fuel" using st(1) Suc.prems(2) by simp
    moreover have "t = drain pb now fuel ?s" using Suc.prems(3) Cons by simp
    ultimately have IH: "cm_inv pb t \<and> cm_jobs t = [] \<and> latest_entry t = latest_entry ?s \<and>
      set (cm_answers ?s) \<subseteq> set (cm_answers t) \<and>
      (\<forall>n cf. is_live ?s n \<and> pend ?s n = Some cf \<longrightarrow> (cf, Inr ()) \<in> set (cm_answers t))"
      by (rule Suc.IH)
    have "(cf, Inr ()) \<in> set (cm_answers t)" if "is_live s n" "pend s n = Some cf" for n cf
      using st(3) [OF that] IH by blast
    with IH st(2,4) show ?thesis by auto
  qed
qed

text \<open>
  C15: convergence. From any reachable state, once the executor commits every job it is given
  and no new input arrives, the coordinator becomes quiet after at most as many commits as
  there are jobs in flight plus jobs that newer intent has overtaken: nothing is in flight,
  no speculative state is left, each alarm's confirmed entry is what was its latest entry
  (speculative if there was one) at the start, and every confirmation whose id was in flight
  or current is answered \<open>Ok\<close>.
\<close>

theorem coordinator_converges:
  assumes "reach cm_start (cm_step pb) s" and t: "t = drain pb now (drain_fuel s) s"
  shows "cm_jobs t = [] \<and> (\<forall>k. spec t k = None) \<and> (\<forall>k. conf t k = latest_entry s k) \<and>
    (\<forall>n cf. is_live s n \<and> pend s n = Some cf \<longrightarrow> (cf, Inr ()) \<in> set (cm_answers t))"
proof -
  note D = drain_inv [OF reach_cm_inv [OF assms(1)] order_refl t]
  then have sp: "spec t k = None" for k by (auto simp: cm_inv_def inv_flight_def)
  with D have "conf t k = latest_entry s k" for k
    by (metis latest_entry_def option.simps(4))
  with D sp show ?thesis by blast
qed

theorem coordinator_converges_witness:
  "conf (drain sample_proto 200 (drain_fuel demo_run2) demo_run2) demo_key = Some (demo_status2, 2) \<and>
   (8, Inr ()) \<in> set (cm_answers (drain sample_proto 200 (drain_fuel demo_run2) demo_run2))"
proof -
  have "is_live demo_run2 2"
    unfolding is_live_def using demo2_simps(4) by blast
  moreover have "latest_entry demo_run2 demo_key = Some (demo_status2, 2)"
    by (simp add: latest_entry_def)
  ultimately show ?thesis
    using coordinator_converges [OF reach_demo2 refl, of 200] demo2_simps(6) by metis
qed

section \<open>Confirmations that are never answered\<close>

definition stranded :: "cmachine \<Rightarrow> u64 \<Rightarrow> confirmation \<Rightarrow> bool" where
  "stranded s n cf \<longleftrightarrow> pend s n = Some cf \<and> (\<forall>k st. \<not> entry s k n st)"

lemma entry_default:
  assumes "cm_inv pb s" "j \<in> set (cm_jobs s)" "ev = On_Outcome (Committed j) \<or> ev = On_Outcome (Failed j)"
    and "entry (cm_next pb now ev s) k n st"
  shows "entry s k n st \<or> n = 0"
proof -
  have d: "distinct (map job_key (cm_jobs s))" and run: "cm_running s"
    using assms(1) by (simp_all add: cm_inv_def inv_flight_def)
  note rm = flight_remove(1) [OF d assms(2)]
  obtain st' m where sp: "spec s (job_key j) = Some (st', m)" using flight_spec [OF assms(1,2)] .
  have own: "entry s (job_key j) (job_id j) (job_status j)" "entry s (job_key j) m st'"
    using assms(2) sp by (auto simp: entry_def)
  obtain rst rn where r: "rollback_entry pb s (job_key j) = (rst, rn)" by fastforce
  then have rb: "entry s (job_key j) rn rst \<or> rn = 0"
    by (auto simp: rollback_entry_def entry_def DEFAULT_HYDRATED_ID_def split: option.splits)
  from assms(3) show ?thesis
  proof
    assume "ev = On_Outcome (Committed j)"
    with assms(4) own sp rm show ?thesis
      by (auto simp: cm_next_committed [OF run] entry_def jobs_resend split: if_splits)
  next
    assume "ev = On_Outcome (Failed j)"
    with assms(4) own sp rm rb r show ?thesis
      by (auto simp: cm_next_failed [OF run sp] entry_def jobs_resend split: if_splits)
  qed
qed

lemma stranded_record:
  assumes "cm_inv pb s" "stranded s n cf"
  shows "stranded (record_intent k st c s) n cf"
proof -
  have "n < counter s" using assms by (auto simp: stranded_def cm_inv_def inv_ids_def)
  then have "n \<noteq> counter s" by simp
  with assms(2) show ?thesis
    by (auto simp: stranded_def dest!: entry_record split: option.splits)
qed

lemma stranded_step:
  assumes inv: "cm_inv pb s" and str: "stranded s n cf" and en: "cm_enabled ev s"
  shows "stranded (cm_next pb now ev s) n cf"
proof -
  have run: "cm_running s" using inv by (simp add: cm_inv_def)
  have n: "n \<noteq> 0" using inv str by (auto simp: stranded_def cm_inv_def inv_ids_def)
  have [simp]: "stranded (answer_with as s) n cf = stranded s n cf" for as
    by (simp add: stranded_def entry_def)
  have rec: "stranded (record_intent k st c s) n cf" for k st c
    by (rule stranded_record [OF inv str])
  have fin: "stranded (cm_next pb now ev s) n cf"
    if ev: "ev = On_Outcome (Committed j) \<or> ev = On_Outcome (Failed j)" for j
  proof -
    have j: "j \<in> set (cm_jobs s)" using ev en by auto
    then have "n \<noteq> job_id j" using str by (auto simp: stranded_def entry_def)
    moreover obtain st' m where sp: "spec s (job_key j) = Some (st', m)" using flight_spec [OF inv j] .
    ultimately have "pend (cm_next pb now ev s) n = pend s n"
      using ev by (auto simp: cm_next_committed [OF run] cm_next_failed [OF run sp])
    moreover have "\<not> entry (cm_next pb now ev s) k n st" for k st
      using entry_default [OF inv j ev, of now k n st] str n by (auto simp: stranded_def)
    ultimately show ?thesis using str by (simp add: stranded_def)
  qed
  note turn = cm_next_automated [OF run] cm_next_user [OF run] cm_next_snapshot [OF run] rec str
    automated_result_def user_result_def Let_def
  have msg: "stranded (cm_next pb now (On_User m) s) n cf" "stranded (cm_next pb now (On_Automated m) s) n cf"
    for m by (cases m; simp add: turn)+
  have out: "stranded (cm_next pb now (On_Outcome jo) s) n cf" if "ev = On_Outcome jo" for jo
    using fin that by (cases jo) (simp_all add: turn)
  show ?thesis
    using en msg out by (cases ev) (simp_all add: turn)
qed

lemma stranded_forever:
  "(cm_step pb)\<^sup>*\<^sup>* s t \<Longrightarrow> cm_inv pb s \<Longrightarrow> stranded s n cf \<Longrightarrow> cm_inv pb t \<and> stranded t n cf"
  by (induction rule: rtranclp_induct)
    (auto elim!: cm_stepE intro: stranded_step cm_next_inv)

text \<open>
  A user command that was accepted while another job for its alarm was in flight, and that
  is overtaken by a further accepted user command before its own job was sent, is never
  answered: in every state the coordinator can reach from then on its confirmation sender
  still sits in \<open>pending_confirmations\<close>, whatever the executor answers.
\<close>

theorem superseded_confirmation_stranded:
  assumes "reach cm_start (cm_step pb) s" and c: "counter s \<noteq> - 1"
    and "spec s k = Some (st, n)" "pend s n = Some cf" "\<forall>j\<in>set (cm_jobs s). job_id j \<noteq> n"
    and "user_action_allowed (latest_state pb s k) (latest_wake s k) action"
    and "(cm_step pb)\<^sup>*\<^sup>* (cm_next pb now (On_User (UserUpdate k action user cf')) s) u"
  shows "pend u n = Some cf"
proof -
  have inv: "cm_inv pb s" by (rule reach_cm_inv [OF assms(1)])
  then have run: "cm_running s" by (simp add: cm_inv_def)
  let ?st = "build_user_status pb now k action user"
  let ?t = "record_intent k ?st (Some cf') s"
  have t: "cm_next pb now (On_User (UserUpdate k action user cf')) s = ?t"
    using assms(6) by (simp add: cm_next_user [OF run] user_result_def)
  have n: "n < counter s" "n \<noteq> 0" using inv assms(4) by (auto simp: cm_inv_def inv_ids_def)
  have one: "k' = k" if "entry s k' n st'" for k' st'
    using inv that assms(3) n(2) unfolding cm_inv_def inv_entry_def by (metis entry_def)
  have noconf: "conf s k' \<noteq> Some (st', n)" for k' st'
    using inv assms(4) by (auto simp: cm_inv_def inv_user_def)
  have "\<not> entry ?t k' n st'" for k' st'
  proof
    assume e: "entry ?t k' n st'"
    with n(1) have "entry s k' n st'" by (auto dest!: entry_record)
    from one [OF this] have "k' = k" .
    with e n(1) noconf assms(3,5) show False
      by (auto simp: entry_def jobs_record split: if_splits)
  qed
  moreover have "pend ?t n = Some cf" using n(1) assms(4) by auto
  ultimately have "stranded ?t n cf" by (simp add: stranded_def)
  with stranded_forever [of pb ?t u n cf] record_intent_inv [OF inv c] assms(7)
  show ?thesis by (simp add: t stranded_def)
qed

theorem superseded_confirmation_stranded_witness:
  "pend (cm_next sample_proto 103 (On_Outcome (Committed demo_job))
     (cm_next sample_proto 102 (On_User (UserUpdate demo_key (Bypass None) ''op'' 9)) demo_run2)) 2
   = Some 8"
proof -
  let ?t = "cm_next sample_proto 102 (On_User (UserUpdate demo_key (Bypass None) ''op'' 9)) demo_run2"
  have ok: "user_action_allowed (latest_state sample_proto demo_run2 demo_key)
      (latest_wake demo_run2 demo_key) (Bypass None)"
    by (simp add: latest_state_def latest_wake_def get_latest_status_def demo_status2_def
        build_user_status_def status_state_def sample_proto_ok)
  then have t: "?t = record_intent demo_key (build_user_status sample_proto 102 demo_key (Bypass None) ''op'')
      (Some 9) demo_run2"
    by (simp add: cm_next_user user_result_def)
  have "cm_step sample_proto ?t (cm_next sample_proto 103 (On_Outcome (Committed demo_job)) ?t)"
    by (rule cm_stepI) (simp_all add: t jobs_record)
  then have "(cm_step sample_proto)\<^sup>*\<^sup>* ?t (cm_next sample_proto 103 (On_Outcome (Committed demo_job)) ?t)"
    by (rule r_into_rtranclp)
  from superseded_confirmation_stranded [OF reach_demo2 _ _ _ _ ok this, of demo_status2 2 8]
  show ?thesis by simp
qed

lemma inv_spec_wf: "cm_inv pb s \<Longrightarrow> hm_wf (speculative_state (cm_coord s))"
  by (simp add: cm_inv_def inv_maps_def)

lemma find_by_id:
  "(\<lambda>(key, status, mapped_id). mapped_id = n) = (\<lambda>e :: alarm_key \<times> status \<times> u64. snd (snd e) = n)"
  by (auto simp: fun_eq_iff)

lemma set_sent_answers_concat:
  "set (sent_answers (List.concat (map f xs))) = (\<Union>x\<in>set xs. set (sent_answers (f x)))"
  by (induction xs) auto

text \<open>What one pending confirmation is sent on shutdown: an id in use belongs to one alarm.\<close>

lemma failed_confirmation:
  assumes inv: "cm_inv pb s" and pend: "pend s n = Some cf"
  shows "set (sent_answers (case find (\<lambda>(key, status, mapped_id). mapped_id = n) (speculative_state (cm_coord s)) of
        Some (key, _) \<Rightarrow> [Confirm cf (Inl (Internal key))] | None \<Rightarrow> []))
      = {(cf, Inl (Internal k)) | k st. spec s k = Some (st, n)}"
proof (cases "find (\<lambda>e. snd (snd e) = n) (speculative_state (cm_coord s))")
  case None
  then have "spec s k \<noteq> Some (st, n)" for k st
    by (auto simp: find_None_iff hm_get_Some_iff [OF inv_spec_wf [OF inv]])
  with None show ?thesis by (simp add: find_by_id)
next
  case (Some e)
  have "n \<noteq> 0" using inv pend by (auto simp: cm_inv_def inv_ids_def)
  then have one: "k' = k" if "spec s k = Some (st, n)" "spec s k' = Some (st', n)" for k k' st st'
    using inv that unfolding cm_inv_def inv_entry_def by (metis entry_def)
  have "spec s (fst e) = Some (fst (snd e), n)"
    using Some by (auto simp: find_Some_iff hm_get_Some_iff [OF inv_spec_wf [OF inv]])
  then have "spec s k = Some (st, n) \<longleftrightarrow> k = fst e \<and> st = fst (snd e)" for k st
    using one by fastforce
  with Some show ?thesis by (cases e) (simp add: find_by_id)
qed

text \<open>
  C33: on shutdown exactly the pending confirmations whose id is the current speculative id of
  some alarm are answered (with \<open>Internal\<close> for that alarm); every other pending
  confirmation is dropped without an answer, and the pending map is emptied.
\<close>

theorem shutdown_answers:
  assumes "reach cm_start (cm_step pb) s" "fail_all_confirmations (cm_coord s) = (c', es)"
  shows "set (sent_answers es) = {(cf, Inl (Internal k)) | cf k n st.
      pend s n = Some cf \<and> spec s k = Some (st, n)} \<and> pending_confirmations c' = hm_new"
proof -
  let ?pc = "pending_confirmations (cm_coord s)"
  have inv: "cm_inv pb s" by (rule reach_cm_inv [OF assms(1)])
  then have wf: "hm_wf ?pc" by (simp add: cm_inv_def inv_maps_def)
  let ?fail = "\<lambda>(n, cf). case find (\<lambda>(key, status, mapped_id). mapped_id = n) (speculative_state (cm_coord s)) of
      Some (key, _) \<Rightarrow> [Confirm cf (Inl (Internal key))] | None \<Rightarrow> []"
  have "es = List.concat (map ?fail ?pc)" using assms(2) by (simp add: fail_all_confirmations_def)
  then have "set (sent_answers es) = (\<Union>x\<in>set ?pc. set (sent_answers (?fail x)))"
    by (simp only: set_sent_answers_concat)
  also have "\<dots> = (\<Union>(n, cf)\<in>set ?pc. {(cf, Inl (Internal k)) | k st. spec s k = Some (st, n)})"
  proof (rule SUP_cong [OF refl])
    fix x assume "x \<in> set ?pc"
    moreover obtain n cf where x: "x = (n, cf)" by fastforce
    ultimately have "pend s n = Some cf" by (simp add: hm_get_Some_iff [OF wf])
    from failed_confirmation [OF inv this] x
    show "set (sent_answers (?fail x)) = (case x of (n, cf) \<Rightarrow> {(cf, Inl (Internal k)) | k st. spec s k = Some (st, n)})"
      by simp
  qed
  also have "\<dots> = {(cf, Inl (Internal k)) | cf k n st. pend s n = Some cf \<and> spec s k = Some (st, n)}"
    by (auto simp: hm_get_Some_iff [OF wf])
  finally show ?thesis using assms(2) by (auto simp: fail_all_confirmations_def)
qed

theorem shutdown_answers_witness:
  "(7, Inl (Internal demo_key)) \<notin> set (sent_answers (snd (fail_all_confirmations (cm_coord demo_run2))))"
proof -
  obtain c' es where e: "fail_all_confirmations (cm_coord demo_run2) = (c', es)" by fastforce
  have "pend demo_run2 n = Some 7 \<longrightarrow> n = 1" for n
    by (simp add: demo_run2_eq demo_run_eq cm_init_def)
  with shutdown_answers [OF reach_demo2 e] e show ?thesis by (auto simp: demo_run2_eq demo_run_eq cm_init_def)
qed

section \<open>Bypass and wake\<close>

lemma key_from_wake_status:
  assumes "proto_ok pb" "normal_device (key_device k)"
  shows "key_from_status pb (wake_status pb now k) = k"
    and "status_state pb (wake_status pb now k) = Unbypassed"
  using assms by (simp_all add: key_from_status_def wake_status_def normal_device_def
      status_source_def status_state_def)

lemma bypassed_wake:
  assumes run: "cm_running s" and pb: "proto_ok pb" "normal_device (key_device k)"
    and st: "get_latest_status (cm_coord s) k = Some st" "status_state pb st = Bypassed"
  shows "cm_next pb now (On_Outcome (Wake k)) s = record_intent k (wake_status pb now k) None s"
  using st by (simp add: cm_next_automated [OF run] automated_result_def
      key_from_wake_status [OF pb] should_publish_Some)

text \<open>
  A wake of a bypassed alarm always becomes the alarm's latest intent, as \<open>Unbypassed\<close>
  without a wake time, under a fresh id. The wake time of the bypass is not looked at: a timer
  that fired for an earlier snooze also ends a bypass that was requested after it.
\<close>

theorem wake_unbypasses:
  assumes "reach cm_start (cm_step pb) s" "proto_ok pb" "normal_device (key_device k)"
    and "get_latest_status (cm_coord s) k = Some st" "status_state pb st = Bypassed"
    and t: "t = cm_next pb now (On_Outcome (Wake k)) s"
  shows "\<exists>ws. spec t k = Some (ws, counter s) \<and> status_state pb ws = Unbypassed \<and> st_wake ws = None \<and>
    conf t = conf s \<and> (spec s k = None \<longrightarrow> (\<exists>j\<in>set (cm_jobs t). job_key j = k \<and> job_status j = ws))"
proof -
  have run: "cm_running s" using reach_cm_inv [OF assms(1)] by (simp add: cm_inv_def)
  have "t = record_intent k (wake_status pb now k) None s"
    unfolding t by (rule bypassed_wake [OF run assms(2-5)])
  then show ?thesis
    using key_from_wake_status(2) [OF assms(2,3)] by (auto simp: jobs_record)
      (simp add: wake_status_def status_default_def)
qed

theorem wake_unbypasses_witness:
  "\<exists>ws. spec (cm_next sample_proto 500 (On_Outcome (Wake demo_key)) demo_run) demo_key = Some (ws, 2) \<and>
     status_state sample_proto ws = Unbypassed"
proof -
  have "get_latest_status (cm_coord demo_run) demo_key = Some demo_status"
    by (simp add: get_latest_status_def)
  moreover have "status_state sample_proto demo_status = Bypassed"
    by (simp add: demo_status_def build_user_status_def status_state_def sample_proto_ok)
  moreover have "normal_device (key_device demo_key)"
    by (simp add: demo_key_def normal_device_def eval_key_text)
  ultimately show ?thesis
    using wake_unbypasses [OF reach_demo sample_proto_ok _ _ _ refl, of demo_key demo_status 500]
    by auto
qed

text \<open>
  While the latest known status of an EPICS alarm is bypassed, no sequence of automated
  EPICS updates for it, other than \<open>Unbypassed\<close> ones, changes anything in the coordinator:
  no job is sent, no id allocated and no cache touched.
\<close>

theorem epics_bypass_suppresses:
  assumes "reach cm_start (cm_step pb) s"
    and "get_latest_status (cm_coord s) k = Some st" "status_state pb st = Bypassed"
    and "\<forall>u\<in>set us. key_from_status pb u = k \<and> status_source pb u = Epics \<and> status_state pb u \<noteq> Unbypassed"
  shows "fold (\<lambda>u. cm_next pb now (On_Automated (AutomatedUpdate u))) us s = s"
  using assms(4)
proof (induction us)
  case Nil
  show ?case by simp
next
  case (Cons u us)
  have run: "cm_running s" using reach_cm_inv [OF assms(1)] by (simp add: cm_inv_def)
  have "cm_next pb now (On_Automated (AutomatedUpdate u)) s = s"
    using Cons.prems assms(2,3)
    by (simp add: cm_next_automated [OF run] automated_result_def should_publish_Some)
  with Cons show ?case by simp
qed

theorem epics_bypass_suppresses_witness:
  "fold (\<lambda>u. cm_next sample_proto 300 (On_Automated (AutomatedUpdate u)))
     [demo_alarm, demo_alarm] demo_run = demo_run"
proof (rule epics_bypass_suppresses [OF reach_demo, of demo_key demo_status])
  show "get_latest_status (cm_coord demo_run) demo_key = Some demo_status"
    by (simp add: get_latest_status_def)
  show "status_state sample_proto demo_status = Bypassed"
    by (simp add: demo_status_def build_user_status_def status_state_def sample_proto_ok)
  show "\<forall>u\<in>set [demo_alarm, demo_alarm]. key_from_status sample_proto u = demo_key \<and>
      status_source sample_proto u = Epics \<and> status_state sample_proto u \<noteq> Unbypassed"
    by simp (simp add: demo_alarm_def)
qed

section \<open>Priority of the event loop\<close>

fun select_run :: "nat \<Rightarrow> coord_ports \<Rightarrow> coord_event list" where
  "select_run 0 p = []"
| "select_run (Suc n) p = (let (ev, p') = coord_select p in ev # select_run n p')"

lemma coord_select_cases:
  "coord_select p = (case rx_queue (outcome_rx p) of
     x # xs \<Rightarrow> (On_Outcome x, p\<lparr>outcome_rx := (outcome_rx p)\<lparr>rx_queue := xs\<rparr>\<rparr>)
   | [] \<Rightarrow> (case rx_queue (user_rx p) of
       x # xs \<Rightarrow> (On_User x, p\<lparr>user_rx := (user_rx p)\<lparr>rx_queue := xs\<rparr>\<rparr>)
     | [] \<Rightarrow> (case rx_queue (automated_rx p) of
         x # xs \<Rightarrow> (On_Automated x, p\<lparr>automated_rx := (automated_rx p)\<lparr>rx_queue := xs\<rparr>\<rparr>)
       | [] \<Rightarrow> (if rx_open (outcome_rx p) \<or> rx_open (user_rx p) \<or> rx_open (automated_rx p)
               then Blocked else All_Dropped, p))))"
  by (auto simp: coord_select_def poll_recv_def split: list.splits)

text \<open>
  With the messages queued on its three channels and no further arrivals, the event loop
  handles all job outcomes first, then all user messages, then all automated updates, each
  channel in its own order; after them it ends if every sender is gone and waits otherwise.
\<close>

theorem select_priority:
  "select_run (length (rx_queue (outcome_rx p)) + length (rx_queue (user_rx p)) +
       length (rx_queue (automated_rx p)) + 1) p =
     map On_Outcome (rx_queue (outcome_rx p)) @ map On_User (rx_queue (user_rx p)) @
     map On_Automated (rx_queue (automated_rx p)) @
     [if rx_open (outcome_rx p) \<or> rx_open (user_rx p) \<or> rx_open (automated_rx p)
      then Blocked else All_Dropped]"
proof (induction "length (rx_queue (outcome_rx p)) + length (rx_queue (user_rx p)) +
       length (rx_queue (automated_rx p))" arbitrary: p)
  case 0
  then show ?case by (simp add: coord_select_cases)
next
  case (Suc n)
  have step: "select_run (Suc n + 1) p = fst (coord_select p) # select_run (n + 1) (snd (coord_select p))"
    by (simp add: case_prod_beta)
  show ?case
  proof (cases "rx_queue (outcome_rx p)")
    case (Cons x xs)
    let ?p = "p\<lparr>outcome_rx := (outcome_rx p)\<lparr>rx_queue := xs\<rparr>\<rparr>"
    from Suc(2) Cons Suc(1) [of ?p] step show ?thesis by (simp add: coord_select_cases)
  next
    case o: Nil
    show ?thesis
    proof (cases "rx_queue (user_rx p)")
      case (Cons x xs)
      let ?p = "p\<lparr>user_rx := (user_rx p)\<lparr>rx_queue := xs\<rparr>\<rparr>"
      from Suc(2) o Cons Suc(1) [of ?p] step show ?thesis by (simp add: coord_select_cases)
    next
      case u: Nil
      with Suc(2) o obtain x xs where a: "rx_queue (automated_rx p) = x # xs"
        by (cases "rx_queue (automated_rx p)") auto
      let ?p = "p\<lparr>automated_rx := (automated_rx p)\<lparr>rx_queue := xs\<rparr>\<rparr>"
      from Suc(2) o u a Suc(1) [of ?p] step show ?thesis by (simp add: coord_select_cases)
    qed
  qed
qed

end
