(* ===== verification/Effect_Worker.thy ===== *)
theory Effect_Worker
  imports Alarm_Model
begin

text \<open>
  The contract the workflow handler has with an effect worker: a worker never panics, and the
  keys of the commands it takes are neither lost nor invented: each is still held by the
  worker or has been answered. The snooze scheduler and the publish engine are the two
  instances; the lemmas about whole runs are proved once, here.
\<close>

fun run_turns :: "('ev \<Rightarrow> 's \<Rightarrow> ('s \<times> 'out list) option) \<Rightarrow> 'ev list \<Rightarrow> 's \<Rightarrow> ('s \<times> 'out list) option" where
  "run_turns turn [] s = Some (s, [])"
| "run_turns turn (ev # evs) s =
     (case turn ev s of
        None \<Rightarrow> None
      | Some (s1, outs) \<Rightarrow> map_option (\<lambda>(s2, outs'). (s2, outs @ outs')) (run_turns turn evs s1))"

definition keys_of :: "('out \<Rightarrow> alarm_key list) \<Rightarrow> 'out list \<Rightarrow> alarm_key multiset" where
  "keys_of f outs = mset (List.concat (map f outs))"

lemma keys_of_simps [simp]:
  "keys_of f [] = {#}"
  "keys_of f (x # xs) = mset (f x) + keys_of f xs"
  "keys_of f (xs @ ys) = keys_of f xs + keys_of f ys"
  by (simp_all add: keys_of_def)

locale effect_worker =
  fixes turn :: "'ev \<Rightarrow> 's \<Rightarrow> ('s \<times> 'out list) option"
    and ok :: "'s \<Rightarrow> bool"
    and taken :: "'ev \<Rightarrow> alarm_key list"
    and held :: "'s \<Rightarrow> alarm_key multiset"
    and answered :: "'out \<Rightarrow> alarm_key list"
  assumes turn_total: "ok s \<Longrightarrow> \<exists>s' outs. turn ev s = Some (s', outs)"
    and turn_ok: "ok s \<Longrightarrow> turn ev s = Some (s', outs) \<Longrightarrow> ok s'"
    and turn_conserves: "ok s \<Longrightarrow> turn ev s = Some (s', outs) \<Longrightarrow>
      mset (taken ev) + held s = held s' + keys_of answered outs"
begin

lemma run_total:
  "ok s \<Longrightarrow> \<exists>s' outs. run_turns turn evs s = Some (s', outs) \<and> ok s' \<and>
     keys_of taken evs + held s = held s' + keys_of answered outs"
proof (induction evs arbitrary: s)
  case Nil
  then show ?case by simp
next
  case (Cons ev evs)
  obtain s1 outs where t: "turn ev s = Some (s1, outs)" using turn_total [OF Cons.prems] by blast
  from Cons.IH [OF turn_ok [OF Cons.prems t]] obtain s2 outs2 where
    r: "run_turns turn evs s1 = Some (s2, outs2)" "ok s2"
       "keys_of taken evs + held s1 = held s2 + keys_of answered outs2" by blast
  have "keys_of taken (ev # evs) + held s = keys_of taken evs + (mset (taken ev) + held s)"
    by (simp add: ac_simps)
  also have "\<dots> = (keys_of taken evs + held s1) + keys_of answered outs"
    unfolding turn_conserves [OF Cons.prems t] by (simp add: ac_simps)
  also have "\<dots> = held s2 + keys_of answered (outs @ outs2)"
    unfolding r(3) by (simp add: ac_simps)
  finally show ?case using t r(1,2) by simp
qed

lemma idle_answered:
  "ok s \<Longrightarrow> held s = {#} \<Longrightarrow> run_turns turn evs s = Some (s', outs) \<Longrightarrow> held s' = {#} \<Longrightarrow>
     keys_of answered outs = keys_of taken evs"
  using run_total [of s evs] by auto

end

end
