(* ===== verification/Alarm_Metrics.thy ===== *)
theory Alarm_Metrics
  imports Alarm_Prelude
begin

text \<open>
  In-process metrics (\<open>src/metrics.rs\<close>) and the queue capacities they echo
  (\<open>QueueCapacityConfig\<close> of \<open>src/runtime.rs\<close>). Counters are 64-bit words because
  \<open>fetch_add\<close> and \<open>fetch_sub\<close> wrap; a \<open>Duration\<close> is a number of nanoseconds.
  The other components emit \<open>metric_event\<close> values, one constructor per
  \<open>record_*\<close> method, and \<open>record_event\<close> is what the method does to the shared
  state; \<open>None\<close> is a panic. The lemmas show that a histogram accounts for every sample
  exactly once and that the gauges agree with the counters.
\<close>

type_synonym usize = "64 word"
type_synonym duration = nat

record queue_capacity_config =
  cap_automated :: usize
  cap_user :: usize
  cap_job :: usize
  cap_publish :: usize
  cap_snooze :: usize

text \<open>The copy of the capacities that the metrics keep.\<close>

record queue_capacity_metrics =
  qm_automated :: usize
  qm_user :: usize
  qm_job :: usize
  qm_publish :: usize
  qm_snooze :: usize

definition capacity_metrics_from :: "queue_capacity_config \<Rightarrow> queue_capacity_metrics" where
  "capacity_metrics_from value = \<lparr>qm_automated = cap_automated value, qm_user = cap_user value,
     qm_job = cap_job value, qm_publish = cap_publish value, qm_snooze = cap_snooze value\<rparr>"

section \<open>Histograms\<close>

record histogram =
  buckets_ms :: "u64 list"
  counts :: "u64 list"
  overflow :: u64
  samples :: u64
  total_ms :: u64

definition confirmation_latency_buckets_ms :: "u64 list" where
  "confirmation_latency_buckets_ms = [10, 50, 100, 250, 500, 1000, 2000]"

definition publish_latency_buckets_ms :: "u64 list" where
  "publish_latency_buckets_ms = [5, 10, 25, 50, 100, 250, 500, 1000]"

definition overload_duration_buckets_ms :: "u64 list" where
  "overload_duration_buckets_ms = [10, 50, 100, 250, 500, 1000, 5000]"

definition histogram_new :: "u64 list \<Rightarrow> histogram" where
  "histogram_new bs = \<lparr>buckets_ms = bs, counts = replicate (length bs) 0, overflow = 0,
     samples = 0, total_ms = 0\<rparr>"

text \<open>\<open>Iterator::position\<close>.\<close>

fun position :: "('a \<Rightarrow> bool) \<Rightarrow> 'a list \<Rightarrow> nat option" where
  "position P [] = None"
| "position P (x # xs) = (if P x then Some 0 else map_option Suc (position P xs))"

definition duration_millis :: "duration \<Rightarrow> u64" where
  "duration_millis d = of_nat (min (d div 1000000) (2 ^ 64 - 1))"

definition observe :: "histogram \<Rightarrow> duration \<Rightarrow> histogram option" where
  "observe h d =
     (let millis = duration_millis d;
          h1 = h\<lparr>samples := samples h + 1, total_ms := sat_add (total_ms h) millis\<rparr> in
      case position (\<lambda>bucket. millis \<le> bucket) (buckets_ms h) of
        Some index \<Rightarrow>
          if index < length (counts h)
          then Some (h1\<lparr>counts := (counts h)[index := counts h ! index + 1]\<rparr>)
          else None
      | None \<Rightarrow> Some (h1\<lparr>overflow := overflow h + 1\<rparr>))"

record histogram_snapshot =
  hs_buckets_ms :: "u64 list"
  hs_counts :: "u64 list"
  hs_overflow :: u64
  hs_samples :: u64
  hs_total_ms :: u64

definition histogram_snapshot_of :: "histogram \<Rightarrow> histogram_snapshot" where
  "histogram_snapshot_of h = \<lparr>hs_buckets_ms = buckets_ms h, hs_counts = counts h,
     hs_overflow = overflow h, hs_samples = samples h, hs_total_ms = total_ms h\<rparr>"

subsection \<open>Every sample lands in exactly one place\<close>

definition histogram_wf :: "histogram \<Rightarrow> bool" where
  "histogram_wf h \<longleftrightarrow> length (counts h) = length (buckets_ms h) \<and>
     sum_list (counts h) + overflow h = samples h"

lemma position_Some:
  "position P xs = Some i \<Longrightarrow> i < length xs \<and> P (xs ! i) \<and> (\<forall>j<i. \<not> P (xs ! j))"
proof (induction xs arbitrary: i)
  case Nil
  then show ?case by simp
next
  case (Cons x xs)
  then show ?case by (auto split: if_splits simp: less_Suc_eq_0_disj)
qed

lemma position_None: "position P xs = None \<longleftrightarrow> (\<forall>x\<in>set xs. \<not> P x)"
  by (induction xs) auto

lemma sum_list_update_word:
  "i < length xs \<Longrightarrow> sum_list (xs[i := v]) = sum_list xs - xs ! i + v" for v :: "'a::len word"
  by (induction xs arbitrary: i) (auto simp: nth_Cons algebra_simps split: nat.splits)

lemma histogram_wf_new [simp, intro]: "histogram_wf (histogram_new bs)"
  by (simp add: histogram_wf_def histogram_new_def sum_list_replicate)

lemma observe_total: "histogram_wf h \<Longrightarrow> \<exists>h'. observe h d = Some h'"
  by (auto simp: observe_def histogram_wf_def Let_def dest!: position_Some split: option.splits)

lemma observe_wf: "histogram_wf h \<Longrightarrow> observe h d = Some h' \<Longrightarrow> histogram_wf h'"
  by (auto simp: observe_def histogram_wf_def Let_def sum_list_update_word algebra_simps
      split: option.splits if_splits)

lemma observe_frame: "observe h d = Some h' \<Longrightarrow> buckets_ms h' = buckets_ms h"
  by (auto simp: observe_def Let_def split: option.splits if_splits)

fun observe_all :: "histogram \<Rightarrow> duration list \<Rightarrow> histogram option" where
  "observe_all h [] = Some h"
| "observe_all h (d # ds) = Option.bind (observe h d) (\<lambda>h'. observe_all h' ds)"

definition in_bucket :: "u64 list \<Rightarrow> nat \<Rightarrow> duration \<Rightarrow> bool" where
  "in_bucket bs i d \<longleftrightarrow> position (\<lambda>bucket. duration_millis d \<le> bucket) bs = Some i"

lemma observe_count:
  assumes "observe h d = Some h'" "i < length (counts h)"
  shows "counts h' ! i = counts h ! i + of_bool (in_bucket (buckets_ms h) i d) \<and>
    length (counts h') = length (counts h)"
  using assms by (auto simp: observe_def Let_def in_bucket_def nth_list_update
      split: option.splits if_splits)

lemma observe_all_counts:
  assumes "observe_all h ds = Some h'" "i < length (counts h)"
  shows "counts h' ! i =
    counts h ! i + of_nat (length (filter (in_bucket (buckets_ms h) i) ds))"
  using assms
proof (induction ds arbitrary: h)
  case Nil
  then show ?case by simp
next
  case (Cons d ds)
  then obtain h1 where h1: "observe h d = Some h1" and rest: "observe_all h1 ds = Some h'"
    by (auto simp: bind_eq_Some_conv)
  from observe_count [OF h1 Cons.prems(2)] observe_frame [OF h1] Cons.IH [OF rest] Cons.prems(2)
  show ?case by (simp add: algebra_simps)
qed

lemma observe_all_wf: "histogram_wf h \<Longrightarrow> \<exists>h'. observe_all h ds = Some h' \<and> histogram_wf h'"
proof (induction ds arbitrary: h)
  case Nil
  then show ?case by simp
next
  case (Cons d ds)
  obtain h1 where h1: "observe h d = Some h1"
    using observe_total [OF Cons.prems] by blast
  with Cons.IH [OF observe_wf [OF Cons.prems h1]] show ?case by simp
qed

text \<open>
  A histogram that starts empty never panics, and after any sequence of observations each
  bucket's counter is the number of samples whose milliseconds fall in that bucket (the
  first one whose bound is large enough), and buckets plus overflow account for every
  sample, all modulo the 64-bit wrap of the counters.
\<close>

theorem histogram_accounts:
  "\<exists>h. observe_all (histogram_new bs) ds = Some h \<and>
     (\<forall>i. i < length bs \<longrightarrow> counts h ! i = of_nat (length (filter (in_bucket bs i) ds))) \<and>
     sum_list (counts h) + overflow h = samples h"
proof -
  obtain h where h: "observe_all (histogram_new bs) ds = Some h" "histogram_wf h"
    using observe_all_wf [OF histogram_wf_new] by blast
  have "counts h ! i = of_nat (length (filter (in_bucket bs i) ds))" if "i < length bs" for i
    using observe_all_counts [OF h(1), of i] that by (simp add: histogram_new_def)
  with h show ?thesis by (auto simp: histogram_wf_def)
qed

theorem histogram_accounts_witness:
  "\<exists>h. observe_all (histogram_new publish_latency_buckets_ms) [3000000, 7000000, 2000000000] = Some h \<and>
     counts h ! 0 = of_nat (length (filter (in_bucket publish_latency_buckets_ms 0)
       [3000000, 7000000, 2000000000]))"
  using histogram_accounts [of publish_latency_buckets_ms "[3000000, 7000000, 2000000000]"]
  by (auto simp: publish_latency_buckets_ms_def)

section \<open>The shared metrics state\<close>

datatype publish_outcome_kind = Success | Failure

record metrics =
  m_overload_entries :: u64
  m_overload_exits :: u64
  m_automated_queue_full :: u64
  m_user_queue_full_rejections :: u64
  m_publish_attempts :: u64
  m_publish_retries :: u64
  m_publish_failures :: u64
  m_jobs_dispatched :: u64
  m_jobs_committed :: u64
  m_jobs_failed :: u64
  m_snooze_wakes :: u64
  m_snooze_sets :: u64
  m_snooze_cancels :: u64
  m_snooze_invalid_wakes :: u64
  m_snooze_expirations :: u64
  m_queue_configured_capacity :: queue_capacity_metrics
  m_retained_automated_keys :: usize
  m_in_flight_publish_attempts :: usize
  m_in_flight_snooze_timers :: usize
  m_confirmation_latency_ms :: histogram
  m_publish_latency_ms :: histogram
  m_overload_duration_ms :: histogram

definition metrics_new :: "queue_capacity_config \<Rightarrow> metrics" where
  "metrics_new queue_config = \<lparr>
     m_overload_entries = 0, m_overload_exits = 0, m_automated_queue_full = 0,
     m_user_queue_full_rejections = 0, m_publish_attempts = 0, m_publish_retries = 0,
     m_publish_failures = 0, m_jobs_dispatched = 0, m_jobs_committed = 0, m_jobs_failed = 0,
     m_snooze_wakes = 0, m_snooze_sets = 0, m_snooze_cancels = 0, m_snooze_invalid_wakes = 0,
     m_snooze_expirations = 0, m_queue_configured_capacity = capacity_metrics_from queue_config,
     m_retained_automated_keys = 0, m_in_flight_publish_attempts = 0,
     m_in_flight_snooze_timers = 0,
     m_confirmation_latency_ms = histogram_new confirmation_latency_buckets_ms,
     m_publish_latency_ms = histogram_new publish_latency_buckets_ms,
     m_overload_duration_ms = histogram_new overload_duration_buckets_ms\<rparr>"

datatype metric_event =
  Record_automated_queue_full
| Record_user_queue_full_rejection
| Record_overload_entry usize
| Record_retained_automated_keys usize
| Record_overload_exit duration
| Record_publish_attempt_started
| Record_publish_retry
| Record_publish_completion publish_outcome_kind duration
| Record_confirmation_latency duration
| Record_job_dispatched
| Record_job_committed
| Record_job_failed
| Record_snooze_wake
| Record_snooze_set
| Record_snooze_cancel
| Record_snooze_invalid_wake
| Record_snooze_expiration

fun record_event :: "metric_event \<Rightarrow> metrics \<Rightarrow> metrics option" where
  "record_event Record_automated_queue_full m =
     Some (m\<lparr>m_automated_queue_full := m_automated_queue_full m + 1\<rparr>)"
| "record_event Record_user_queue_full_rejection m =
     Some (m\<lparr>m_user_queue_full_rejections := m_user_queue_full_rejections m + 1\<rparr>)"
| "record_event (Record_overload_entry retained_keys) m =
     Some (m\<lparr>m_overload_entries := m_overload_entries m + 1,
             m_retained_automated_keys := retained_keys\<rparr>)"
| "record_event (Record_retained_automated_keys retained_keys) m =
     Some (m\<lparr>m_retained_automated_keys := retained_keys\<rparr>)"
| "record_event (Record_overload_exit d) m =
     map_option (\<lambda>h. m\<lparr>m_overload_exits := m_overload_exits m + 1,
       m_retained_automated_keys := 0, m_overload_duration_ms := h\<rparr>)
       (observe (m_overload_duration_ms m) d)"
| "record_event Record_publish_attempt_started m =
     Some (m\<lparr>m_publish_attempts := m_publish_attempts m + 1,
             m_in_flight_publish_attempts := m_in_flight_publish_attempts m + 1\<rparr>)"
| "record_event Record_publish_retry m =
     Some (m\<lparr>m_publish_retries := m_publish_retries m + 1\<rparr>)"
| "record_event (Record_publish_completion outcome latency) m =
     map_option (\<lambda>h. m\<lparr>m_in_flight_publish_attempts := m_in_flight_publish_attempts m - 1,
       m_publish_latency_ms := h,
       m_publish_failures := (case outcome of Success \<Rightarrow> m_publish_failures m
          | Failure \<Rightarrow> m_publish_failures m + 1)\<rparr>)
       (observe (m_publish_latency_ms m) latency)"
| "record_event (Record_confirmation_latency latency) m =
     map_option (\<lambda>h. m\<lparr>m_confirmation_latency_ms := h\<rparr>)
       (observe (m_confirmation_latency_ms m) latency)"
| "record_event Record_job_dispatched m =
     Some (m\<lparr>m_jobs_dispatched := m_jobs_dispatched m + 1\<rparr>)"
| "record_event Record_job_committed m =
     Some (m\<lparr>m_jobs_committed := m_jobs_committed m + 1\<rparr>)"
| "record_event Record_job_failed m =
     Some (m\<lparr>m_jobs_failed := m_jobs_failed m + 1\<rparr>)"
| "record_event Record_snooze_wake m =
     Some (m\<lparr>m_snooze_wakes := m_snooze_wakes m + 1\<rparr>)"
| "record_event Record_snooze_set m =
     Some (m\<lparr>m_snooze_sets := m_snooze_sets m + 1,
             m_in_flight_snooze_timers := m_in_flight_snooze_timers m + 1\<rparr>)"
| "record_event Record_snooze_cancel m =
     Some (m\<lparr>m_snooze_cancels := m_snooze_cancels m + 1,
             m_in_flight_snooze_timers := m_in_flight_snooze_timers m - 1\<rparr>)"
| "record_event Record_snooze_invalid_wake m =
     Some (m\<lparr>m_snooze_invalid_wakes := m_snooze_invalid_wakes m + 1\<rparr>)"
| "record_event Record_snooze_expiration m =
     Some (m\<lparr>m_snooze_expirations := m_snooze_expirations m + 1,
             m_in_flight_snooze_timers := m_in_flight_snooze_timers m - 1\<rparr>)"

fun record_events :: "metric_event list \<Rightarrow> metrics \<Rightarrow> metrics option" where
  "record_events [] m = Some m"
| "record_events (e # es) m = Option.bind (record_event e m) (record_events es)"

lemma record_events_append:
  "record_events (es @ fs) m = Option.bind (record_events es m) (record_events fs)"
  by (induction es arbitrary: m) (auto simp: Option.bind_assoc, metis bind.bind_lunit bind.bind_lzero
      not_Some_eq)

definition metrics_wf :: "metrics \<Rightarrow> bool" where
  "metrics_wf m \<longleftrightarrow> histogram_wf (m_confirmation_latency_ms m) \<and>
     histogram_wf (m_publish_latency_ms m) \<and> histogram_wf (m_overload_duration_ms m) \<and>
     m_snooze_sets m = m_snooze_cancels m + m_snooze_expirations m + m_in_flight_snooze_timers m \<and>
     m_publish_attempts m = samples (m_publish_latency_ms m) + m_in_flight_publish_attempts m"

lemma metrics_wf_new: "metrics_wf (metrics_new cfg)"
  by (simp add: metrics_wf_def metrics_new_def) (simp add: histogram_new_def)

lemma observe_samples: "observe h d = Some h' \<Longrightarrow> samples h' = samples h + 1"
  by (auto simp: observe_def Let_def split: option.splits if_splits)

lemma record_event_wf:
  assumes "metrics_wf m"
  shows "\<exists>m'. record_event e m = Some m' \<and> metrics_wf m' \<and>
    m_queue_configured_capacity m' = m_queue_configured_capacity m"
proof -
  have obs: "\<exists>h'. observe h d = Some h' \<and> histogram_wf h' \<and> samples h' = samples h + 1"
    if "histogram_wf h" for h d
    using observe_total [OF that] observe_wf [OF that] observe_samples by blast
  show ?thesis
    using assms obs
    by (cases e) (fastforce simp: metrics_wf_def algebra_simps)+
qed

lemma record_events_wf:
  "metrics_wf m \<Longrightarrow> \<exists>m'. record_events es m = Some m' \<and> metrics_wf m' \<and>
    m_queue_configured_capacity m' = m_queue_configured_capacity m"
proof (induction es arbitrary: m)
  case Nil
  then show ?case by simp
next
  case (Cons e es)
  obtain m1 where m1: "record_event e m = Some m1" "metrics_wf m1"
    "m_queue_configured_capacity m1 = m_queue_configured_capacity m"
    using record_event_wf [OF Cons.prems] by blast
  with Cons.IH [OF m1(2)] show ?case by simp
qed

text \<open>
  C36: starting from fresh metrics, no sequence of recordings panics; the snooze gauge is
  always the timers set minus those cancelled and expired, the publish gauge is the attempts
  started minus the completions observed, and the configured capacities never change.
\<close>

theorem metrics_gauges:
  "\<exists>m. record_events es (metrics_new cfg) = Some m \<and>
     m_in_flight_snooze_timers m = m_snooze_sets m - m_snooze_cancels m - m_snooze_expirations m \<and>
     m_in_flight_publish_attempts m = m_publish_attempts m - samples (m_publish_latency_ms m) \<and>
     m_queue_configured_capacity m = capacity_metrics_from cfg"
  using record_events_wf [OF metrics_wf_new, of es cfg]
  by (auto simp: metrics_wf_def algebra_simps) (simp add: metrics_new_def)

section \<open>Snapshots\<close>

record metrics_snapshot =
  ms_overload_entries :: u64
  ms_overload_exits :: u64
  ms_automated_queue_full :: u64
  ms_user_queue_full_rejections :: u64
  ms_publish_attempts :: u64
  ms_publish_retries :: u64
  ms_publish_failures :: u64
  ms_jobs_dispatched :: u64
  ms_jobs_committed :: u64
  ms_jobs_failed :: u64
  ms_snooze_wakes :: u64
  ms_snooze_sets :: u64
  ms_snooze_cancels :: u64
  ms_snooze_invalid_wakes :: u64
  ms_snooze_expirations :: u64
  ms_automated_queue_capacity :: usize
  ms_user_queue_capacity :: usize
  ms_job_queue_capacity :: usize
  ms_publish_queue_capacity :: usize
  ms_snooze_queue_capacity :: usize
  ms_retained_automated_keys :: usize
  ms_in_flight_publish_attempts :: usize
  ms_in_flight_snooze_timers :: usize
  ms_confirmation_latency_ms :: histogram_snapshot
  ms_publish_latency_ms :: histogram_snapshot
  ms_overload_duration_ms :: histogram_snapshot

definition metrics_snapshot_of :: "metrics \<Rightarrow> metrics_snapshot" where
  "metrics_snapshot_of m = \<lparr>
     ms_overload_entries = m_overload_entries m,
     ms_overload_exits = m_overload_exits m,
     ms_automated_queue_full = m_automated_queue_full m,
     ms_user_queue_full_rejections = m_user_queue_full_rejections m,
     ms_publish_attempts = m_publish_attempts m,
     ms_publish_retries = m_publish_retries m,
     ms_publish_failures = m_publish_failures m,
     ms_jobs_dispatched = m_jobs_dispatched m,
     ms_jobs_committed = m_jobs_committed m,
     ms_jobs_failed = m_jobs_failed m,
     ms_snooze_wakes = m_snooze_wakes m,
     ms_snooze_sets = m_snooze_sets m,
     ms_snooze_cancels = m_snooze_cancels m,
     ms_snooze_invalid_wakes = m_snooze_invalid_wakes m,
     ms_snooze_expirations = m_snooze_expirations m,
     ms_automated_queue_capacity = qm_automated (m_queue_configured_capacity m),
     ms_user_queue_capacity = qm_user (m_queue_configured_capacity m),
     ms_job_queue_capacity = qm_job (m_queue_configured_capacity m),
     ms_publish_queue_capacity = qm_publish (m_queue_configured_capacity m),
     ms_snooze_queue_capacity = qm_snooze (m_queue_configured_capacity m),
     ms_retained_automated_keys = m_retained_automated_keys m,
     ms_in_flight_publish_attempts = m_in_flight_publish_attempts m,
     ms_in_flight_snooze_timers = m_in_flight_snooze_timers m,
     ms_confirmation_latency_ms = histogram_snapshot_of (m_confirmation_latency_ms m),
     ms_publish_latency_ms = histogram_snapshot_of (m_publish_latency_ms m),
     ms_overload_duration_ms = histogram_snapshot_of (m_overload_duration_ms m)\<rparr>"

end
