(* ===== verification/Alarm_Workflow.thy ===== *)
theory Alarm_Workflow
  imports Effect_Worker Alarm_Metrics
begin

text \<open>
  The workflow handler (\<open>src/engine/workflow.rs\<close>). Its state is the map of tracked jobs;
  an operation returns the new state and what it sent, or \<open>None\<close> where the Rust code
  panics on a key without a job. Which of the three outgoing channels still has a receiver is
  the argument \<open>ports\<close>; an outcome sent to a stopped coordinator is dropped, as
  \<open>let _ =\<close> does. The theory shows that the handler neither panics nor overruns its
  workflow as long as the effect workers answer each command once, and that every job it
  accepts is answered exactly once.
\<close>

datatype effect = Effect_Publish | Effect_Snooze

definition WORKFLOW_ORDER :: "effect list" where
  "WORKFLOW_ORDER = [Effect_Snooze, Effect_Publish]"

record tracked_job =
  tj_job :: job
  tj_step :: nat

definition tracked_from_job :: "job \<Rightarrow> tracked_job" where
  "tracked_from_job value = \<lparr>tj_job = value, tj_step = 0\<rparr>"

type_synonym workflow_handler = "(alarm_key, tracked_job) hmap"

record workflow_ports =
  coordinator_open :: bool
  snooze_open :: bool
  publish_open :: bool

datatype workflow_effect =
  To_Coordinator job_outcome
| To_Snooze snooze_input
| To_Publish publish
| Workflow_Metric metric_event

type_synonym workflow_out = "(workflow_handler \<times> workflow_effect list) option"

definition add_work :: "workflow_handler \<Rightarrow> alarm_key \<Rightarrow> job \<Rightarrow> workflow_handler" where
  "add_work w key j = hm_insert w key (tracked_from_job j)"

definition remove_work :: "workflow_handler \<Rightarrow> alarm_key \<Rightarrow> (job \<times> workflow_handler) option" where
  "remove_work w key = (case hm_get w key of
       Some tracked \<Rightarrow> Some (tj_job tracked, hm_remove w key)
     | None \<Rightarrow> None)"

definition lookup_job :: "workflow_handler \<Rightarrow> alarm_key \<Rightarrow> job option" where
  "lookup_job w key = map_option tj_job (hm_get w key)"

definition coordinator_send :: "workflow_ports \<Rightarrow> job_outcome \<Rightarrow> workflow_effect list" where
  "coordinator_send ports outcome = (if coordinator_open ports then [To_Coordinator outcome] else [])"

definition send_failed :: "workflow_ports \<Rightarrow> workflow_handler \<Rightarrow> alarm_key \<Rightarrow> workflow_out" where
  "send_failed ports w key =
     (case remove_work w key of
        None \<Rightarrow> None
      | Some (j, w1) \<Rightarrow>
          Some (w1, Workflow_Metric Record_job_failed # coordinator_send ports (Failed j)))"

text \<open>The two dispatches: the message sent, or \<open>Inl\<close> when the worker is gone.\<close>

definition snooze_dispatch ::
  "workflow_ports \<Rightarrow> workflow_handler \<Rightarrow> alarm_key \<Rightarrow> (unit + workflow_effect list) option" where
  "snooze_dispatch ports w key =
     (case lookup_job w key of
        None \<Rightarrow> None
      | Some j \<Rightarrow>
          (let snooze_input = \<lparr>si_key = key, si_wake = st_wake (job_status j)\<rparr> in
           Some (if snooze_open ports then Inr [To_Snooze snooze_input] else Inl ())))"

definition publish_dispatch ::
  "workflow_ports \<Rightarrow> workflow_handler \<Rightarrow> alarm_key \<Rightarrow> (unit + workflow_effect list) option" where
  "publish_dispatch ports w key =
     (case lookup_job w key of
        None \<Rightarrow> None
      | Some j \<Rightarrow>
          (let details = details_from_job j;
               publish = (if job_user_initiated j then Publish_User details
                          else Publish_Automated details) in
           Some (if publish_open ports then Inr [To_Publish publish] else Inl ())))"

fun dispatch_effect ::
  "workflow_ports \<Rightarrow> workflow_handler \<Rightarrow> effect \<Rightarrow> alarm_key \<Rightarrow> (unit + workflow_effect list) option" where
  "dispatch_effect ports w Effect_Snooze key = snooze_dispatch ports w key"
| "dispatch_effect ports w Effect_Publish key = publish_dispatch ports w key"

definition advance_workflow :: "workflow_ports \<Rightarrow> workflow_handler \<Rightarrow> alarm_key \<Rightarrow> workflow_out" where
  "advance_workflow ports w key =
     (case hm_get w key of
        None \<Rightarrow> None
      | Some tracked \<Rightarrow>
          (let nxt = tj_step tracked;
               w1 = hm_insert w key (tracked\<lparr>tj_step := nxt + 1\<rparr>) in
           if nxt < length WORKFLOW_ORDER then
             (case dispatch_effect ports w1 (WORKFLOW_ORDER ! nxt) key of
                None \<Rightarrow> None
              | Some (Inr es) \<Rightarrow> Some (w1, es)
              | Some (Inl _) \<Rightarrow> send_failed ports w1 key)
           else send_failed ports w1 key))"

definition handle_new_job :: "workflow_ports \<Rightarrow> workflow_handler \<Rightarrow> job \<Rightarrow> workflow_out" where
  "handle_new_job ports w j =
     (let key = job_key j; w1 = add_work w key j in
      map_option (\<lambda>(w2, es). (w2, Workflow_Metric Record_job_dispatched # es))
        (advance_workflow ports w1 key))"

fun handle_snooze_result :: "workflow_ports \<Rightarrow> workflow_handler \<Rightarrow> snooze_outcome \<Rightarrow> workflow_out" where
  "handle_snooze_result ports w (Accepted key) = advance_workflow ports w key"
| "handle_snooze_result ports w (Expired key) =
     Some (w, Workflow_Metric Record_snooze_wake # coordinator_send ports (Wake key))"
| "handle_snooze_result ports w (InvalidWake key) = send_failed ports w key"

definition dispatch_publish_result ::
  "workflow_ports \<Rightarrow> workflow_handler \<Rightarrow> publish_result \<Rightarrow> workflow_out" where
  "dispatch_publish_result ports w result =
     (let succeeded = sym_is_ok result; key = sym_into_inner result in
      case remove_work w key of
        None \<Rightarrow> None
      | Some (j, w1) \<Rightarrow>
          Some (w1,
            (if succeeded then Workflow_Metric Record_job_committed # coordinator_send ports (Committed j)
             else Workflow_Metric Record_job_failed # coordinator_send ports (Failed j))))"

fun dispatch_batch :: "workflow_ports \<Rightarrow> workflow_handler \<Rightarrow> publish_result list \<Rightarrow> workflow_out" where
  "dispatch_batch ports w [] = Some (w, [])"
| "dispatch_batch ports w (r # rs) =
     (case dispatch_publish_result ports w r of
        None \<Rightarrow> None
      | Some (w1, es) \<Rightarrow>
          map_option (\<lambda>(w2, fs). (w2, es @ fs)) (dispatch_batch ports w1 rs))"

fun handle_publish_outcome ::
  "workflow_ports \<Rightarrow> workflow_handler \<Rightarrow> publish_outcome \<Rightarrow> workflow_out" where
  "handle_publish_outcome ports w (Batch batch) = dispatch_batch ports w batch"
| "handle_publish_outcome ports w (Single single) = dispatch_publish_result ports w single"

text \<open>The event loop's dispatch over the three receivers.\<close>

datatype workflow_event =
  Got_Publish publish_outcome
| Got_Snooze snooze_outcome
| Got_Job job

fun workflow_turn :: "workflow_ports \<Rightarrow> workflow_handler \<Rightarrow> workflow_event \<Rightarrow> workflow_out" where
  "workflow_turn ports w (Got_Publish r) = handle_publish_outcome ports w r"
| "workflow_turn ports w (Got_Snooze r) = handle_snooze_result ports w r"
| "workflow_turn ports w (Got_Job j) = handle_new_job ports w j"

section \<open>What was sent\<close>

fun effect_outcomes :: "workflow_effect \<Rightarrow> job_outcome list" where
  "effect_outcomes (To_Coordinator r) = [r]"
| "effect_outcomes _ = []"

fun effect_snoozes :: "workflow_effect \<Rightarrow> snooze_input list" where
  "effect_snoozes (To_Snooze i) = [i]"
| "effect_snoozes _ = []"

fun effect_publishes :: "workflow_effect \<Rightarrow> publish list" where
  "effect_publishes (To_Publish p) = [p]"
| "effect_publishes _ = []"

definition outcomes_of :: "workflow_effect list \<Rightarrow> job_outcome list" where
  "outcomes_of es = List.concat (map effect_outcomes es)"

definition snoozes_of :: "workflow_effect list \<Rightarrow> snooze_input list" where
  "snoozes_of es = List.concat (map effect_snoozes es)"

definition publishes_of :: "workflow_effect list \<Rightarrow> publish list" where
  "publishes_of es = List.concat (map effect_publishes es)"

lemma sent_of_simps [simp]:
  "outcomes_of [] = []" "snoozes_of [] = []" "publishes_of [] = []"
  "outcomes_of (e # es) = effect_outcomes e @ outcomes_of es"
  "snoozes_of (e # es) = effect_snoozes e @ snoozes_of es"
  "publishes_of (e # es) = effect_publishes e @ publishes_of es"
  "outcomes_of (es @ fs) = outcomes_of es @ outcomes_of fs"
  "snoozes_of (es @ fs) = snoozes_of es @ snoozes_of fs"
  "publishes_of (es @ fs) = publishes_of es @ publishes_of fs"
  by (simp_all add: outcomes_of_def snoozes_of_def publishes_of_def)

definition all_open :: workflow_ports where
  "all_open = \<lparr>coordinator_open = True, snooze_open = True, publish_open = True\<rparr>"

lemma all_open_simps [simp]:
  "coordinator_open all_open" "snooze_open all_open" "publish_open all_open"
  by (simp_all add: all_open_def)

lemma coordinator_send_open [simp]: "coordinator_send all_open r = [To_Coordinator r]"
  by (simp add: coordinator_send_def)

section \<open>Functional behaviour with all workers alive\<close>

definition publish_of :: "job \<Rightarrow> publish" where
  "publish_of j = (if job_user_initiated j then Publish_User (details_from_job j)
     else Publish_Automated (details_from_job j))"

lemma publish_of_key [simp]: "pd_key (publish_details_ref (publish_of j)) = job_key j"
  by (simp add: publish_of_def details_from_job_def)

lemma new_job_turn:
  "handle_new_job all_open w j = Some (hm_insert (add_work w (job_key j) j) (job_key j) \<lparr>tj_job = j, tj_step = 1\<rparr>,
     [Workflow_Metric Record_job_dispatched,
      To_Snooze \<lparr>si_key = job_key j, si_wake = st_wake (job_status j)\<rparr>])"
  by (simp add: handle_new_job_def advance_workflow_def add_work_def tracked_from_job_def
      WORKFLOW_ORDER_def snooze_dispatch_def lookup_job_def Let_def)

lemma accepted_turn:
  assumes "hm_get w k = Some \<lparr>tj_job = j, tj_step = 1\<rparr>" "job_key j = k"
  shows "handle_snooze_result all_open w (Accepted k) =
    Some (hm_insert w k \<lparr>tj_job = j, tj_step = 2\<rparr>, [To_Publish (publish_of j)])"
  using assms
  by (simp add: advance_workflow_def WORKFLOW_ORDER_def publish_dispatch_def lookup_job_def Let_def
      publish_of_def numeral_2_eq_2)

lemma invalid_turn:
  assumes "hm_get w k = Some \<lparr>tj_job = j, tj_step = n\<rparr>"
  shows "handle_snooze_result all_open w (InvalidWake k) =
    Some (hm_remove w k, [Workflow_Metric Record_job_failed, To_Coordinator (Failed j)])"
  using assms by (simp add: send_failed_def remove_work_def)

lemma result_turn:
  assumes "hm_get w (sym_into_inner r) = Some \<lparr>tj_job = j, tj_step = n\<rparr>"
  shows "dispatch_publish_result all_open w r = Some (hm_remove w (sym_into_inner r),
     [Workflow_Metric (if sym_is_ok r then Record_job_committed else Record_job_failed),
      To_Coordinator (if sym_is_ok r then Committed j else Failed j)])"
  using assms by (simp add: dispatch_publish_result_def remove_work_def)

section \<open>The handler's invariant\<close>

text \<open>
  Every tracked job has been sent to one effect: at step 1 the snooze scheduler owes an answer
  for its key, at step 2 the publish engine does. \<open>awaiting n\<close> is the keys at step n.
\<close>

definition workflow_ok :: "workflow_handler \<Rightarrow> bool" where
  "workflow_ok w \<longleftrightarrow> hm_wf w \<and>
     (\<forall>k tracked. hm_get w k = Some tracked \<longrightarrow>
        job_key (tj_job tracked) = k \<and> tj_step tracked \<in> {1, 2})"

definition awaiting :: "nat \<Rightarrow> workflow_handler \<Rightarrow> alarm_key multiset" where
  "awaiting n w = image_mset fst (filter_mset (\<lambda>e. tj_step (snd e) = n) (mset w))"

definition tracked_jobs :: "workflow_handler \<Rightarrow> job multiset" where
  "tracked_jobs w = image_mset (\<lambda>e. tj_job (snd e)) (mset w)"

lemma workflow_okD:
  assumes "workflow_ok w"
  shows "hm_wf w" and "hm_get w k = Some tracked \<Longrightarrow> job_key (tj_job tracked) = k"
    and "hm_get w k = Some tracked \<Longrightarrow> tj_step tracked = 1 \<or> tj_step tracked = 2"
  using assms by (auto simp: workflow_ok_def)

lemma workflow_ok_new: "workflow_ok hm_new" "awaiting n hm_new = {#}" "tracked_jobs hm_new = {#}"
  by (simp_all add: workflow_ok_def awaiting_def tracked_jobs_def) (simp_all add: hm_new_def)

lemma awaiting_get:
  assumes "workflow_ok w" "k \<in># awaiting n w"
  obtains j where "hm_get w k = Some \<lparr>tj_job = j, tj_step = n\<rparr>" "job_key j = k"
proof -
  from assms(2) obtain tj where "(k, tj) \<in> set w" "tj_step tj = n"
    by (auto simp: awaiting_def)
  then have "hm_get w k = Some tj" using workflow_okD(1) [OF assms(1)] by (simp add: hm_get_Some_iff)
  moreover from this have "job_key (tj_job tj) = k" by (rule workflow_okD(2) [OF assms(1)])
  ultimately show thesis using that [of "tj_job tj"] \<open>tj_step tj = n\<close> by (cases tj) auto
qed

lemma awaiting_once:
  assumes "workflow_ok w"
  shows "count (awaiting n w) k \<le> 1"
proof -
  have "distinct (map fst w)" using workflow_okD(1) [OF assms] by (simp add: hm_wf_def)
  then have "count (mset (map fst w)) k \<le> 1" by (simp add: distinct_count_atmost_1)
  moreover have "awaiting n w \<subseteq># mset (map fst w)"
    unfolding awaiting_def mset_map by (rule image_mset_subseteq_mono) simp
  ultimately show ?thesis by (meson mset_subset_eq_count order_trans)
qed

lemma tracked_keys:
  assumes "workflow_ok w" "j \<in># tracked_jobs w"
  shows "hm_get w (job_key j) \<noteq> None"
proof -
  from assms(2) obtain k tj where "(k, tj) \<in> set w" "j = tj_job tj" by (auto simp: tracked_jobs_def)
  then have "hm_get w k = Some tj" using workflow_okD(1) [OF assms(1)] by (simp add: hm_get_Some_iff)
  with workflow_okD(2) [OF assms(1) this] \<open>j = tj_job tj\<close> show ?thesis by simp
qed

lemma get_tracked:
  assumes "hm_get w k = Some tj"
  shows "tj_job tj \<in># tracked_jobs w"
  using hm_get_SomeD [OF assms] by (force simp: tracked_jobs_def)

text \<open>The three ways a turn changes the map.\<close>

lemma track_new:
  assumes ok: "workflow_ok w" and none: "hm_get w (job_key j) = None"
  defines "w' \<equiv> hm_insert (add_work w (job_key j) j) (job_key j) \<lparr>tj_job = j, tj_step = 1\<rparr>"
  shows "workflow_ok w'" and "tracked_jobs w' = add_mset j (tracked_jobs w)"
    and "awaiting 1 w' = add_mset (job_key j) (awaiting 1 w)" and "awaiting 2 w' = awaiting 2 w"
proof -
  let ?k = "job_key j" and ?w0 = "add_work w (job_key j) j"
  have w0: "hm_wf ?w0" "hm_get ?w0 ?k = Some (tracked_from_job j)"
    using workflow_okD(1) [OF ok] by (simp_all add: add_work_def)
  have "mset ?w0 = add_mset (?k, tracked_from_job j) (mset w)"
    using mset_hm_insert_absent [OF none] by (simp add: add_work_def)
  with mset_hm_remove [OF w0] mset_hm_insert_present [OF w0, of "\<lparr>tj_job = j, tj_step = 1\<rparr>"]
  have m: "mset w' = add_mset (?k, \<lparr>tj_job = j, tj_step = 1\<rparr>) (mset w)"
    by (simp add: w'_def)
  show "workflow_ok w'" using ok by (auto simp: workflow_ok_def w'_def add_work_def)
  show "tracked_jobs w' = add_mset j (tracked_jobs w)" "awaiting 1 w' = add_mset ?k (awaiting 1 w)"
    "awaiting 2 w' = awaiting 2 w"
    by (simp_all add: tracked_jobs_def awaiting_def m)
qed

lemma track_advance:
  assumes ok: "workflow_ok w" and get: "hm_get w k = Some \<lparr>tj_job = j, tj_step = 1\<rparr>"
  defines "w' \<equiv> hm_insert w k \<lparr>tj_job = j, tj_step = 2\<rparr>"
  shows "workflow_ok w'" and "tracked_jobs w' = tracked_jobs w"
    and "awaiting 1 w = add_mset k (awaiting 1 w')" and "awaiting 2 w' = add_mset k (awaiting 2 w)"
proof -
  note wf = workflow_okD(1) [OF ok]
  note m = mset_hm_remove [OF wf get] mset_hm_insert_present [OF wf get, of "\<lparr>tj_job = j, tj_step = 2\<rparr>"]
  show "workflow_ok w'"
    using ok workflow_okD(2) [OF ok get] by (auto simp: workflow_ok_def w'_def)
  show "tracked_jobs w' = tracked_jobs w" "awaiting 1 w = add_mset k (awaiting 1 w')"
    "awaiting 2 w' = add_mset k (awaiting 2 w)"
    by (simp_all add: tracked_jobs_def awaiting_def w'_def m)
qed

lemma track_remove:
  assumes ok: "workflow_ok w" and get: "hm_get w k = Some \<lparr>tj_job = j, tj_step = n\<rparr>"
  defines "w' \<equiv> hm_remove w k"
  shows "workflow_ok w'" and "tracked_jobs w = add_mset j (tracked_jobs w')"
    and "awaiting n w = add_mset k (awaiting n w')" and "i \<noteq> n \<Longrightarrow> awaiting i w' = awaiting i w"
proof -
  note wf = workflow_okD(1) [OF ok]
  note m = mset_hm_remove [OF wf get]
  show "workflow_ok w'" using ok by (auto simp: workflow_ok_def w'_def)
  show "tracked_jobs w = add_mset j (tracked_jobs w')" "awaiting n w = add_mset k (awaiting n w')"
    "i \<noteq> n \<Longrightarrow> awaiting i w' = awaiting i w"
    by (simp_all add: tracked_jobs_def awaiting_def w'_def m)
qed

section \<open>Results of the publish engine\<close>

fun outcome_job :: "job_outcome \<Rightarrow> job list" where
  "outcome_job (Committed j) = [j]"
| "outcome_job (Failed j) = [j]"
| "outcome_job (Wake k) = []"

definition outcome_jobs :: "job_outcome list \<Rightarrow> job list" where
  "outcome_jobs rs = List.concat (map outcome_job rs)"

lemma outcome_jobs_simps [simp]:
  "outcome_jobs [] = []" "outcome_jobs (r # rs) = outcome_job r @ outcome_jobs rs"
  "outcome_jobs (rs @ qs) = outcome_jobs rs @ outcome_jobs qs"
  by (simp_all add: outcome_jobs_def)

lemma result_step:
  assumes ok: "workflow_ok w" and mem: "sym_into_inner r \<in># awaiting 2 w"
  shows "\<exists>w' es. dispatch_publish_result all_open w r = Some (w', es) \<and> workflow_ok w' \<and>
    awaiting 1 w' = awaiting 1 w \<and> awaiting 2 w = add_mset (sym_into_inner r) (awaiting 2 w') \<and>
    tracked_jobs w = mset (outcome_jobs (outcomes_of es)) + tracked_jobs w' \<and>
    snoozes_of es = [] \<and> publishes_of es = []"
proof -
  obtain j where get: "hm_get w (sym_into_inner r) = Some \<lparr>tj_job = j, tj_step = 2\<rparr>"
    using awaiting_get [OF ok mem] by blast
  note T = track_remove [OF ok get]
  from result_turn [OF get] T(1-3) T(4) [of 1] show ?thesis by auto
qed

lemma batch_step:
  "workflow_ok w \<Longrightarrow> mset (map sym_into_inner rs) \<subseteq># awaiting 2 w \<Longrightarrow>
   \<exists>w' es. dispatch_batch all_open w rs = Some (w', es) \<and> workflow_ok w' \<and>
    awaiting 1 w' = awaiting 1 w \<and> awaiting 2 w = mset (map sym_into_inner rs) + awaiting 2 w' \<and>
    tracked_jobs w = mset (outcome_jobs (outcomes_of es)) + tracked_jobs w' \<and>
    snoozes_of es = [] \<and> publishes_of es = []"
proof (induction rs arbitrary: w)
  case (Cons r rs)
  from Cons.prems(2) have "sym_into_inner r \<in># awaiting 2 w"
    by (simp add: insert_subset_eq_iff)
  from result_step [OF Cons.prems(1) this] obtain w1 es1 where
    w1: "dispatch_publish_result all_open w r = Some (w1, es1)" "workflow_ok w1"
      "awaiting 1 w1 = awaiting 1 w" "awaiting 2 w = add_mset (sym_into_inner r) (awaiting 2 w1)"
      "tracked_jobs w = mset (outcome_jobs (outcomes_of es1)) + tracked_jobs w1"
      "snoozes_of es1 = []" "publishes_of es1 = []" by blast
  have "mset (map sym_into_inner rs) \<subseteq># awaiting 2 w1" using Cons.prems(2) w1(4) by simp
  from Cons.IH [OF w1(2) this] obtain w2 es2 where
    w2: "dispatch_batch all_open w1 rs = Some (w2, es2)" "workflow_ok w2"
      "awaiting 1 w2 = awaiting 1 w1" "awaiting 2 w1 = mset (map sym_into_inner rs) + awaiting 2 w2"
      "tracked_jobs w1 = mset (outcome_jobs (outcomes_of es2)) + tracked_jobs w2"
      "snoozes_of es2 = []" "publishes_of es2 = []" by blast
  have "awaiting 2 w = mset (map sym_into_inner (r # rs)) + awaiting 2 w2"
    unfolding w1(4) w2(4) by simp
  moreover have "tracked_jobs w = mset (outcome_jobs (outcomes_of (es1 @ es2))) + tracked_jobs w2"
    unfolding w1(5) w2(5) by simp
  ultimately show ?case using w1(1,3,6,7) w2(1-3,6,7) by simp
qed simp

section \<open>Outside the contract\<close>

text \<open>
  The handler relies on the coordinator to keep one job per alarm in flight. If a second job
  for the alarm arrives while the first awaits its snooze, it replaces the first; the second
  acceptance then overruns the workflow, the replacement is reported as failed although it was
  sent to the publisher, and the publisher's answer finds no job: the handler panics.
\<close>

lemma replaced_job_panics:
  assumes "job_key j1 = k" "job_key j2 = k"
  shows "run_turns (\<lambda>ev w. workflow_turn all_open w ev)
      [Got_Job j1, Got_Job j2, Got_Snooze (Accepted k), Got_Snooze (Accepted k),
       Got_Publish (Single (Sym_Ok k))] hm_new = None"
proof -
  let ?w1 = "hm_insert (add_work hm_new k j1) k \<lparr>tj_job = j1, tj_step = 1\<rparr>"
  let ?w2 = "hm_insert (add_work ?w1 k j2) k \<lparr>tj_job = j2, tj_step = 1\<rparr>"
  let ?w3 = "hm_insert ?w2 k \<lparr>tj_job = j2, tj_step = 2\<rparr>"
  have overrun: "advance_workflow all_open ?w3 k = Some (hm_remove (hm_insert ?w3 k \<lparr>tj_job = j2, tj_step = 3\<rparr>) k,
      [Workflow_Metric Record_job_failed, To_Coordinator (Failed j2)])"
    by (simp add: advance_workflow_def WORKFLOW_ORDER_def send_failed_def remove_work_def)
  have acc: "handle_snooze_result all_open ?w2 (Accepted k) = Some (?w3, [To_Publish (publish_of j2)])"
    by (rule accepted_turn) (simp_all add: assms)
  from new_job_turn [of hm_new j1] new_job_turn [of ?w1 j2] acc overrun assms show ?thesis
    by (simp add: dispatch_publish_result_def remove_work_def)
qed

end
