(* ===== verification/Alarm_Snooze.thy ===== *)
theory Alarm_Snooze
  imports Effect_Worker Alarm_Metrics
begin

text \<open>
  The snooze scheduler (\<open>src/effects/snooze.rs\<close>). The \<open>DelayQueue\<close> of tokio-util and
  the date arithmetic of chrono are parameters: \<open>delay_ops\<close> and \<open>chrono_ops\<close> list the
  operations the scheduler calls, \<open>delay_laws\<close> and \<open>chrono_laws\<close> state what their
  documentation promises. A \<open>DelayQueue\<close> panics on a handle it does not hold and on a
  deadline too far ahead of the current time: \<open>None\<close>. It is the cap of the delay in
  \<open>timestamp_secs_to_instant\<close> that keeps every deadline within the range the queue handles.
  The theory shows that the registry and the queue never disagree, so that neither panic
  happens, that every command is answered once, in order, and that the timer gauge counts
  the armed timers.
\<close>

section \<open>The time libraries\<close>

type_synonym datetime = int
type_synonym time_delta = int

text \<open>
  Instants and dates count nanoseconds, a date from the Unix epoch.
\<close>

record chrono_ops =
  from_timestamp_secs :: "i64 \<Rightarrow> datetime option"
  signed_duration_since :: "datetime \<Rightarrow> datetime \<Rightarrow> time_delta"
  to_std :: "time_delta \<Rightarrow> duration option"

definition chrono_laws :: "chrono_ops \<Rightarrow> bool" where
  "chrono_laws ch \<longleftrightarrow>
     (\<forall>s d. from_timestamp_secs ch s = Some d \<longrightarrow> d = sint s * 1000000000) \<and>
     (\<forall>a b. signed_duration_since ch a b = a - b) \<and>
     (\<forall>d. to_std ch d = (if d < 0 then None else Some (nat d)))"

record ('q, 'h) delay_ops =
  dq_new :: 'q
  dq_insert_at :: "'q \<Rightarrow> instant \<Rightarrow> alarm_key \<Rightarrow> instant \<Rightarrow> ('h \<times> 'q) option"
  dq_reset_at :: "'q \<Rightarrow> instant \<Rightarrow> 'h \<Rightarrow> instant \<Rightarrow> 'q option"
  dq_remove :: "'q \<Rightarrow> 'h \<Rightarrow> 'q option"
  dq_is_empty :: "'q \<Rightarrow> bool"
  dq_next :: "'q \<Rightarrow> instant \<Rightarrow> (alarm_key \<times> 'q) option"

text \<open>
  How far ahead of the current time (the second argument of an insertion and a reset) a deadline
  may lie at least, in nanoseconds: the year the comment of \<open>MAX_DELAY\<close> takes to be well
  within the range of the timer wheel.
\<close>

definition SAFE_DELAY :: duration where
  "SAFE_DELAY = 365 * 24 * 3600 * 1000000000"

text \<open>
  The queue seen through its entries: an insertion takes an unused handle, a reset moves the
  deadline of a handle the queue holds, a removal drops it, and \<open>next\<close> yields an entry
  whose deadline has passed. Insertion and reset are promised to succeed for deadlines up to
  \<open>SAFE_DELAY\<close> ahead only, and beyond some horizon they panic.
\<close>

definition delay_laws :: "('q, 'h) delay_ops \<Rightarrow> ('q \<Rightarrow> 'h \<Rightarrow> (alarm_key \<times> instant) option) \<Rightarrow> bool" where
  "delay_laws ops view \<longleftrightarrow>
     view (dq_new ops) = Map.empty \<and>
     (\<forall>q now k t. t \<le> now + SAFE_DELAY \<longrightarrow>
        (\<exists>h q'. dq_insert_at ops q now k t = Some (h, q') \<and> view q h = None \<and> view q' = (view q)(h \<mapsto> (k, t)))) \<and>
     (\<forall>q now h k u t. view q h = Some (k, u) \<and> t \<le> now + SAFE_DELAY \<longrightarrow>
        (\<exists>q'. dq_reset_at ops q now h t = Some q' \<and> view q' = (view q)(h \<mapsto> (k, t)))) \<and>
     (\<exists>horizon. \<forall>q now h k t. now + horizon < t \<longrightarrow>
        dq_insert_at ops q now k t = None \<and> dq_reset_at ops q now h t = None) \<and>
     (\<forall>q h e. view q h = Some e \<longrightarrow>
        (\<exists>q'. dq_remove ops q h = Some q' \<and> view q' = (view q)(h := None))) \<and>
     (\<forall>q. dq_is_empty ops q = (view q = Map.empty)) \<and>
     (\<forall>q now k q'. dq_next ops q now = Some (k, q') \<longrightarrow>
        (\<exists>h t. view q h = Some (k, t) \<and> t \<le> now \<and> view q' = (view q)(h := None)))"

section \<open>The scheduler\<close>

record ('q, 'h) scheduler =
  registry :: "(alarm_key, 'h) hmap"
  delay_queue :: 'q

definition scheduler_new :: "('q, 'h) delay_ops \<Rightarrow> ('q, 'h) scheduler" where
  "scheduler_new ops = \<lparr>registry = hm_new, delay_queue = dq_new ops\<rparr>"

text \<open>\<open>Duration::from_hours(365 * 24)\<close> in nanoseconds.\<close>

definition MAX_DELAY :: duration where
  "MAX_DELAY = 365 * 24 * 3600 * 1000000000"

text \<open>The two clocks at the time of the call: \<open>Utc::now()\<close> and \<open>Instant::now()\<close>.\<close>

record clocks =
  utc_now :: datetime
  instant_now :: instant

definition timestamp_secs_to_instant :: "chrono_ops \<Rightarrow> clocks \<Rightarrow> timestamp \<Rightarrow> instant option" where
  "timestamp_secs_to_instant ch clk wake =
     (case from_timestamp_secs ch (ts_seconds wake) of
        None \<Rightarrow> None
      | Some target_time \<Rightarrow>
          (case to_std ch (signed_duration_since ch target_time (utc_now clk)) of
             None \<Rightarrow> None
           | Some d \<Rightarrow> Some (instant_now clk + min d MAX_DELAY)))"

definition handle_snooze_input ::
  "chrono_ops \<Rightarrow> ('q, 'h) delay_ops \<Rightarrow> clocks \<Rightarrow> snooze_input \<Rightarrow> ('q, 'h) scheduler \<Rightarrow>
   (('q, 'h) scheduler \<times> metric_event list \<times> snooze_outcome) option" where
  "handle_snooze_input ch ops clk snooze_input s =
     (case snooze_from_input snooze_input of
        Snooze_Set key wake \<Rightarrow>
          (case timestamp_secs_to_instant ch clk wake of
             Some instant \<Rightarrow>
               (case hm_get (registry s) key of
                  Some queue_key \<Rightarrow>
                    (case dq_reset_at ops (delay_queue s) (instant_now clk) queue_key instant of
                       None \<Rightarrow> None
                     | Some q \<Rightarrow> Some (s\<lparr>delay_queue := q\<rparr>, [], Accepted key))
                | None \<Rightarrow>
                    (case dq_insert_at ops (delay_queue s) (instant_now clk) key instant of
                       None \<Rightarrow> None
                     | Some (queue_key, q) \<Rightarrow>
                         Some (s\<lparr>delay_queue := q, registry := hm_insert (registry s) key queue_key\<rparr>,
                               [Record_snooze_set], Accepted key)))
           | None \<Rightarrow> Some (s, [Record_snooze_invalid_wake], InvalidWake key))
      | Snooze_Cancel key \<Rightarrow>
          (case hm_get (registry s) key of
             Some queue_key \<Rightarrow>
               (case dq_remove ops (delay_queue s) queue_key of
                  None \<Rightarrow> None
                | Some q \<Rightarrow> Some (s\<lparr>registry := hm_remove (registry s) key, delay_queue := q\<rparr>,
                                  [Record_snooze_cancel], Accepted key))
           | None \<Rightarrow> Some (s, [], Accepted key)))"

text \<open>
  A turn of \<open>run_snooze_scheduler\<close>: a command, or a look at the queue, whose branch is
  guarded by the queue being non-empty and which may have no timer to yield yet. The result
  says what was sent; an answer nobody can receive ends the loop, which is the caller's
  \<open>port_open\<close> being false.
\<close>

datatype snooze_event = Snooze_Command clocks snooze_input | Queue_Polled instant

fun snooze_turn ::
  "chrono_ops \<Rightarrow> ('q, 'h) delay_ops \<Rightarrow> snooze_event \<Rightarrow> ('q, 'h) scheduler \<Rightarrow>
   (('q, 'h) scheduler \<times> metric_event list \<times> snooze_outcome list) option" where
  "snooze_turn ch ops (Snooze_Command clk i) s =
     map_option (\<lambda>(s', ms, r). (s', ms, [r])) (handle_snooze_input ch ops clk i s)"
| "snooze_turn ch ops (Queue_Polled now) s =
     (if dq_is_empty ops (delay_queue s) then Some (s, [], [])
      else case dq_next ops (delay_queue s) now of
        None \<Rightarrow> Some (s, [], [])
      | Some (key, q) \<Rightarrow>
          Some (s\<lparr>delay_queue := q, registry := hm_remove (registry s) key\<rparr>,
                [Record_snooze_expiration], [Expired key]))"

fun snooze_run ::
  "chrono_ops \<Rightarrow> ('q, 'h) delay_ops \<Rightarrow> snooze_event list \<Rightarrow> ('q, 'h) scheduler \<Rightarrow>
   (('q, 'h) scheduler \<times> metric_event list \<times> snooze_outcome list) option" where
  "snooze_run ch ops [] s = Some (s, [], [])"
| "snooze_run ch ops (ev # evs) s =
     (case snooze_turn ch ops ev s of
        None \<Rightarrow> None
      | Some (s1, ms, rs) \<Rightarrow>
          map_option (\<lambda>(s2, ms', rs'). (s2, ms @ ms', rs @ rs')) (snooze_run ch ops evs s1))"

section \<open>The specification: a map of deadlines\<close>

definition deadline ::
  "('q \<Rightarrow> 'h \<Rightarrow> (alarm_key \<times> instant) option) \<Rightarrow> ('q, 'h) scheduler \<Rightarrow> alarm_key \<Rightarrow> instant option" where
  "deadline view s k = (case hm_get (registry s) k of
       None \<Rightarrow> None | Some h \<Rightarrow> map_option snd (view (delay_queue s) h))"

text \<open>Registry and queue agree: a key's handle is the handle of its one queue entry.\<close>

definition sched_ok ::
  "('q \<Rightarrow> 'h \<Rightarrow> (alarm_key \<times> instant) option) \<Rightarrow> ('q, 'h) scheduler \<Rightarrow> bool" where
  "sched_ok view s \<longleftrightarrow> hm_wf (registry s) \<and>
     (\<forall>k h. hm_get (registry s) k = Some h \<longleftrightarrow> (\<exists>t. view (delay_queue s) h = Some (k, t)))"

fun deadline_after ::
  "chrono_ops \<Rightarrow> clocks \<Rightarrow> snooze_input \<Rightarrow> (alarm_key \<Rightarrow> instant option) \<Rightarrow> (alarm_key \<Rightarrow> instant option)" where
  "deadline_after ch clk i d =
     (case si_wake i of
        None \<Rightarrow> d(si_key i := None)
      | Some w \<Rightarrow> (case timestamp_secs_to_instant ch clk w of
           None \<Rightarrow> d | Some t \<Rightarrow> d(si_key i \<mapsto> t)))"

definition answer_to :: "chrono_ops \<Rightarrow> clocks \<Rightarrow> snooze_input \<Rightarrow> snooze_outcome" where
  "answer_to ch clk i =
     (case si_wake i of
        None \<Rightarrow> Accepted (si_key i)
      | Some w \<Rightarrow> if timestamp_secs_to_instant ch clk w = None then InvalidWake (si_key i)
                  else Accepted (si_key i))"

lemma delay_lawsD:
  assumes "delay_laws ops view"
  shows "view (dq_new ops) = Map.empty"
    and "t \<le> now + SAFE_DELAY \<Longrightarrow>
        \<exists>h q'. dq_insert_at ops q now k t = Some (h, q') \<and> view q h = None \<and> view q' = (view q)(h \<mapsto> (k, t))"
    and "view q h = Some (k, u) \<Longrightarrow> t \<le> now + SAFE_DELAY \<Longrightarrow>
        \<exists>q'. dq_reset_at ops q now h t = Some q' \<and> view q' = (view q)(h \<mapsto> (k, t))"
    and "view q h = Some e \<Longrightarrow> \<exists>q'. dq_remove ops q h = Some q' \<and> view q' = (view q)(h := None)"
    and "dq_is_empty ops q \<longleftrightarrow> view q = Map.empty"
    and "dq_next ops q now = Some (k, q') \<Longrightarrow>
        \<exists>h t. view q h = Some (k, t) \<and> t \<le> now \<and> view q' = (view q)(h := None)"
  using assms unfolding delay_laws_def by - (elim conjE, simp; fail | elim conjE, meson)+

text \<open>The cap keeps the deadlines in the range of the queue.\<close>

lemma instant_capped:
  "timestamp_secs_to_instant ch clk w = Some t \<Longrightarrow> t \<le> instant_now clk + SAFE_DELAY"
  by (auto simp: timestamp_secs_to_instant_def MAX_DELAY_def SAFE_DELAY_def split: option.splits)

lemma sched_okD:
  assumes "sched_ok view s"
  shows "hm_wf (registry s)"
    and "hm_get (registry s) k = Some h \<longleftrightarrow> (\<exists>t. view (delay_queue s) h = Some (k, t))"
  using assms unfolding sched_ok_def by blast+

lemma sched_ok_new: "delay_laws ops view \<Longrightarrow> sched_ok view (scheduler_new ops)"
  by (simp add: sched_ok_def scheduler_new_def delay_lawsD(1))

lemma deadline_new: "deadline view (scheduler_new ops) = Map.empty"
  by (simp add: deadline_def scheduler_new_def fun_eq_iff)

lemma deadline_None_iff:
  "sched_ok view s \<Longrightarrow> deadline view s k = None \<longleftrightarrow> hm_get (registry s) k = None"
  using sched_okD(2) [of view s k] by (auto simp: deadline_def split: option.splits)

text \<open>The three changes of registry and queue keep them in step.\<close>

lemma sched_insert:
  assumes ok: "sched_ok view s" and none: "hm_get (registry s) k = None"
    and fresh: "view (delay_queue s) h = None" and v: "view q = (view (delay_queue s))(h \<mapsto> (k, t))"
  defines "s' \<equiv> s\<lparr>delay_queue := q, registry := hm_insert (registry s) k h\<rparr>"
  shows "sched_ok view s'" and "deadline view s' = (deadline view s)(k \<mapsto> t)"
proof -
  note ok2 = sched_okD(2) [OF ok]
  have "hm_get (registry s') j = Some g \<longleftrightarrow> (\<exists>u. view (delay_queue s') g = Some (j, u))" for j g
    using ok2 [of j g] ok2 [of k g] ok2 [of j h] none fresh by (auto simp: s'_def v)
  then show "sched_ok view s'"
    using sched_okD(1) [OF ok] by (simp add: sched_ok_def s'_def)
  have "hm_get (registry s) j \<noteq> Some h" for j using ok2 fresh by auto
  then show "deadline view s' = (deadline view s)(k \<mapsto> t)"
    unfolding s'_def by (auto simp: deadline_def fun_eq_iff v split: option.splits)
qed

lemma sched_reset:
  assumes ok: "sched_ok view s" and get: "hm_get (registry s) k = Some h"
    and v: "view q = (view (delay_queue s))(h \<mapsto> (k, t))"
  defines "s' \<equiv> s\<lparr>delay_queue := q\<rparr>"
  shows "sched_ok view s'" and "deadline view s' = (deadline view s)(k \<mapsto> t)"
proof -
  note ok2 = sched_okD(2) [OF ok]
  have uniq: "j = k" if "hm_get (registry s) j = Some h" for j
    using that get ok2 by (metis Pair_inject option.inject)
  have "hm_get (registry s') j = Some g \<longleftrightarrow> (\<exists>u. view (delay_queue s') g = Some (j, u))" for j g
    using ok2 [of j g] uniq [of j] get by (auto simp: s'_def v)
  then show "sched_ok view s'"
    using sched_okD(1) [OF ok] by (simp add: sched_ok_def s'_def)
  have "deadline view s' j = ((deadline view s)(k \<mapsto> t)) j" for j
    using get uniq [of j] by (cases "hm_get (registry s) j") (auto simp: s'_def deadline_def v)
  then show "deadline view s' = (deadline view s)(k \<mapsto> t)" ..
qed

lemma sched_drop:
  assumes ok: "sched_ok view s" and get: "hm_get (registry s) k = Some h"
    and v: "view q = (view (delay_queue s))(h := None)"
  defines "s' \<equiv> s\<lparr>registry := hm_remove (registry s) k, delay_queue := q\<rparr>"
  shows "sched_ok view s'" and "deadline view s' = (deadline view s)(k := None)"
proof -
  note ok2 = sched_okD(2) [OF ok]
  have uniq: "j = k" if "hm_get (registry s) j = Some h" for j
    using that get ok2 by (metis Pair_inject option.inject)
  obtain t where "view (delay_queue s) h = Some (k, t)" using get ok2 by blast
  then have "hm_get (registry s') j = Some g \<longleftrightarrow> (\<exists>u. view (delay_queue s') g = Some (j, u))" for j g
    using ok2 [of j g] get by (auto simp: s'_def v)
  then show "sched_ok view s'"
    using sched_okD(1) [OF ok] by (simp add: sched_ok_def s'_def)
  have "deadline view s' j = ((deadline view s)(k := None)) j" for j
    using get uniq [of j] by (cases "hm_get (registry s) j") (auto simp: s'_def deadline_def v)
  then show "deadline view s' = (deadline view s)(k := None)" ..
qed

section \<open>One command, one look at the queue\<close>

lemma handle_input_refines:
  assumes laws: "delay_laws ops view" and ok: "sched_ok view s"
  shows "\<exists>s' ms. handle_snooze_input ch ops clk i s = Some (s', ms, answer_to ch clk i) \<and>
    sched_ok view s' \<and> deadline view s' = deadline_after ch clk i (deadline view s)"
proof (cases "si_wake i")
  case None
  show ?thesis
  proof (cases "hm_get (registry s) (si_key i)")
    case none: None
    then have "deadline view s (si_key i) = None" by (simp add: deadline_def)
    with None none ok show ?thesis
      by (auto simp: handle_snooze_input_def snooze_from_input_def answer_to_def fun_eq_iff)
  next
    case (Some h)
    then obtain t where "view (delay_queue s) h = Some (si_key i, t)"
      using sched_okD(2) [OF ok] by blast
    from delay_lawsD(4) [OF laws this] obtain q where q: "dq_remove ops (delay_queue s) h = Some q"
      "view q = (view (delay_queue s))(h := None)" by blast
    from sched_drop [OF ok Some q(2)] None Some q(1) show ?thesis
      by (simp add: handle_snooze_input_def snooze_from_input_def answer_to_def)
  qed
next
  case (Some w)
  note wake = Some
  show ?thesis
  proof (cases "timestamp_secs_to_instant ch clk w")
    case None
    with wake ok show ?thesis
      by (simp add: handle_snooze_input_def snooze_from_input_def answer_to_def)
  next
    case (Some t)
    note inst = Some instant_capped [OF Some]
    show ?thesis
    proof (cases "hm_get (registry s) (si_key i)")
      case None
      from delay_lawsD(2) [OF laws inst(2)] obtain h q where
        q: "dq_insert_at ops (delay_queue s) (instant_now clk) (si_key i) t = Some (h, q)"
        and v: "view (delay_queue s) h = None" "view q = (view (delay_queue s))(h \<mapsto> (si_key i, t))" by blast
      from sched_insert [OF ok None v] wake inst(1) None q show ?thesis
        by (simp add: handle_snooze_input_def snooze_from_input_def answer_to_def)
    next
      case (Some h)
      then obtain u where "view (delay_queue s) h = Some (si_key i, u)"
        using sched_okD(2) [OF ok] by blast
      from delay_lawsD(3) [OF laws this inst(2)] obtain q where
        q: "dq_reset_at ops (delay_queue s) (instant_now clk) h t = Some q"
        "view q = (view (delay_queue s))(h \<mapsto> (si_key i, t))" by blast
      from sched_reset [OF ok Some q(2)] wake inst(1) Some q(1) show ?thesis
        by (simp add: handle_snooze_input_def snooze_from_input_def answer_to_def)
    qed
  qed
qed

lemma poll_refines:
  assumes laws: "delay_laws ops view" and ok: "sched_ok view s"
    and nxt: "dq_next ops (delay_queue s) now = Some (k, q)"
  defines "s' \<equiv> s\<lparr>delay_queue := q, registry := hm_remove (registry s) k\<rparr>"
  shows "snooze_turn ch ops (Queue_Polled now) s = Some (s', [Record_snooze_expiration], [Expired k])"
    and "sched_ok view s'" and "deadline view s' = (deadline view s)(k := None)"
    and "\<exists>t. deadline view s k = Some t \<and> t \<le> now"
proof -
  obtain h t where h: "view (delay_queue s) h = Some (k, t)" "t \<le> now"
    "view q = (view (delay_queue s))(h := None)"
    using delay_lawsD(6) [OF laws nxt] by blast
  have get: "hm_get (registry s) k = Some h" using sched_okD(2) [OF ok] h(1) by blast
  have "\<not> dq_is_empty ops (delay_queue s)"
    using delay_lawsD(5) [OF laws] h(1) by (metis option.distinct(1))
  then show "snooze_turn ch ops (Queue_Polled now) s = Some (s', [Record_snooze_expiration], [Expired k])"
    by (simp add: nxt s'_def)
  have "s' = s\<lparr>registry := hm_remove (registry s) k, delay_queue := q\<rparr>"
    by (cases s) (simp add: s'_def)
  then show "sched_ok view s'" "deadline view s' = (deadline view s)(k := None)"
    using sched_drop [OF ok get h(3)] by simp_all
  show "\<exists>t. deadline view s k = Some t \<and> t \<le> now"
    using get h by (simp add: deadline_def)
qed

lemma poll_idle:
  "dq_next ops (delay_queue s) now = None \<Longrightarrow> snooze_turn ch ops (Queue_Polled now) s = Some (s, [], [])"
  by simp

section \<open>The specification in plain arithmetic\<close>

text \<open>
  What a command is to do, from the protocol in the head of \<open>snooze.rs\<close>: a wake time that is a
  date and not in the past is due as many nanoseconds ahead as it lies ahead of the clock, one
  year at most; any other wake time is invalid.
\<close>

definition due_at :: "chrono_ops \<Rightarrow> clocks \<Rightarrow> timestamp \<Rightarrow> instant option" where
  "due_at ch clk w =
     (let ahead = sint (ts_seconds w) * 1000000000 - utc_now clk in
      if from_timestamp_secs ch (ts_seconds w) = None \<or> ahead < 0 then None
      else Some (instant_now clk + nat (min ahead (365 * 24 * 3600 * 1000000000))))"

definition commanded ::
  "chrono_ops \<Rightarrow> clocks \<Rightarrow> snooze_input \<Rightarrow> (alarm_key \<Rightarrow> instant option) \<Rightarrow>
   (alarm_key \<Rightarrow> instant option) \<times> snooze_outcome" where
  "commanded ch clk i d =
     (case si_wake i of
        None \<Rightarrow> (d(si_key i := None), Accepted (si_key i))
      | Some w \<Rightarrow> (case due_at ch clk w of
           None \<Rightarrow> (d, InvalidWake (si_key i))
         | Some t \<Rightarrow> (d(si_key i \<mapsto> t), Accepted (si_key i))))"

lemma wake_instant:
  assumes "chrono_laws ch"
  shows "timestamp_secs_to_instant ch clk w = due_at ch clk w"
proof (cases "from_timestamp_secs ch (ts_seconds w)")
  case None
  then show ?thesis by (simp add: timestamp_secs_to_instant_def due_at_def)
next
  case (Some target)
  then have target: "target = sint (ts_seconds w) * 1000000000"
    and diff: "signed_duration_since ch a b = a - b"
    and std: "to_std ch d = (if d < 0 then None else Some (nat d))" for a b d
    using assms unfolding chrono_laws_def by blast+
  have cap: "min (nat a) MAX_DELAY = nat (min a (365 * 24 * 3600 * 1000000000))" if "0 \<le> a" for a
    using that by (simp add: MAX_DELAY_def min_def nat_le_iff)
  show ?thesis
    by (simp add: timestamp_secs_to_instant_def due_at_def Some diff std Let_def cap target)
qed

lemma commanded_iff:
  assumes "chrono_laws ch"
  shows "commanded ch clk i d = (deadline_after ch clk i d, answer_to ch clk i)"
  by (simp add: commanded_def answer_to_def wake_instant [OF assms] split: option.split)

text \<open>
  C19: the scheduler refines a map of deadlines. On a registry that agrees with its delay
  queue a command never panics, whatever its wake time: it is answered as the specification
  says, arms, moves or clears the deadline of its own alarm only, at the time due by plain
  arithmetic and at most a year ahead; registry and queue agree again. The queue
  itself is promised to take deadlines up to a year ahead only.
\<close>

theorem snooze_command_refines:
  assumes "chrono_laws ch" and "delay_laws ops view" and "sched_ok view s"
  shows "\<exists>s' ms r. handle_snooze_input ch ops clk i s = Some (s', ms, r) \<and>
    sched_ok view s' \<and> (deadline view s', r) = commanded ch clk i (deadline view s)"
  using handle_input_refines [OF assms(2,3), of ch clk i] commanded_iff [OF assms(1), of clk i] by auto

text \<open>
  A timer never fires early, and fires once: \<open>Expired k\<close> is sent only when the
  deadline of \<open>k\<close> has passed, and afterwards \<open>k\<close> has no timer while every other timer
  is as it was.
\<close>

theorem snooze_expiry:
  assumes "delay_laws ops view" and "sched_ok view s"
    and "snooze_turn ch ops (Queue_Polled now) s = Some (s', ms, rs)" and "r \<in> set rs"
  shows "\<exists>k t. r = Expired k \<and> deadline view s k = Some t \<and> t \<le> now \<and>
    sched_ok view s' \<and> deadline view s' = (deadline view s)(k := None)"
proof (cases "dq_next ops (delay_queue s) now")
  case None
  then show ?thesis using assms(3,4) by (auto split: if_splits)
next
  case (Some kq)
  obtain k q where kq: "kq = (k, q)" by fastforce
  note p = poll_refines [OF assms(1,2) Some [unfolded kq]]
  have "s' = s\<lparr>delay_queue := q, registry := hm_remove (registry s) k\<rparr> \<and> r = Expired k"
    using p(1) [of ch] assms(3,4) by (simp del: snooze_turn.simps)
  with p(2-4) show ?thesis by blast
qed

section \<open>Whole runs\<close>

fun is_expired :: "snooze_outcome \<Rightarrow> bool" where
  "is_expired (Expired _) = True"
| "is_expired _ = False"

text \<open>The commands of a run carried out on a map of deadlines, no timer ever expiring.\<close>

fun commanded_run ::
  "chrono_ops \<Rightarrow> snooze_event list \<Rightarrow> (alarm_key \<Rightarrow> instant option) \<Rightarrow>
   (alarm_key \<Rightarrow> instant option) \<times> snooze_outcome list" where
  "commanded_run ch [] d = (d, [])"
| "commanded_run ch (Snooze_Command clk i # evs) d =
     (let (d1, r) = commanded ch clk i d; (d2, rs) = commanded_run ch evs d1 in (d2, r # rs))"
| "commanded_run ch (Queue_Polled now # evs) d = commanded_run ch evs d"

lemma answer_not_expired [simp]: "\<not> is_expired (answer_to ch clk i)"
  by (simp add: answer_to_def split: option.split)

lemma deadline_after_mono: "d \<subseteq>\<^sub>m d' \<Longrightarrow> deadline_after ch clk i d \<subseteq>\<^sub>m deadline_after ch clk i d'"
  by (auto simp: map_le_def split: option.split)

definition gauge_ok :: "('q, 'h) scheduler \<Rightarrow> metrics \<Rightarrow> bool" where
  "gauge_ok s m \<longleftrightarrow> m_in_flight_snooze_timers m = of_nat (length (registry s))"

lemma length_registry_remove:
  "hm_wf reg \<Longrightarrow> hm_get reg k = Some h \<Longrightarrow>
     of_nat (length (hm_remove reg k)) = of_nat (length reg) - (1 :: 'w::len word)"
  by (cases reg) (auto simp: length_hm_remove hm_get_def)

lemma snooze_turn_gauge:
  assumes laws: "delay_laws ops view" and ok: "sched_ok view s"
    and turn: "snooze_turn ch ops ev s = Some (s', ms, rs)" and g: "gauge_ok s m"
    and rec: "record_events ms m = Some m'"
  shows "gauge_ok s' m'"
proof (cases ev)
  case (Snooze_Command clk i)
  then show ?thesis
    using turn g rec sched_okD(1) [OF ok]
    by (auto simp: handle_snooze_input_def gauge_ok_def length_registry_remove length_hm_insert
        split: snooze.splits option.splits prod.splits)
next
  case (Queue_Polled now)
  show ?thesis
  proof (cases "dq_next ops (delay_queue s) now")
    case None
    then show ?thesis using turn g rec Queue_Polled by (auto split: if_splits)
  next
    case (Some kq)
    obtain k q where kq: "kq = (k, q)" by fastforce
    note p = poll_refines [OF laws ok Some [unfolded kq]]
    obtain h where "hm_get (registry s) k = Some h"
      using p(4) by (auto simp: deadline_def split: option.splits)
    with p(1) [of ch] turn g rec Queue_Polled sched_okD(1) [OF ok] show ?thesis
      by (auto simp: gauge_ok_def length_registry_remove simp del: snooze_turn.simps)
  qed
qed

lemma snooze_turn_ok:
  assumes laws: "chrono_laws ch" "delay_laws ops view" and ok: "sched_ok view s" and le: "deadline view s \<subseteq>\<^sub>m d"
  shows "\<exists>s' ms rs. snooze_turn ch ops ev s = Some (s', ms, rs) \<and> sched_ok view s' \<and>
    filter (\<lambda>r. \<not> is_expired r) rs = snd (commanded_run ch [ev] d) \<and>
    deadline view s' \<subseteq>\<^sub>m fst (commanded_run ch [ev] d)"
proof (cases ev)
  case (Snooze_Command clk i)
  with deadline_after_mono [OF le, of ch clk i] show ?thesis
    using handle_input_refines [OF laws(2) ok, of ch clk i]
    by (auto simp: commanded_iff [OF laws(1)] simp del: deadline_after.simps)
next
  case (Queue_Polled now)
  show ?thesis
  proof (cases "dq_next ops (delay_queue s) now")
    case None
    then show ?thesis using ok le Queue_Polled by simp
  next
    case (Some kq)
    obtain k q where kq: "kq = (k, q)" by fastforce
    have "(deadline view s)(k := None) \<subseteq>\<^sub>m d" using le by (auto simp: map_le_def)
    with poll_refines [OF laws(2) ok Some [unfolded kq]] Queue_Polled show ?thesis by auto
  qed
qed

lemma snooze_run_ok:
  assumes laws: "chrono_laws ch" "delay_laws ops view"
  shows "sched_ok view s \<Longrightarrow> deadline view s \<subseteq>\<^sub>m d \<Longrightarrow> gauge_ok s m \<Longrightarrow> metrics_wf m \<Longrightarrow>
    \<exists>s' ms rs m'. snooze_run ch ops evs s = Some (s', ms, rs) \<and> sched_ok view s' \<and>
      filter (\<lambda>r. \<not> is_expired r) rs = snd (commanded_run ch evs d) \<and>
      deadline view s' \<subseteq>\<^sub>m fst (commanded_run ch evs d) \<and>
      record_events ms m = Some m' \<and> gauge_ok s' m'"
proof (induction evs arbitrary: s m d)
  case Nil
  then show ?case by simp
next
  case (Cons ev evs)
  define d1 where "d1 = fst (commanded_run ch [ev] d)"
  have split: "commanded_run ch (ev # evs) d =
      (fst (commanded_run ch evs d1), snd (commanded_run ch [ev] d) @ snd (commanded_run ch evs d1))"
    by (cases ev) (simp_all add: d1_def case_prod_unfold Let_def)
  obtain s1 ms rs where t: "snooze_turn ch ops ev s = Some (s1, ms, rs)" "sched_ok view s1"
    "filter (\<lambda>r. \<not> is_expired r) rs = snd (commanded_run ch [ev] d)" "deadline view s1 \<subseteq>\<^sub>m d1"
    using snooze_turn_ok [OF laws Cons.prems(1,2), of ev] unfolding d1_def by blast
  obtain m1 where m1: "record_events ms m = Some m1" "metrics_wf m1"
    using record_events_wf [OF Cons.prems(4)] by blast
  have "gauge_ok s1 m1" using snooze_turn_gauge [OF laws(2) Cons.prems(1) t(1) Cons.prems(3) m1(1)] .
  from Cons.IH [OF t(2,4) this m1(2)] t(1,3) m1 show ?case
    unfolding split by (auto simp: record_events_append)
qed

text \<open>
  C29: the scheduler over a whole run. Started with an empty queue it never panics, whatever
  commands arrive, with whatever wake times, and whenever timers are polled. Leaving the
  spontaneous expiries aside, what it sends is exactly the answer of the specification to each
  command, in the order of the commands; every timer it has is the one the last valid command
  for its alarm has set, due at the time plain arithmetic gives; and the timer gauge of the
  metrics is the number of armed timers.
\<close>

theorem snooze_run_answers:
  assumes "chrono_laws ch" and "delay_laws ops view"
  shows "\<exists>s ms rs m. snooze_run ch ops evs (scheduler_new ops) = Some (s, ms, rs) \<and>
    filter (\<lambda>r. \<not> is_expired r) rs = snd (commanded_run ch evs Map.empty) \<and>
    deadline view s \<subseteq>\<^sub>m fst (commanded_run ch evs Map.empty) \<and>
    sched_ok view s \<and> record_events ms (metrics_new cfg) = Some m \<and>
    m_in_flight_snooze_timers m = of_nat (length (registry s))"
proof -
  have "gauge_ok (scheduler_new ops) (metrics_new cfg)"
    by (simp add: gauge_ok_def scheduler_new_def metrics_new_def hm_new_def)
  from snooze_run_ok [OF assms sched_ok_new [OF assms(2)] _ this metrics_wf_new, of Map.empty evs] show ?thesis
    unfolding gauge_ok_def by (auto simp: deadline_new)
qed

section \<open>The contract of an effect worker\<close>

fun snooze_taken :: "snooze_event \<Rightarrow> alarm_key list" where
  "snooze_taken (Snooze_Command clk i) = [si_key i]"
| "snooze_taken (Queue_Polled now) = []"

fun snooze_answered :: "snooze_outcome \<Rightarrow> alarm_key list" where
  "snooze_answered (Accepted k) = [k]"
| "snooze_answered (InvalidWake k) = [k]"
| "snooze_answered (Expired k) = []"

definition snooze_replies ::
  "chrono_ops \<Rightarrow> ('q, 'h) delay_ops \<Rightarrow> snooze_event \<Rightarrow> ('q, 'h) scheduler \<Rightarrow>
   (('q, 'h) scheduler \<times> snooze_outcome list) option" where
  "snooze_replies ch ops ev s = map_option (\<lambda>(s', ms, rs). (s', rs)) (snooze_turn ch ops ev s)"

lemma snooze_replies_Some:
  assumes laws: "delay_laws ops view" and ok: "sched_ok view s"
  obtains s' rs where "snooze_replies ch ops ev s = Some (s', rs)" "sched_ok view s'"
    "keys_of snooze_answered rs = mset (snooze_taken ev)"
proof (cases ev)
  case (Snooze_Command clk i)
  then show ?thesis
    using handle_input_refines [OF laws ok, of ch clk i] that
    by (auto simp: snooze_replies_def answer_to_def split: option.splits if_splits)
next
  case (Queue_Polled now)
  show ?thesis
  proof (cases "dq_next ops (delay_queue s) now")
    case None
    then show ?thesis using Queue_Polled ok that by (simp add: snooze_replies_def)
  next
    case (Some kq)
    obtain k q where kq: "kq = (k, q)" by fastforce
    note p = poll_refines [OF laws ok Some [unfolded kq]]
    from p(1) [of ch] p(2) Queue_Polled that show ?thesis
      by (simp add: snooze_replies_def del: snooze_turn.simps)
  qed
qed

interpretation snoozer: effect_worker "snooze_replies ch ops"
    "\<lambda>s. delay_laws ops view \<and> sched_ok view s" snooze_taken "\<lambda>s. {#}" snooze_answered
  for ch ops view
  by unfold_locales (metis snooze_replies_Some option.inject Pair_inject add.right_neutral
      add.left_neutral)+

section \<open>Wake times\<close>

text \<open>
  A wake time equal to the current time is accepted, with a timer that is due at once.
\<close>

theorem present_wake_accepted:
  assumes "chrono_laws ch"
    and "from_timestamp_secs ch (ts_seconds w) = Some (utc_now clk)"
  shows "timestamp_secs_to_instant ch clk w = Some (instant_now clk) \<and>
    answer_to ch clk \<lparr>si_key = k, si_wake = Some w\<rparr> = Accepted k"
  using assms
  by (auto simp: timestamp_secs_to_instant_def chrono_laws_def answer_to_def MAX_DELAY_def)

section \<open>The laws can be met\<close>

text \<open>
  A calendar of the seconds below 2^40 and a delay queue that numbers its entries and panics on
  deadlines more than two years ahead, as
  instances of the two parameters: the hypotheses of the theorems above hold of them.
\<close>

definition sample_chrono :: chrono_ops where
  "sample_chrono = \<lparr>
     from_timestamp_secs = (\<lambda>s. if \<bar>sint s\<bar> < 2 ^ 40 then Some (sint s * 1000000000) else None),
     signed_duration_since = (\<lambda>a b. a - b),
     to_std = (\<lambda>d. if d < 0 then None else Some (nat d))\<rparr>"

lemma sample_chrono_laws: "chrono_laws sample_chrono"
  by (auto simp: chrono_laws_def sample_chrono_def split: if_splits)

type_synonym sample_queue = "(nat, alarm_key \<times> instant) hmap"

definition sample_fresh :: "sample_queue \<Rightarrow> nat" where
  "sample_fresh q = Suc (sum_list (map fst q))"

definition sample_due :: "sample_queue \<Rightarrow> instant \<Rightarrow> (nat \<times> alarm_key \<times> instant) option" where
  "sample_due q now = find (\<lambda>(h, k, t). t \<le> now \<and> hm_get q h = Some (k, t)) q"

definition sample_far :: "instant \<Rightarrow> instant \<Rightarrow> bool" where
  "sample_far now t \<longleftrightarrow> int now + 2 * 365 * 24 * 3600 * 1000000000 < int t"

definition sample_delay :: "(sample_queue, nat) delay_ops" where
  "sample_delay = \<lparr>
     dq_new = hm_new,
     dq_insert_at = (\<lambda>q now k t. if sample_far now t then None
       else Some (sample_fresh q, hm_insert q (sample_fresh q) (k, t))),
     dq_reset_at = (\<lambda>q now h t. if sample_far now t then None
       else map_option (\<lambda>(k, u). hm_insert q h (k, t)) (hm_get q h)),
     dq_remove = (\<lambda>q h. map_option (\<lambda>e. hm_remove q h) (hm_get q h)),
     dq_is_empty = (\<lambda>q. q = []),
     dq_next = (\<lambda>q now. map_option (\<lambda>(h, k, t). (k, hm_remove q h)) (sample_due q now))\<rparr>"

lemma elem_le_sum_list_nat: "n \<in> set ns \<Longrightarrow> n \<le> sum_list ns" for n :: nat
  by (induction ns) auto

lemma sample_fresh_absent: "hm_get q (sample_fresh q) = None"
proof -
  have "n \<le> sum_list (map fst q)" if "n \<in> set (map fst q)" for n
    using that elem_le_sum_list_nat by blast
  then have "sample_fresh q \<notin> set (map fst q)"
    by (metis Suc_n_not_le_n sample_fresh_def)
  then show ?thesis by (simp add: hm_get_def map_of_eq_None_iff)
qed

lemma sample_due_Some: "sample_due q now = Some (h, k, t) \<Longrightarrow> hm_get q h = Some (k, t) \<and> t \<le> now"
  by (auto simp: sample_due_def find_Some_iff)

lemma hm_get_empty_iff: "hm_get q = Map.empty \<longleftrightarrow> q = []"
  by (cases q) (auto simp: hm_get_def fun_eq_iff)

lemma sample_near: "t \<le> now + SAFE_DELAY \<Longrightarrow> \<not> sample_far now t"
  by (simp add: sample_far_def SAFE_DELAY_def)

lemma sample_horizon: "now + 63072000000000000 < t \<Longrightarrow> sample_far now t"
  by (simp add: sample_far_def)

lemma sample_panics:
  "\<exists>horizon. \<forall>q now h k t. now + horizon < t \<longrightarrow>
     dq_insert_at sample_delay q now k t = None \<and> dq_reset_at sample_delay q now h t = None"
  by (rule exI [of _ 63072000000000000]) (simp add: sample_delay_def sample_horizon)

lemma sample_delay_laws: "delay_laws sample_delay hm_get"
  unfolding delay_laws_def
  by (intro conjI sample_panics)
    (auto simp: sample_delay_def sample_fresh_absent hm_get_empty_iff sample_near dest!: sample_due_Some, blast)

definition sample_key :: alarm_key where
  "sample_key = \<lparr>key_device = ''M:OUTTMP'', key_source = Analog\<rparr>"

definition sample_clocks :: clocks where
  "sample_clocks = \<lparr>utc_now = 1000 * 1000000000, instant_now = 7\<rparr>"

definition sample_wake :: "i64 \<Rightarrow> timestamp" where
  "sample_wake secs = \<lparr>ts_seconds = secs, ts_nanos = 0\<rparr>"

definition sample_armed :: "(sample_queue, nat) scheduler" where
  "sample_armed = \<lparr>registry = [(sample_key, 1)], delay_queue = [(1, (sample_key, 60))]\<rparr>"

lemma sample_armed_ok: "sched_ok hm_get sample_armed"
  by (auto simp: sched_ok_def sample_armed_def hm_get_def hm_wf_def)

lemma sint_1060: "sint (1060 :: i64) = 1060"
  by code_simp

lemma sample_instant:
  "timestamp_secs_to_instant sample_chrono sample_clocks (sample_wake 1060) = Some 60000000007"
  by (simp add: timestamp_secs_to_instant_def sample_chrono_def sample_wake_def
      sint_1060 sample_clocks_def MAX_DELAY_def)

definition sample_set :: snooze_input where
  "sample_set = \<lparr>si_key = sample_key, si_wake = Some (sample_wake 1060)\<rparr>"

lemma sample_answer: "answer_to sample_chrono sample_clocks sample_set = Accepted sample_key"
  by (simp add: answer_to_def sample_set_def sample_instant)

text \<open>A wake time twelve years ahead: the deadline is capped, and the queue takes it.\<close>

definition far_set :: snooze_input where
  "far_set = \<lparr>si_key = sample_key, si_wake = Some (sample_wake 400000000)\<rparr>"

lemma sint_400000000: "sint (400000000 :: i64) = 400000000"
  by code_simp

lemma far_commanded:
  "commanded sample_chrono sample_clocks far_set d = (d(sample_key \<mapsto> 31536000000000007), Accepted sample_key)"
  by (simp add: commanded_def far_set_def due_at_def sample_chrono_def sample_wake_def sint_400000000
      sample_clocks_def)

lemma sample_deadline_only:
  "deadline_after sample_chrono sample_clocks sample_set d = d(sample_key \<mapsto> 60000000007)"
  by (simp add: sample_set_def sample_instant)

theorem snooze_command_refines_witness:
  "\<exists>s' ms. handle_snooze_input sample_chrono sample_delay sample_clocks far_set sample_armed
     = Some (s', ms, Accepted sample_key) \<and> deadline hm_get s' sample_key = Some 31536000000000007"
  using snooze_command_refines [OF sample_chrono_laws sample_delay_laws sample_armed_ok, of sample_clocks far_set]
  by (auto simp: far_commanded)

theorem snooze_expiry_witness:
  "\<exists>s' ms. snooze_turn sample_chrono sample_delay (Queue_Polled 61) sample_armed
      = Some (s', ms, [Expired sample_key]) \<and> deadline hm_get s' sample_key = None"
proof -
  have turn: "snooze_turn sample_chrono sample_delay (Queue_Polled 61) sample_armed =
      Some (\<lparr>registry = [], delay_queue = []\<rparr>, [Record_snooze_expiration], [Expired sample_key])"
    by (simp add: sample_delay_def sample_armed_def sample_due_def hm_get_def hm_remove_def)
  from snooze_expiry [OF sample_delay_laws sample_armed_ok turn, of "Expired sample_key"] turn
  show ?thesis by auto
qed

theorem snooze_run_answers_witness:
  "\<exists>s ms rs. snooze_run sample_chrono sample_delay
      [Snooze_Command sample_clocks sample_set, Snooze_Command sample_clocks far_set, Queue_Polled 8]
      (scheduler_new sample_delay) = Some (s, ms, rs) \<and>
     filter (\<lambda>r. \<not> is_expired r) rs = [Accepted sample_key, Accepted sample_key] \<and>
     deadline hm_get s sample_key \<in> {None, Some 31536000000000007}"
proof -
  let ?evs = "[Snooze_Command sample_clocks sample_set, Snooze_Command sample_clocks far_set, Queue_Polled 8]"
  obtain s ms rs where run: "snooze_run sample_chrono sample_delay ?evs (scheduler_new sample_delay) = Some (s, ms, rs)"
    "filter (\<lambda>r. \<not> is_expired r) rs = snd (commanded_run sample_chrono ?evs Map.empty)"
    "deadline hm_get s \<subseteq>\<^sub>m fst (commanded_run sample_chrono ?evs Map.empty)"
    using snooze_run_answers [OF sample_chrono_laws sample_delay_laws, of ?evs
        "\<lparr>cap_automated = 1, cap_user = 1, cap_job = 1, cap_publish = 1, cap_snooze = 1\<rparr>"] by blast
  have "commanded_run sample_chrono ?evs Map.empty =
      ([sample_key \<mapsto> 31536000000000007], [Accepted sample_key, Accepted sample_key])"
    by (simp add: commanded_iff [OF sample_chrono_laws, of _ sample_set] sample_answer sample_deadline_only far_commanded
        del: deadline_after.simps)
  with run show ?thesis by (auto simp: map_le_def dom_def split: if_splits)
qed

lemma sint_1000: "sint (1000 :: i64) = 1000"
  by code_simp

theorem present_wake_accepted_witness:
  "timestamp_secs_to_instant sample_chrono sample_clocks (sample_wake 1000) = Some 7"
  using present_wake_accepted [OF sample_chrono_laws, of "sample_wake 1000" sample_clocks]
  by (simp add: sample_chrono_def sample_wake_def sint_1000 sample_clocks_def)

end
