(* ===== verification/Alarm_Publish.thy ===== *)
theory Alarm_Publish
  imports Effect_Worker Alarm_Metrics
begin

text \<open>
  The publish engine (\<open>src/effects/publish.rs\<close>). The state is the set of delivery attempts
  in flight and the batch of automated results not yet reported. An attempt is a future: it is
  pushed first, starts when it is first polled (this records the attempt and hands the message
  to the publisher) and finishes with the publisher's answer. JSON serialization is the
  parameter \<open>to_json\<close>; the engine panics where the code's \<open>expect\<close> would.
  \<open>port_open\<close> says whether the workflow handler still receives.
\<close>

section \<open>The engine\<close>

definition BATCH_SIZE :: nat where "BATCH_SIZE = 50"
definition MAX_DELIVERY_ATTEMPTS :: u8 where "MAX_DELIVERY_ATTEMPTS = 2"

type_synonym serializer = "status \<Rightarrow> string option"

datatype publish_effect =
  To_Workflow publish_outcome
| To_Publisher string_message
| Publish_Metric metric_event

record publish_engine =
  in_flight :: "(publish_attempt \<times> instant option) list"
  completed_batch :: "publish_result list"

definition engine_new :: publish_engine where
  "engine_new = \<lparr>in_flight = [], completed_batch = []\<rparr>"

definition port_send :: "bool \<Rightarrow> publish_outcome \<Rightarrow> publish_effect list" where
  "port_send port_open r = (if port_open then [To_Workflow r] else [])"

definition flush_completed_batch ::
  "bool \<Rightarrow> publish_result list \<Rightarrow> publish_result list \<times> publish_effect list" where
  "flush_completed_batch port_open batch = ([], port_send port_open (Batch batch))"

definition handle_completed_work ::
  "bool \<Rightarrow> publish_attempt symmetrical_result \<Rightarrow> publish_result list \<Rightarrow>
   publish_result list \<times> publish_effect list" where
  "handle_completed_work port_open completed_work batch =
     (let is_user_initiated = publish_is_user_initiated (pa_request (sym_inner_ref completed_work));
          response = sym_map (\<lambda>inner. pd_key (publish_into_details (pa_request inner))) completed_work in
      if is_user_initiated then (batch, port_send port_open (Single response))
      else
        (let batch = batch @ [response] in
         if BATCH_SIZE \<le> length batch then flush_completed_batch port_open batch
         else (batch, [])))"

definition alarm_to_message :: "serializer \<Rightarrow> alarm_key \<Rightarrow> status \<Rightarrow> string_message option" where
  "alarm_to_message to_json key payload =
     map_option (\<lambda>body. \<lparr>msg_key = Some (key_to_string key), msg_body = body\<rparr>) (to_json payload)"

text \<open>The two halves of \<open>deliver_attempt\<close>: before and after the publisher's answer.\<close>

definition deliver_start :: "serializer \<Rightarrow> publish_attempt \<Rightarrow> publish_effect list option" where
  "deliver_start to_json attempt =
     (let details = attempt_details_ref attempt in
      map_option (\<lambda>record. [Publish_Metric Record_publish_attempt_started, To_Publisher record])
        (alarm_to_message to_json (pd_key details) (pd_status details)))"

definition deliver_finish ::
  "publish_attempt \<Rightarrow> instant \<Rightarrow> bool \<Rightarrow> instant \<Rightarrow> publish_attempt symmetrical_result \<times> duration" where
  "deliver_finish attempt started_at accepted now =
     (if accepted then Sym_Ok attempt else Sym_Err attempt, now - started_at)"

text \<open>What the loop does with the result of an attempt.\<close>

definition attempt_done ::
  "bool \<Rightarrow> publish_attempt symmetrical_result \<times> duration \<Rightarrow> publish_engine \<Rightarrow>
   publish_engine \<times> publish_effect list" where
  "attempt_done port_open timed e =
     (case timed of
        (Sym_Ok attempt, latency) \<Rightarrow>
          (let (batch, es) = handle_completed_work port_open (Sym_Ok attempt) (completed_batch e) in
           (e\<lparr>completed_batch := batch\<rparr>, Publish_Metric (Record_publish_completion Success latency) # es))
      | (Sym_Err attempt, latency) \<Rightarrow>
          if pa_attempt_count attempt < MAX_DELIVERY_ATTEMPTS then
            (e\<lparr>in_flight := in_flight e @ [(increment_attempt attempt, None)]\<rparr>,
             [Publish_Metric (Record_publish_completion Failure latency),
              Publish_Metric Record_publish_retry])
          else
            (let (batch, es) = handle_completed_work port_open (Sym_Err attempt) (completed_batch e) in
             (e\<lparr>completed_batch := batch\<rparr>, Publish_Metric (Record_publish_completion Failure latency) # es)))"

definition drop_nth :: "nat \<Rightarrow> 'a list \<Rightarrow> 'a list" where
  "drop_nth n xs = take n xs @ drop (Suc n) xs"

text \<open>
  The events of the loop. \<open>Attempt_Polled n now\<close> is the first poll of the n-th attempt,
  \<open>Attempt_Answered n ok now\<close> the publisher's answer to it; on an attempt in another phase
  they do nothing.
\<close>

datatype publish_event =
  Attempt_Polled nat instant
| Attempt_Answered nat bool instant
| Flush_Tick
| Got_Request publish

fun publish_turn ::
  "serializer \<Rightarrow> bool \<Rightarrow> publish_event \<Rightarrow> publish_engine \<Rightarrow> (publish_engine \<times> publish_effect list) option" where
  "publish_turn to_json port_open (Attempt_Polled n now) e =
     (if n < length (in_flight e) then
        (case in_flight e ! n of
           (attempt, None) \<Rightarrow>
             map_option (\<lambda>es. (e\<lparr>in_flight := (in_flight e)[n := (attempt, Some now)]\<rparr>, es))
               (deliver_start to_json attempt)
         | (attempt, Some _) \<Rightarrow> Some (e, []))
      else Some (e, []))"
| "publish_turn to_json port_open (Attempt_Answered n accepted now) e =
     (if n < length (in_flight e) then
        (case in_flight e ! n of
           (attempt, Some started_at) \<Rightarrow>
             Some (attempt_done port_open (deliver_finish attempt started_at accepted now)
               (e\<lparr>in_flight := drop_nth n (in_flight e)\<rparr>))
         | (attempt, None) \<Rightarrow> Some (e, []))
      else Some (e, []))"
| "publish_turn to_json port_open Flush_Tick e =
     (if completed_batch e \<noteq> [] then
        (let (batch, es) = flush_completed_batch port_open (completed_batch e) in
         Some (e\<lparr>completed_batch := batch\<rparr>, es))
      else Some (e, []))"
| "publish_turn to_json port_open (Got_Request publish) e =
     Some (e\<lparr>in_flight := in_flight e @ [(attempt_new publish, None)]\<rparr>, [])"

section \<open>The contract of an effect worker\<close>

definition request_key :: "publish \<Rightarrow> alarm_key" where
  "request_key p = pd_key (publish_details_ref p)"

definition attempt_key :: "publish_attempt \<Rightarrow> alarm_key" where
  "attempt_key a = request_key (pa_request a)"

fun outcome_results :: "publish_outcome \<Rightarrow> publish_result list" where
  "outcome_results (Batch rs) = rs"
| "outcome_results (Single r) = [r]"

fun publish_answered :: "publish_effect \<Rightarrow> alarm_key list" where
  "publish_answered (To_Workflow r) = map sym_into_inner (outcome_results r)"
| "publish_answered _ = []"

fun publish_taken :: "publish_event \<Rightarrow> alarm_key list" where
  "publish_taken (Got_Request p) = [request_key p]"
| "publish_taken _ = []"

definition publish_held :: "publish_engine \<Rightarrow> alarm_key multiset" where
  "publish_held e = mset (map (attempt_key \<circ> fst) (in_flight e)) +
     mset (map sym_into_inner (completed_batch e))"

text \<open>
  Attempt counts stay within one and the maximum, only automated results wait in the batch and
  fewer of them than a full batch.
\<close>

definition engine_ok :: "publish_engine \<Rightarrow> bool" where
  "engine_ok e \<longleftrightarrow> (\<forall>x\<in>set (in_flight e). pa_attempt_count (fst x) \<in> {1, 2}) \<and>
     length (completed_batch e) < BATCH_SIZE"

lemma mset_drop_nth:
  assumes "n < length xs"
  shows "mset xs = add_mset (xs ! n) (mset (drop_nth n xs))"
proof -
  have "xs = take n xs @ xs ! n # drop (Suc n) xs" using assms by (rule id_take_nth_drop)
  then have "mset xs = mset (take n xs @ xs ! n # drop (Suc n) xs)" by simp
  then show ?thesis by (simp add: drop_nth_def)
qed

lemma set_drop_nth: "set (drop_nth n xs) \<subseteq> set xs"
  using set_take_subset set_drop_subset by (fastforce simp: drop_nth_def)

lemma map_mset_drop_nth:
  "n < length xs \<Longrightarrow> mset (map f xs) = add_mset (f (xs ! n)) (mset (map f (drop_nth n xs)))"
  using mset_drop_nth [of n xs] by simp

lemma map_update_same: "n < length xs \<Longrightarrow> f y = f (xs ! n) \<Longrightarrow> map f (xs[n := y]) = map f xs"
  by (metis list_update_id map_update)

lemma completed_conserves:
  "handle_completed_work True r batch = (batch', es) \<Longrightarrow>
     mset (map sym_into_inner batch') + keys_of publish_answered es =
     add_mset (attempt_key (sym_into_inner r)) (mset (map sym_into_inner batch))"
  by (auto simp: handle_completed_work_def flush_completed_batch_def port_send_def Let_def
      attempt_key_def request_key_def split: if_splits)

lemma completed_bounded:
  "handle_completed_work po r batch = (batch', es) \<Longrightarrow> length batch < BATCH_SIZE \<Longrightarrow>
     length batch' < BATCH_SIZE"
  by (auto simp: handle_completed_work_def flush_completed_batch_def Let_def BATCH_SIZE_def
      split: if_splits)

lemma increment_key [simp]: "attempt_key (increment_attempt a) = attempt_key a"
  by (simp add: attempt_key_def)

lemma new_key [simp]: "attempt_key (attempt_new p) = request_key p"
  by (simp add: attempt_key_def attempt_new_def)

lemma increment_count: "pa_attempt_count a = 1 \<Longrightarrow> pa_attempt_count (increment_attempt a) = 2"
  by (simp add: increment_attempt_def sat_add_def)

lemma attempt_done_conserves:
  "attempt_done True (r, l) e = (e', es) \<Longrightarrow>
     publish_held e' + keys_of publish_answered es = add_mset (attempt_key (sym_into_inner r)) (publish_held e)"
  by (auto simp: attempt_done_def publish_held_def ac_simps dest!: completed_conserves
      split: symmetrical_result.splits if_splits prod.splits)

lemma attempt_done_ok:
  assumes "engine_ok e" and "pa_attempt_count (sym_into_inner r) \<in> {1, 2}"
    and "attempt_done po (r, l) e = (e', es)"
  shows "engine_ok e'"
  using assms
  by (auto simp: attempt_done_def engine_ok_def MAX_DELIVERY_ATTEMPTS_def increment_count
      dest!: completed_bounded split: symmetrical_result.splits if_splits prod.splits)

lemma finish_inner [simp]: "sym_into_inner (fst (deliver_finish a t acc now)) = a"
  by (simp add: deliver_finish_def)

lemma publish_turn_ok:
  assumes ok: "engine_ok e" and turn: "publish_turn to_json po ev e = Some (e', es)"
  shows "engine_ok e'"
proof (cases ev)
  case (Attempt_Answered n acc now)
  show ?thesis
  proof (cases "n < length (in_flight e) \<and> snd (in_flight e ! n) \<noteq> None")
    case True
    then obtain a t where a: "in_flight e ! n = (a, Some t)" "n < length (in_flight e)"
      by (cases "in_flight e ! n") auto
    have "(a, Some t) \<in> set (in_flight e)" using a nth_mem by metis
    then have "pa_attempt_count a \<in> {1, 2}" using ok by (auto simp: engine_ok_def)
    moreover have "engine_ok (e\<lparr>in_flight := drop_nth n (in_flight e)\<rparr>)"
      using ok set_drop_nth [of n "in_flight e"] by (auto simp: engine_ok_def)
    ultimately show ?thesis
      using turn a Attempt_Answered attempt_done_ok
      by (cases "deliver_finish a t acc now") (metis (no_types, lifting) finish_inner fst_conv
          option.inject option.simps(5) prod.simps(2) publish_turn.simps(2))
  next
    case False
    then show ?thesis using turn ok Attempt_Answered
      by (auto split: if_splits prod.splits option.splits)
  qed
next
  case (Attempt_Polled n now)
  then show ?thesis using turn ok
    by (auto simp: engine_ok_def dest!: set_update_subset_insert [THEN subsetD]
        split: if_splits prod.splits option.splits)
      (metis fst_conv insertE nth_mem set_update_subset_insert subsetD)+
next
  case Flush_Tick
  then show ?thesis using turn ok
    by (auto simp: engine_ok_def flush_completed_batch_def BATCH_SIZE_def split: if_splits)
next
  case (Got_Request p)
  then show ?thesis using turn ok by (auto simp: engine_ok_def attempt_new_def)
qed

lemma publish_turn_conserves:
  assumes turn: "publish_turn to_json True ev e = Some (e', es)"
  shows "mset (publish_taken ev) + publish_held e = publish_held e' + keys_of publish_answered es"
proof (cases ev)
  case (Attempt_Answered n acc now)
  show ?thesis
  proof (cases "n < length (in_flight e) \<and> snd (in_flight e ! n) \<noteq> None")
    case True
    then obtain a t where a: "in_flight e ! n = (a, Some t)" "n < length (in_flight e)"
      by (cases "in_flight e ! n") auto
    let ?e = "e\<lparr>in_flight := drop_nth n (in_flight e)\<rparr>"
    have "publish_held e = add_mset (attempt_key a) (publish_held ?e)"
      using map_mset_drop_nth [OF a(2), of "attempt_key \<circ> fst"] a(1) by (simp add: publish_held_def)
    moreover obtain r l where r: "deliver_finish a t acc now = (r, l)" by fastforce
    ultimately show ?thesis
      using turn a Attempt_Answered attempt_done_conserves [of r l ?e e' es] finish_inner [of a t acc now] by simp
  next
    case False
    then show ?thesis using turn Attempt_Answered by (auto split: if_splits prod.splits option.splits)
  qed
next
  case (Attempt_Polled n now)
  have "publish_held (e\<lparr>in_flight := (in_flight e)[n := (a, Some now)]\<rparr>) = publish_held e"
    if "n < length (in_flight e)" "in_flight e ! n = (a, None)" for a
    using that map_update_same [of n "in_flight e" "attempt_key \<circ> fst" "(a, Some now)"]
    by (simp add: publish_held_def)
  then show ?thesis using turn Attempt_Polled
    by (auto simp: deliver_start_def Let_def split: if_splits prod.splits option.splits)
next
  case Flush_Tick
  then show ?thesis using turn
    by (auto simp: publish_held_def flush_completed_batch_def port_send_def split: if_splits)
next
  case (Got_Request p)
  then show ?thesis using turn by (auto simp: publish_held_def)
qed

lemma publish_turn_total:
  "\<forall>st. to_json st \<noteq> None \<Longrightarrow> \<exists>e' es. publish_turn to_json po ev e = Some (e', es)"
proof -
  assume total: "\<forall>st. to_json st \<noteq> None"
  then have "publish_turn to_json po ev e \<noteq> None"
    by (cases ev) (simp_all add: deliver_start_def alarm_to_message_def Let_def
      flush_completed_batch_def split: prod.split option.split)
  then show ?thesis by fastforce
qed

interpretation publisher: effect_worker "publish_turn to_json True"
    "\<lambda>e. (\<forall>st. to_json st \<noteq> None) \<and> engine_ok e" publish_taken publish_held publish_answered
  for to_json
  using publish_turn_total publish_turn_ok publish_turn_conserves by unfold_locales blast+

lemma engine_ok_new: "engine_ok engine_new"
  by (simp add: engine_ok_def engine_new_def BATCH_SIZE_def)

lemma publish_held_new [simp]: "publish_held engine_new = {#}"
  by (simp add: publish_held_def engine_new_def)

lemma publish_held_empty_iff: "publish_held e = {#} \<longleftrightarrow> in_flight e = [] \<and> completed_batch e = []"
  by (auto simp: publish_held_def)

text \<open>
  C20: whatever requests arrive, however the publisher answers and whenever the flush timer
  ticks, the engine never panics, and the keys of the requests it took are exactly those of
  the attempts in flight, of the results waiting in the batch and of the results sent: no
  request is dropped and none is answered twice. A batch is sent before it exceeds its size.
\<close>

theorem publish_accounts:
  assumes "\<forall>st. to_json st \<noteq> None"
  shows "\<exists>e es. run_turns (publish_turn to_json True) evs engine_new = Some (e, es) \<and>
    keys_of publish_taken evs =
      mset (map (attempt_key \<circ> fst) (in_flight e)) + mset (map sym_into_inner (completed_batch e)) +
      keys_of publish_answered es \<and>
    length (completed_batch e) < BATCH_SIZE"
  using publisher.run_total [OF conjI [OF assms engine_ok_new], of evs]
  by (auto simp: publish_held_def engine_ok_def engine_new_def)

section \<open>The retry policy\<close>

definition report ::
  "bool \<Rightarrow> publish_attempt \<Rightarrow> bool \<Rightarrow> publish_result list \<Rightarrow> publish_result list \<times> publish_outcome list" where
  "report is_user a accepted batch =
     (let r = (if accepted then Sym_Ok else Sym_Err) (attempt_key a) in
      if is_user then (batch, [Single r])
      else if length batch + 1 < 50 then (batch @ [r], [])
      else ([], [Batch (batch @ [r])]))"

fun sent_outcome :: "publish_effect \<Rightarrow> publish_outcome list" where
  "sent_outcome (To_Workflow r) = [r]"
| "sent_outcome _ = []"

definition sent_outcomes :: "publish_effect list \<Rightarrow> publish_outcome list" where
  "sent_outcomes es = List.concat (map sent_outcome es)"

lemma sent_outcomes_simps [simp]:
  "sent_outcomes [] = []" "sent_outcomes (x # xs) = sent_outcome x @ sent_outcomes xs"
  "sent_outcomes (xs @ ys) = sent_outcomes xs @ sent_outcomes ys"
  by (simp_all add: sent_outcomes_def)

lemma completed_reports:
  "handle_completed_work True (if acc then Sym_Ok a else Sym_Err a) batch = (batch', es) \<Longrightarrow>
     report (publish_is_user_initiated (pa_request a)) a acc batch = (batch', sent_outcomes es)"
  by (auto simp: handle_completed_work_def flush_completed_batch_def port_send_def Let_def
      report_def BATCH_SIZE_def attempt_key_def request_key_def split: if_splits)

text \<open>
  C31: the retry policy. A first attempt that fails is put back as the second attempt of the
  same request and nothing is reported; a success, or the failure of the second attempt, ends
  the request: its result is reported at once to the workflow when a user asked for it, and
  otherwise joins the batch, which is sent when it holds fifty results.
\<close>

theorem publish_retry_policy:
  assumes "engine_ok e" and "n < length (in_flight e)" and "in_flight e ! n = (a, Some t)"
  shows "\<exists>e' es. publish_turn to_json True (Attempt_Answered n acc now) e = Some (e', es) \<and>
    (if \<not> acc \<and> pa_attempt_count a = 1 then
       in_flight e' = drop_nth n (in_flight e) @ [(a\<lparr>pa_attempt_count := 2\<rparr>, None)] \<and>
       completed_batch e' = completed_batch e \<and> sent_outcomes es = []
     else
       in_flight e' = drop_nth n (in_flight e) \<and>
       (completed_batch e', sent_outcomes es) =
         report (publish_is_user_initiated (pa_request a)) a acc (completed_batch e))"
proof -
  have "(a, Some t) \<in> set (in_flight e)" using assms(2,3) nth_mem by metis
  then have c: "pa_attempt_count a = 1 \<or> pa_attempt_count a = 2"
    using assms(1) by (auto simp: engine_ok_def)
  show ?thesis
  proof (cases "\<not> acc \<and> pa_attempt_count a = 1")
    case True
    then show ?thesis using assms(2,3)
      by (simp add: deliver_finish_def attempt_done_def MAX_DELIVERY_ATTEMPTS_def
          increment_attempt_def sat_add_def)
  next
    case False
    obtain b es where b: "handle_completed_work True (if acc then Sym_Ok a else Sym_Err a)
        (completed_batch e) = (b, es)" by fastforce
    from completed_reports [OF b] b False c assms(2,3) show ?thesis
      by (auto simp: deliver_finish_def attempt_done_def MAX_DELIVERY_ATTEMPTS_def)
  qed
qed

section \<open>At most two deliveries\<close>

fun delivery :: "string \<Rightarrow> publish_effect \<Rightarrow> nat" where
  "delivery s (To_Publisher m) = (if msg_key m = Some s then 1 else 0)"
| "delivery s _ = 0"

definition deliveries :: "string \<Rightarrow> publish_effect list \<Rightarrow> nat" where
  "deliveries s es = sum_list (map (delivery s) es)"

fun remaining :: "string \<Rightarrow> publish_attempt \<times> instant option \<Rightarrow> nat" where
  "remaining s (a, None) = (if key_to_string (attempt_key a) = s then 3 - unat (pa_attempt_count a) else 0)"
| "remaining s (a, Some t) = (if key_to_string (attempt_key a) = s then 2 - unat (pa_attempt_count a) else 0)"

definition budget :: "string \<Rightarrow> publish_engine \<Rightarrow> nat" where
  "budget s e = sum_list (map (remaining s) (in_flight e))"

definition requests :: "string \<Rightarrow> publish_event list \<Rightarrow> nat" where
  "requests s evs = length (filter (\<lambda>k. key_to_string k = s) (List.concat (map publish_taken evs)))"

lemma deliveries_simps [simp]:
  "deliveries s [] = 0" "deliveries s (x # xs) = delivery s x + deliveries s xs"
  "deliveries s (xs @ ys) = deliveries s xs + deliveries s ys"
  by (simp_all add: deliveries_def)

lemma sum_list_drop_nth:
  "n < length xs \<Longrightarrow> sum_list (map f xs) = f (xs ! n) + (sum_list (map f (drop_nth n xs)) :: nat)"
  using map_mset_drop_nth [of n xs f] by (metis sum_mset.add_mset sum_mset_sum_list)

lemma sum_list_update_nth:
  assumes "n < length xs"
  shows "sum_list (map f (xs[n := y])) + f (xs ! n) = sum_list (map f xs) + (f y :: nat)"
  using assms
proof (induction xs arbitrary: n)
  case (Cons x xs)
  then show ?case by (cases n) auto
qed simp

lemma completed_deliveries:
  "handle_completed_work po r batch = (batch', es) \<Longrightarrow> deliveries s es = 0"
  by (auto simp: handle_completed_work_def flush_completed_batch_def port_send_def Let_def
      split: if_splits)

lemma attempt_done_budget:
  assumes "pa_attempt_count (sym_into_inner r) \<in> {1, 2}" and "attempt_done po (r, l) e = (e', es)"
  shows "deliveries s es + budget s e' \<le> remaining s (sym_into_inner r, Some t) + budget s e"
  using assms
  by (auto simp: attempt_done_def budget_def MAX_DELIVERY_ATTEMPTS_def increment_count
      completed_deliveries split: symmetrical_result.splits if_splits prod.splits)

lemma publish_turn_budget:
  assumes ok: "engine_ok e" and turn: "publish_turn to_json po ev e = Some (e', es)"
  shows "deliveries s es + budget s e' \<le> budget s e + 2 * requests s [ev]"
proof (cases ev)
  case (Attempt_Answered n acc now)
  show ?thesis
  proof (cases "n < length (in_flight e) \<and> snd (in_flight e ! n) \<noteq> None")
    case True
    then obtain a t where a: "in_flight e ! n = (a, Some t)" "n < length (in_flight e)"
      by (cases "in_flight e ! n") auto
    let ?e = "e\<lparr>in_flight := drop_nth n (in_flight e)\<rparr>"
    have "(a, Some t) \<in> set (in_flight e)" using a nth_mem by metis
    then have c: "pa_attempt_count a \<in> {1, 2}" using ok by (auto simp: engine_ok_def)
    have b: "budget s e = remaining s (a, Some t) + budget s ?e"
      using sum_list_drop_nth [OF a(2), of "remaining s"] a(1) by (simp add: budget_def)
    obtain r l where r: "deliver_finish a t acc now = (r, l)" by fastforce
    with finish_inner [of a t acc now] have ra: "sym_into_inner r = a" by simp
    show ?thesis
      using turn a Attempt_Answered r c b attempt_done_budget [of r po l ?e e' es s t, unfolded ra] by simp
  next
    case False
    then show ?thesis using turn Attempt_Answered by (auto split: if_splits prod.splits option.splits)
  qed
next
  case (Attempt_Polled n now)
  show ?thesis
  proof (cases "n < length (in_flight e) \<and> snd (in_flight e ! n) = None")
    case True
    then obtain a where a: "in_flight e ! n = (a, None)" "n < length (in_flight e)"
      by (cases "in_flight e ! n") auto
    have "(a, None) \<in> set (in_flight e)" using a nth_mem by metis
    then have c: "pa_attempt_count a \<in> {1, 2}" using ok by (auto simp: engine_ok_def)
    have e': "e' = e\<lparr>in_flight := (in_flight e)[n := (a, Some now)]\<rparr>"
      and es: "deliveries s es = (if key_to_string (attempt_key a) = s then 1 else 0)"
      using turn a Attempt_Polled
      by (auto simp: deliver_start_def Let_def alarm_to_message_def attempt_key_def request_key_def
          attempt_details_ref_def)
    show ?thesis
      using sum_list_update_nth [OF a(2), of "remaining s" "(a, Some now)"] a(1) c es
      by (auto simp: e' budget_def)
  next
    case False
    then show ?thesis using turn Attempt_Polled by (auto split: if_splits prod.splits option.splits)
  qed
next
  case Flush_Tick
  then show ?thesis using turn
    by (auto simp: budget_def flush_completed_batch_def port_send_def split: if_splits)
next
  case (Got_Request p)
  then show ?thesis using turn by (auto simp: budget_def requests_def attempt_new_def attempt_key_def)
qed

lemma requests_Cons: "requests s (ev # evs) = requests s [ev] + requests s evs"
  by (simp add: requests_def)

lemma publish_run_budget:
  "engine_ok e \<Longrightarrow> run_turns (publish_turn to_json po) evs e = Some (e', es) \<Longrightarrow>
     deliveries s es + budget s e' \<le> budget s e + 2 * requests s evs"
proof (induction evs arbitrary: e es)
  case Nil
  then show ?case by (simp add: requests_def)
next
  case (Cons ev evs)
  from Cons.prems(2) obtain e1 es1 es2 where
    t: "publish_turn to_json po ev e = Some (e1, es1)"
    and r: "run_turns (publish_turn to_json po) evs e1 = Some (e', es2)" and es: "es = es1 @ es2"
    by (auto split: option.splits)
  show ?case
    using publish_turn_budget [OF Cons.prems(1) t, of s] Cons.IH [OF publish_turn_ok [OF Cons.prems(1) t] r]
    by (simp add: es requests_Cons [of s ev evs])
qed

text \<open>
  The publisher is asked to deliver at most two messages per request: over any run, the
  messages sent under an alarm's key are at most twice the requests taken for it.
\<close>

theorem deliveries_bounded:
  assumes "run_turns (publish_turn to_json po) evs engine_new = Some (e, es)"
  shows "deliveries s es \<le> 2 * requests s evs"
  using publish_run_budget [OF engine_ok_new assms, of s] by (simp add: budget_def engine_new_def)

section \<open>Every request is settled\<close>

text \<open>
  The work left on an attempt: each of its possible starts and finishes counts one, those of
  the retry included. It bounds the turns the engine needs before nothing is in flight.
\<close>

fun attempt_work :: "publish_attempt \<times> instant option \<Rightarrow> nat" where
  "attempt_work (a, None) = 6 - 2 * unat (pa_attempt_count a)"
| "attempt_work (a, Some t) = 5 - 2 * unat (pa_attempt_count a)"

definition engine_work :: "publish_engine \<Rightarrow> nat" where
  "engine_work e = sum_list (map attempt_work (in_flight e))"

lemma attempt_work_pos: "pa_attempt_count (fst x) \<in> {1, 2} \<Longrightarrow> 0 < attempt_work x"
  by (cases x; cases "snd x") auto

lemma done_work:
  assumes "pa_attempt_count (sym_into_inner r) \<in> {1, 2}" and "attempt_done po (r, l) e = (e', es)"
  shows "engine_work e' < attempt_work (sym_into_inner r, Some t) + engine_work e"
  using assms
  by (auto simp: attempt_done_def engine_work_def MAX_DELIVERY_ATTEMPTS_def increment_count
      split: symmetrical_result.splits if_splits prod.splits)

lemma poll_work:
  assumes ok: "engine_ok e" and n: "n < length (in_flight e)" "in_flight e ! n = (a, None)"
    and turn: "publish_turn to_json po (Attempt_Polled n now) e = Some (e', es)"
  shows "engine_work e' < engine_work e"
proof -
  have "(a, None) \<in> set (in_flight e)" using n nth_mem by metis
  then have c: "pa_attempt_count a \<in> {1, 2}" using ok by (auto simp: engine_ok_def)
  have "e' = e\<lparr>in_flight := (in_flight e)[n := (a, Some now)]\<rparr>"
    using turn n by (auto simp: deliver_start_def Let_def)
  then show ?thesis
    using sum_list_update_nth [OF n(1), of attempt_work "(a, Some now)"] n(2) c
    by (auto simp: engine_work_def)
qed

lemma answer_work:
  assumes ok: "engine_ok e" and n: "n < length (in_flight e)" "in_flight e ! n = (a, Some t)"
    and turn: "publish_turn to_json po (Attempt_Answered n acc now) e = Some (e', es)"
  shows "engine_work e' < engine_work e"
proof -
  have "(a, Some t) \<in> set (in_flight e)" using n nth_mem by metis
  then have c: "pa_attempt_count a \<in> {1, 2}" using ok by (auto simp: engine_ok_def)
  let ?e = "e\<lparr>in_flight := drop_nth n (in_flight e)\<rparr>"
  obtain r l where r: "deliver_finish a t acc now = (r, l)" by fastforce
  with finish_inner [of a t acc now] have ra: "sym_into_inner r = a" by simp
  have "engine_work e = attempt_work (a, Some t) + engine_work ?e"
    using sum_list_drop_nth [OF n(1), of attempt_work] n(2) by (simp add: engine_work_def)
  then show ?thesis
    using turn n r c done_work [of r po l ?e e' es t, unfolded ra] by simp
qed

text \<open>An attempt's next event, with the publisher's answer left to the environment.\<close>

fun next_event :: "bool \<Rightarrow> instant \<Rightarrow> publish_attempt \<times> instant option \<Rightarrow> publish_event" where
  "next_event acc now (_, None) = Attempt_Polled 0 now"
| "next_event acc now (_, Some _) = Attempt_Answered 0 acc now"

fun settle :: "serializer \<Rightarrow> (nat \<Rightarrow> bool) \<Rightarrow> instant \<Rightarrow> nat \<Rightarrow> publish_engine \<Rightarrow>
    (publish_engine \<times> publish_effect list) option" where
  "settle to_json acc now 0 e = publish_turn to_json True Flush_Tick e"
| "settle to_json acc now (Suc fuel) e =
     (case in_flight e of
        [] \<Rightarrow> publish_turn to_json True Flush_Tick e
      | x # xs \<Rightarrow>
          (case publish_turn to_json True (next_event (acc fuel) now x) e of
             None \<Rightarrow> None
           | Some (e1, es) \<Rightarrow>
               map_option (\<lambda>(e2, es2). (e2, es @ es2)) (settle to_json acc now fuel e1)))"

lemma next_work:
  assumes "engine_ok e" and "in_flight e = x # xs"
    and "publish_turn to_json po (next_event acc now x) e = Some (e', es)"
  shows "engine_work e' < engine_work e"
proof -
  obtain a t where x: "x = (a, t)" by fastforce
  show ?thesis
    using assms poll_work [OF assms(1), of 0 a to_json po now e' es]
      answer_work [OF assms(1), of 0 a _ to_json po acc now e' es]
    unfolding x by (cases t) simp_all
qed

lemma flush_settles:
  assumes "in_flight e = []"
  shows "\<exists>e' es. publish_turn to_json True Flush_Tick e = Some (e', es) \<and>
    in_flight e' = [] \<and> completed_batch e' = [] \<and> keys_of publish_answered es = publish_held e"
  using assms by (auto simp: flush_completed_batch_def port_send_def publish_held_def)

lemma next_taken [simp]: "publish_taken (next_event acc now x) = []"
  by (cases x; cases "snd x") auto

lemma settle_ok:
  assumes total: "\<forall>st. to_json st \<noteq> None"
  shows "engine_ok e \<Longrightarrow> engine_work e \<le> fuel \<Longrightarrow>
    \<exists>e' es. settle to_json acc now fuel e = Some (e', es) \<and>
      in_flight e' = [] \<and> completed_batch e' = [] \<and> keys_of publish_answered es = publish_held e"
proof (induction fuel arbitrary: e)
  case 0
  have "in_flight e = []"
  proof (rule ccontr)
    assume "in_flight e \<noteq> []"
    then obtain x xs where x: "in_flight e = x # xs" by (cases "in_flight e") auto
    then have "0 < attempt_work x" using 0(1) by (auto simp: engine_ok_def intro!: attempt_work_pos)
    then show False using 0(2) x by (simp add: engine_work_def)
  qed
  from flush_settles [OF this] show ?case by simp
next
  case (Suc fuel)
  show ?case
  proof (cases "in_flight e")
    case Nil
    from flush_settles [OF this] Nil show ?thesis by simp
  next
    case (Cons x xs)
    obtain e1 es1 where t: "publish_turn to_json True (next_event (acc fuel) now x) e = Some (e1, es1)"
      using publish_turn_total [OF total] by blast
    have "engine_work e1 \<le> fuel" using next_work [OF Suc.prems(1) Cons t] Suc.prems(2) by simp
    from Suc.IH [OF publish_turn_ok [OF Suc.prems(1) t] this] Cons t publish_turn_conserves [OF t]
    show ?thesis by (auto simp: ac_simps)
  qed
qed

lemma engine_work_bound:
  "engine_ok e \<Longrightarrow> engine_work e \<le> 4 * length (in_flight e)"
proof -
  assume "engine_ok e"
  then have "\<forall>x\<in>set (in_flight e). attempt_work x \<le> 4"
    by (auto simp: engine_ok_def) (case_tac b; force)
  then have "sum_list (map attempt_work xs) \<le> 4 * length xs" if "set xs \<subseteq> set (in_flight e)" for xs
    using that by (induction xs) auto
  then show ?thesis by (simp add: engine_work_def)
qed

text \<open>
  Every request is settled. If attempts are polled and the publisher answers, whatever its
  answers are, then four turns per attempt in flight and one tick of the flush timer
  are enough for every request the engine holds to be answered, once.
\<close>

theorem publish_settles:
  assumes "\<forall>st. to_json st \<noteq> None" and "engine_ok e"
  shows "\<exists>e' es. settle to_json acc now (4 * length (in_flight e)) e = Some (e', es) \<and>
    in_flight e' = [] \<and> completed_batch e' = [] \<and>
    keys_of publish_answered es =
      mset (map (attempt_key \<circ> fst) (in_flight e)) + mset (map sym_into_inner (completed_batch e))"
  using settle_ok [OF assms engine_work_bound [OF assms(2)]] by (simp add: publish_held_def)

section \<open>Witnesses\<close>

definition sample_json :: serializer where
  "sample_json st = Some (''{device:'' @ st_device st @ ''}'')"

lemma sample_json_total: "\<forall>st. sample_json st \<noteq> None"
  by (simp add: sample_json_def)

definition sample_details :: "string \<Rightarrow> publish_details" where
  "sample_details d = \<lparr>pd_key = \<lparr>key_device = d, key_source = Analog\<rparr>, pd_status = status_default\<lparr>st_device := d\<rparr>\<rparr>"

definition sample_engine :: publish_engine where
  "sample_engine = \<lparr>
     in_flight = [(attempt_new (Publish_User (sample_details ''A'')), Some 5),
                  (attempt_new (Publish_Automated (sample_details ''B'')), None)],
     completed_batch = [Sym_Ok \<lparr>key_device = ''C'', key_source = Epics\<rparr>]\<rparr>"

lemma sample_engine_ok: "engine_ok sample_engine"
  by (simp add: engine_ok_def sample_engine_def attempt_new_def BATCH_SIZE_def)

theorem publish_accounts_witness:
  "\<exists>e es. run_turns (publish_turn sample_json True)
       [Got_Request (Publish_User (sample_details ''A'')), Attempt_Polled 0 1, Attempt_Answered 0 True 4]
       engine_new = Some (e, es) \<and> in_flight e = [] \<and> completed_batch e = [] \<and>
     keys_of publish_answered es = {#\<lparr>key_device = ''A'', key_source = Analog\<rparr>#}"
proof -
  let ?evs = "[Got_Request (Publish_User (sample_details ''A'')), Attempt_Polled 0 1, Attempt_Answered 0 True 4]"
  have run: "\<exists>e es. run_turns (publish_turn sample_json True) ?evs engine_new = Some (e, es) \<and>
      in_flight e = [] \<and> completed_batch e = []"
    by (simp add: engine_new_def attempt_new_def deliver_start_def alarm_to_message_def sample_json_def Let_def
        attempt_done_def deliver_finish_def handle_completed_work_def drop_nth_def)
  with publish_accounts [OF sample_json_total, of ?evs] show ?thesis
    by (auto simp: request_key_def sample_details_def simp del: run_turns.simps)
qed

theorem publish_retry_policy_witness:
  "\<exists>e' es. publish_turn sample_json True (Attempt_Answered 0 False 9) sample_engine = Some (e', es) \<and>
     length (in_flight e') = 2 \<and> sent_outcomes es = []"
proof -
  have n: "0 < length (in_flight sample_engine)"
    "in_flight sample_engine ! 0 = (attempt_new (Publish_User (sample_details ''A'')), Some 5)"
    by (simp_all add: sample_engine_def)
  from publish_retry_policy [OF sample_engine_ok n, of sample_json False 9] show ?thesis
    by (auto simp: attempt_new_def drop_nth_def sample_engine_def simp del: publish_turn.simps)
qed

theorem deliveries_bounded_witness:
  "\<exists>e es. run_turns (publish_turn sample_json True)
       [Got_Request (Publish_User (sample_details ''A'')), Attempt_Polled 0 1,
        Attempt_Answered 0 False 4, Attempt_Polled 0 5] engine_new = Some (e, es) \<and>
     deliveries ''A#Analog'' es \<le> 2"
proof -
  let ?evs = "[Got_Request (Publish_User (sample_details ''A'')), Attempt_Polled 0 1,
        Attempt_Answered 0 False 4, Attempt_Polled 0 5]"
  obtain e es where run: "run_turns (publish_turn sample_json True) ?evs engine_new = Some (e, es)"
    using publisher.run_total [of sample_json engine_new ?evs] sample_json_total engine_ok_new by blast
  have "requests ''A#Analog'' ?evs \<le> 1"
    by (simp add: requests_def)
  with deliveries_bounded [OF run, of "''A#Analog''"] run show ?thesis by auto
qed

theorem publish_settles_witness:
  "\<exists>e' es. settle sample_json (\<lambda>n. even n) 9 8 sample_engine = Some (e', es) \<and>
     in_flight e' = [] \<and> completed_batch e' = []"
  using publish_settles [OF sample_json_total sample_engine_ok, of "\<lambda>n. even n" 9]
  by (auto simp: sample_engine_def simp del: settle.simps)

end
