(* ===== verification/Alarm_Ingress.thy ===== *)
theory Alarm_Ingress
  imports Alarm_Model Alarm_Metrics Transition_System "HOL-Library.Sublist"
begin

text \<open>
  The ingress handles (\<open>src/engine/ingress.rs\<close>). A call of \<open>send_automated_update\<close> is cut
  at its lock and channel operations, because the drain task runs between them: the check
  under the lock, the direct send, and the retention after a full queue. The drain task is cut
  the same way. The ring map is the parameter \<open>ring_ops\<close>; \<open>ring_laws\<close> states the
  insertion-ordered map its documentation describes. The automated handle has one caller at a
  time, as in the service, where the Redis reader awaits each call.

  The theory shows that a retained update always has an active drain task, that per alarm the
  updates reach the coordinator in the order they were submitted with the last one never
  dropped, and that the drain task empties the backlog once the coordinator takes messages.
\<close>

section \<open>Libraries\<close>

record 'r ring_ops =
  rm_new :: 'r
  rm_insert :: "'r \<Rightarrow> alarm_key \<Rightarrow> status \<Rightarrow> 'r"
  rm_pop_front :: "'r \<Rightarrow> ((alarm_key \<times> status) \<times> 'r) option"
  rm_len :: "'r \<Rightarrow> nat"

definition ring_laws :: "'r ring_ops \<Rightarrow> ('r \<Rightarrow> (alarm_key \<times> status) list) \<Rightarrow> bool" where
  "ring_laws ops entries \<longleftrightarrow>
     entries (rm_new ops) = [] \<and>
     (\<forall>r k v. entries (rm_insert ops r k v) = AList.update k v (entries r)) \<and>
     (\<forall>r. case rm_pop_front ops r of
        None \<Rightarrow> entries r = []
      | Some (e, r') \<Rightarrow> entries r = e # entries r') \<and>
     (\<forall>r. rm_len ops r = length (entries r))"

datatype channel_send_error = Closed | Full

text \<open>\<open>mpsc::Sender::try_send\<close> on a channel with the given capacity.\<close>

definition try_send ::
  "nat \<Rightarrow> bool \<Rightarrow> domain_input list \<Rightarrow> domain_input \<Rightarrow> channel_send_error + domain_input list" where
  "try_send cap is_open q message =
     (if \<not> is_open then Inl Closed
      else if length q < cap then Inr (q @ [message])
      else Inl Full)"

section \<open>The handles\<close>

record 'r overload_state =
  overload_mode :: bool
  entered_at :: "instant option"
  pending :: 'r

definition overload_new :: "'r ring_ops \<Rightarrow> 'r overload_state" where
  "overload_new ops = \<lparr>overload_mode = False, entered_at = None, pending = rm_new ops\<rparr>"

text \<open>
  \<open>send_automated_update\<close>, first part: under the lock. \<open>True\<close> when the call has returned.
\<close>

definition send_check ::
  "proto \<Rightarrow> 'r ring_ops \<Rightarrow> 'r overload_state \<Rightarrow> status \<Rightarrow> 'r overload_state \<times> metric_event list \<times> bool" where
  "send_check pb ops os status =
     (let key = key_from_status pb status in
      if overload_mode os then
        (let p = rm_insert ops (pending os) key status in
         (os\<lparr>pending := p\<rparr>, [Record_retained_automated_keys (of_nat (rm_len ops p))], True))
      else (os, [], False))"

text \<open>Last part: under the lock again, after the queue was found full.\<close>

definition send_retain ::
  "proto \<Rightarrow> 'r ring_ops \<Rightarrow> instant \<Rightarrow> 'r overload_state \<Rightarrow> status \<Rightarrow> 'r overload_state \<times> metric_event list" where
  "send_retain pb ops now os status =
     (let key = key_from_status pb status;
          p = rm_insert ops (pending os) key status in
      (os\<lparr>pending := p, overload_mode := True, entered_at := Some now\<rparr>,
       [Record_overload_entry (of_nat (rm_len ops p))]))"

text \<open>One round of the drain loop under the lock: the update to send, if there is one.\<close>

definition drain_pop ::
  "'r ring_ops \<Rightarrow> instant \<Rightarrow> 'r overload_state \<Rightarrow> 'r overload_state \<times> metric_event list \<times> status option" where
  "drain_pop ops now os =
     (case rm_pop_front ops (pending os) of
        Some ((_, status), p) \<Rightarrow>
          (os\<lparr>pending := p\<rparr>, [Record_retained_automated_keys (of_nat (rm_len ops p))], Some status)
      | None \<Rightarrow>
          (os\<lparr>overload_mode := False, entered_at := None\<rparr>,
           Record_retained_automated_keys (of_nat (rm_len ops (pending os))) #
             (case entered_at os of
                Some t \<Rightarrow> [Record_overload_exit (now - t)]
              | None \<Rightarrow> []),
           None))"

definition user_try_send ::
  "nat \<Rightarrow> bool \<Rightarrow> domain_input list \<Rightarrow> domain_input \<Rightarrow>
   domain_input list \<times> metric_event list \<times> (channel_send_error + unit)" where
  "user_try_send cap is_open q message =
     (case try_send cap is_open q message of
        Inr q' \<Rightarrow> (q', [], Inr ())
      | Inl Closed \<Rightarrow> (q, [], Inl Closed)
      | Inl Full \<Rightarrow> (q, [Record_user_queue_full_rejection], Inl Full))"

section \<open>Caller, drain task and channel as one machine\<close>

datatype caller = Idle | Checked status | Full_Seen status
datatype drain = Waiting | Draining | Holding status | Stopped

text \<open>
  \<open>ig_permit\<close> is the permit \<open>notify_one\<close> stores; \<open>ig_submitted\<close>, \<open>ig_sent\<close> and
  \<open>ig_results\<close> record the calls, what entered the channel and what the calls returned.
\<close>

record 'r ingress =
  ig_overload :: "'r overload_state"
  ig_permit :: bool
  ig_caller :: caller
  ig_drain :: drain
  ig_cap :: nat
  ig_open :: bool
  ig_queue :: "domain_input list"
  ig_submitted :: "status list"
  ig_sent :: "status list"
  ig_results :: "(status + unit) list"
  ig_metrics :: "metric_event list"

definition ingress_new :: "'r ring_ops \<Rightarrow> nat \<Rightarrow> 'r ingress" where
  "ingress_new ops cap = \<lparr>ig_overload = overload_new ops, ig_permit = False, ig_caller = Idle,
     ig_drain = Waiting, ig_cap = cap, ig_open = True, ig_queue = [], ig_submitted = [],
     ig_sent = [], ig_results = [], ig_metrics = []\<rparr>"

datatype ingress_event =
  Submit status
| Direct_Send
| Retain instant
| Notified
| Pop instant
| Deliver
| Consume
| Coordinator_Stopped

definition ig_submit :: "proto \<Rightarrow> 'r ring_ops \<Rightarrow> status \<Rightarrow> 'r ingress \<Rightarrow> 'r ingress" where
  "ig_submit pb ops status s =
     (let (os, ms, returned) = send_check pb ops (ig_overload s) status;
          s1 = s\<lparr>ig_overload := os, ig_metrics := ig_metrics s @ ms,
                 ig_submitted := ig_submitted s @ [status]\<rparr> in
      if returned then s1\<lparr>ig_results := ig_results s @ [Inr ()]\<rparr>
      else s1\<lparr>ig_caller := Checked status\<rparr>)"

definition ig_direct :: "status \<Rightarrow> 'r ingress \<Rightarrow> 'r ingress" where
  "ig_direct status s =
     (case try_send (ig_cap s) (ig_open s) (ig_queue s) (AutomatedUpdate status) of
        Inr q \<Rightarrow> s\<lparr>ig_queue := q, ig_sent := ig_sent s @ [status], ig_caller := Idle,
                  ig_results := ig_results s @ [Inr ()]\<rparr>
      | Inl Closed \<Rightarrow> s\<lparr>ig_caller := Idle, ig_results := ig_results s @ [Inl status]\<rparr>
      | Inl Full \<Rightarrow> s\<lparr>ig_caller := Full_Seen status,
                      ig_metrics := ig_metrics s @ [Record_automated_queue_full]\<rparr>)"

definition ig_retain :: "proto \<Rightarrow> 'r ring_ops \<Rightarrow> instant \<Rightarrow> status \<Rightarrow> 'r ingress \<Rightarrow> 'r ingress" where
  "ig_retain pb ops now status s =
     (let (os, ms) = send_retain pb ops now (ig_overload s) status in
      s\<lparr>ig_overload := os, ig_metrics := ig_metrics s @ ms, ig_permit := True, ig_caller := Idle,
        ig_results := ig_results s @ [Inr ()]\<rparr>)"

definition ig_pop :: "'r ring_ops \<Rightarrow> instant \<Rightarrow> 'r ingress \<Rightarrow> 'r ingress" where
  "ig_pop ops now s =
     (let (os, ms, nxt) = drain_pop ops now (ig_overload s) in
      s\<lparr>ig_overload := os, ig_metrics := ig_metrics s @ ms,
        ig_drain := (case nxt of Some status \<Rightarrow> Holding status | None \<Rightarrow> Waiting)\<rparr>)"

text \<open>
  The drain task's \<open>send\<close> waits for room; it fails when the coordinator is gone, which ends
  the task.
\<close>

definition ig_deliver :: "status \<Rightarrow> 'r ingress \<Rightarrow> 'r ingress option" where
  "ig_deliver status s =
     (if \<not> ig_open s then Some (s\<lparr>ig_drain := Stopped\<rparr>)
      else if length (ig_queue s) < ig_cap s then
        Some (s\<lparr>ig_queue := ig_queue s @ [AutomatedUpdate status], ig_sent := ig_sent s @ [status],
                ig_drain := Draining\<rparr>)
      else None)"

fun ig_next :: "proto \<Rightarrow> 'r ring_ops \<Rightarrow> ingress_event \<Rightarrow> 'r ingress \<Rightarrow> 'r ingress option" where
  "ig_next pb ops (Submit status) s =
     (if ig_caller s = Idle then Some (ig_submit pb ops status s) else None)"
| "ig_next pb ops Direct_Send s =
     (case ig_caller s of Checked status \<Rightarrow> Some (ig_direct status s) | _ \<Rightarrow> None)"
| "ig_next pb ops (Retain now) s =
     (case ig_caller s of Full_Seen status \<Rightarrow> Some (ig_retain pb ops now status s) | _ \<Rightarrow> None)"
| "ig_next pb ops Notified s =
     (if ig_drain s = Waiting \<and> ig_permit s then Some (s\<lparr>ig_drain := Draining, ig_permit := False\<rparr>)
      else None)"
| "ig_next pb ops (Pop now) s = (if ig_drain s = Draining then Some (ig_pop ops now s) else None)"
| "ig_next pb ops Deliver s =
     (case ig_drain s of Holding status \<Rightarrow> ig_deliver status s | _ \<Rightarrow> None)"
| "ig_next pb ops Consume s =
     (case ig_queue s of [] \<Rightarrow> None | m # q \<Rightarrow> if ig_open s then Some (s\<lparr>ig_queue := q\<rparr>) else None)"
| "ig_next pb ops Coordinator_Stopped s = Some (s\<lparr>ig_open := False\<rparr>)"

inductive ig_step :: "proto \<Rightarrow> 'r ring_ops \<Rightarrow> 'r ingress \<Rightarrow> 'r ingress \<Rightarrow> bool"
  for pb :: proto and ops :: "'r ring_ops" where
  ig_stepI: "ig_next pb ops ev s = Some t \<Longrightarrow> ig_step pb ops s t"

inductive_cases ig_stepE: "ig_step pb ops s t"
inductive_simps ig_step_iff: "ig_step pb ops s t"

definition ig_start :: "'r ring_ops \<Rightarrow> 'r ingress \<Rightarrow> bool" where
  "ig_start ops s \<longleftrightarrow> (\<exists>cap. 0 < cap \<and> s = ingress_new ops cap)"

section \<open>The invariant\<close>

abbreviation mode :: "'r ingress \<Rightarrow> bool" where
  "mode s \<equiv> overload_mode (ig_overload s)"

fun held :: "drain \<Rightarrow> status list" where
  "held (Holding status) = [status]"
| "held _ = []"

fun in_call :: "caller \<Rightarrow> status list" where
  "in_call Idle = []"
| "in_call (Checked status) = [status]"
| "in_call (Full_Seen status) = [status]"

definition retained :: "('r \<Rightarrow> (alarm_key \<times> status) list) \<Rightarrow> 'r ingress \<Rightarrow> (alarm_key \<times> status) list" where
  "retained entries s = entries (pending (ig_overload s))"

text \<open>All updates on their way to the coordinator, oldest first for each alarm.\<close>

definition flow :: "('r \<Rightarrow> (alarm_key \<times> status) list) \<Rightarrow> 'r ingress \<Rightarrow> status list" where
  "flow entries s = ig_sent s @ held (ig_drain s) @ map snd (retained entries s) @ in_call (ig_caller s)"

definition on_key :: "proto \<Rightarrow> alarm_key \<Rightarrow> status list \<Rightarrow> status list" where
  "on_key pb k xs = filter (\<lambda>st. key_from_status pb st = k) xs"

lemma on_key_simps [simp]:
  "on_key pb k [] = []" "on_key pb k (xs @ ys) = on_key pb k xs @ on_key pb k ys"
  "on_key pb k (x # xs) = (if key_from_status pb x = k then x # on_key pb k xs else on_key pb k xs)"
  by (simp_all add: on_key_def)

definition inv_modes :: "('r \<Rightarrow> (alarm_key \<times> status) list) \<Rightarrow> 'r ingress \<Rightarrow> bool" where
  "inv_modes entries s \<longleftrightarrow>
     (\<not> mode s \<longrightarrow> retained entries s = [] \<and> ig_drain s = Waiting \<and> \<not> ig_permit s) \<and>
     (mode s \<longrightarrow> ig_caller s = Idle \<and> (ig_drain s = Waiting \<longleftrightarrow> ig_permit s)) \<and>
     (ig_open s \<longrightarrow> ig_drain s \<noteq> Stopped) \<and>
     length (ig_queue s) \<le> ig_cap s \<and> 0 < ig_cap s"

definition inv_keys :: "proto \<Rightarrow> ('r \<Rightarrow> (alarm_key \<times> status) list) \<Rightarrow> 'r ingress \<Rightarrow> bool" where
  "inv_keys pb entries s \<longleftrightarrow> distinct (map fst (retained entries s)) \<and>
     (\<forall>(k, st)\<in>set (retained entries s). key_from_status pb st = k)"

definition same_last :: "status list \<Rightarrow> status list \<Rightarrow> bool" where
  "same_last xs ys \<longleftrightarrow> subseq xs ys \<and> (ys \<noteq> [] \<longrightarrow> xs \<noteq> [] \<and> last xs = last ys)"

definition inv_order :: "proto \<Rightarrow> ('r \<Rightarrow> (alarm_key \<times> status) list) \<Rightarrow> 'r ingress \<Rightarrow> bool" where
  "inv_order pb entries s \<longleftrightarrow>
     (\<forall>k. subseq (on_key pb k (flow entries s)) (on_key pb k (ig_submitted s))) \<and>
     (ig_open s \<longrightarrow> (\<forall>k. same_last (on_key pb k (flow entries s)) (on_key pb k (ig_submitted s))))"

definition ig_inv :: "proto \<Rightarrow> 'r ring_ops \<Rightarrow> ('r \<Rightarrow> (alarm_key \<times> status) list) \<Rightarrow> 'r ingress \<Rightarrow> bool" where
  "ig_inv pb ops entries s \<longleftrightarrow> ring_laws ops entries \<and> inv_modes entries s \<and> inv_keys pb entries s \<and>
     inv_order pb entries s"

section \<open>Retained updates per alarm\<close>

lemma ring_lawsD:
  assumes "ring_laws ops entries"
  shows "entries (rm_new ops) = []"
    and "entries (rm_insert ops r k v) = AList.update k v (entries r)"
    and "rm_pop_front ops r = None \<Longrightarrow> entries r = []"
    and "rm_pop_front ops r = Some (e, r') \<Longrightarrow> entries r = e # entries r'"
    and "rm_len ops r = length (entries r)"
proof -
  show "entries (rm_new ops) = []" "entries (rm_insert ops r k v) = AList.update k v (entries r)"
    "rm_len ops r = length (entries r)"
    using assms by (simp_all add: ring_laws_def)
  have "case rm_pop_front ops r of None \<Rightarrow> entries r = [] | Some (e, r') \<Rightarrow> entries r = e # entries r'"
    using assms unfolding ring_laws_def by blast
  then show "rm_pop_front ops r = None \<Longrightarrow> entries r = []"
    "rm_pop_front ops r = Some (e, r') \<Longrightarrow> entries r = e # entries r'"
    by simp_all
qed

lemma on_key_absent:
  "\<forall>(j, st)\<in>set es. key_from_status pb st = j \<Longrightarrow> k \<notin> fst ` set es \<Longrightarrow> on_key pb k (map snd es) = []"
  by (induction es) auto

lemma on_key_retained:
  assumes "\<forall>(j, st)\<in>set es. key_from_status pb st = j" "distinct (map fst es)"
  shows "on_key pb k (map snd es) = (case map_of es k of Some st \<Rightarrow> [st] | None \<Rightarrow> [])"
  using assms
proof (induction es)
  case (Cons e es)
  then show ?case
    using on_key_absent [of es pb k] by (cases e) (auto split: option.splits)
qed simp

lemma update_keys_ok:
  assumes "\<forall>(j, st)\<in>set es. key_from_status pb st = j" "key_from_status pb v = k"
  shows "\<forall>(j, st)\<in>set (AList.update k v es). key_from_status pb st = j"
  using assms set_update_subset_insert by (induction es) auto

lemma on_key_update:
  assumes "\<forall>(j, st)\<in>set es. key_from_status pb st = j" "distinct (map fst es)"
    and "key_from_status pb v = k"
  shows "on_key pb j (map snd (AList.update k v es)) =
    (if j = k then [v] else on_key pb j (map snd es))"
  using on_key_retained [OF update_keys_ok [OF assms(1,3)] distinct_update [OF assms(2)], of j]
    on_key_retained [OF assms(1,2), of j]
  by (simp add: AList.update_conv')

section \<open>Every step keeps the invariant\<close>

lemma ig_invD:
  assumes "ig_inv pb ops entries s"
  shows "ring_laws ops entries" "inv_modes entries s" "inv_keys pb entries s" "inv_order pb entries s"
  using assms by (simp_all add: ig_inv_def)

lemma inv_orderD:
  assumes "inv_order pb entries s"
  shows "subseq (on_key pb k (flow entries s)) (on_key pb k (ig_submitted s))"
    and "ig_open s \<Longrightarrow> same_last (on_key pb k (flow entries s)) (on_key pb k (ig_submitted s))"
  using assms by (simp_all add: inv_order_def)

lemma order_same_flow:
  assumes "inv_order pb entries s" and "flow entries t = flow entries s"
    and "ig_submitted t = ig_submitted s" and "ig_open t \<Longrightarrow> ig_open s"
  shows "inv_order pb entries t"
  using assms by (simp add: inv_order_def)

lemma order_closed:
  assumes "inv_order pb entries s" and "\<And>k. subseq (on_key pb k (flow entries t)) (on_key pb k (flow entries s))"
    and "ig_submitted t = ig_submitted s" and "\<not> ig_open t"
  shows "inv_order pb entries t"
  using assms unfolding inv_order_def by (metis subseq_order.trans)

lemma subseq_app_left: "subseq (xs @ ys) zs \<Longrightarrow> subseq xs zs"
  by (metis prefixI prefix_imp_subseq subseq_order.trans)

lemma subseq_drop_mid: "subseq (xs @ ys) (xs @ x # ys)"
  by (simp add: subseq_append' list_emb_Cons)

lemma same_last_snoc: "subseq xs ys \<Longrightarrow> same_last (xs @ [x]) (ys @ [x])"
  by (simp add: same_last_def)

lemma submit_inv:
  assumes inv: "ig_inv pb ops entries s" and idle: "ig_caller s = Idle"
  shows "ig_inv pb ops entries (ig_submit pb ops st s)"
proof (cases "mode s")
  case True
  note D = ig_invD [OF inv]
  let ?k = "key_from_status pb st" and ?t = "ig_submit pb ops st s"
  have ret: "retained entries ?t = AList.update ?k st (retained entries s)"
    using True by (simp add: ig_submit_def send_check_def retained_def ring_lawsD(2) [OF D(1)] Let_def)
  have fields: "mode ?t" "ig_drain ?t = ig_drain s" "ig_permit ?t = ig_permit s" "ig_caller ?t = Idle"
    "ig_open ?t = ig_open s" "ig_queue ?t = ig_queue s" "ig_cap ?t = ig_cap s" "ig_sent ?t = ig_sent s"
    "ig_submitted ?t = ig_submitted s @ [st]"
    using True idle by (simp_all add: ig_submit_def send_check_def Let_def)
  have keys: "\<forall>(k, st)\<in>set (retained entries s). key_from_status pb st = k"
    "distinct (map fst (retained entries s))"
    using D(3) by (simp_all add: inv_keys_def)
  define X where "X = (\<lambda>k. on_key pb k (ig_sent s @ held (ig_drain s)))"
  have old: "on_key pb k (flow entries s) = X k @ on_key pb k (map snd (retained entries s))" for k
    using idle by (simp add: flow_def X_def)
  have new: "on_key pb k (flow entries ?t) =
      X k @ (if k = ?k then [st] else on_key pb k (map snd (retained entries s)))" for k
    using on_key_update [OF keys, of st ?k k] by (simp add: flow_def fields ret X_def)
  have sub: "subseq (X k) (on_key pb k (ig_submitted s))" for k
    using inv_orderD(1) [OF D(4), of k] unfolding old by (rule subseq_app_left)
  have "inv_order pb entries ?t"
    unfolding inv_order_def
  proof (intro conjI allI impI)
    fix k
    show "subseq (on_key pb k (flow entries ?t)) (on_key pb k (ig_submitted ?t))"
      using sub [of k] inv_orderD(1) [OF D(4), of k] old [of k] by (auto simp: new fields)
    assume "ig_open ?t"
    then show "same_last (on_key pb k (flow entries ?t)) (on_key pb k (ig_submitted ?t))"
      using same_last_snoc [OF sub [of k], of st] inv_orderD(2) [OF D(4), of k] old [of k]
      by (auto simp: new fields)
  qed
  moreover have "inv_keys pb entries ?t"
    using update_keys_ok [OF keys(1), of st ?k] distinct_update [OF keys(2)] by (simp add: inv_keys_def ret)
  moreover have "inv_modes entries ?t"
    using D(2) True by (simp add: inv_modes_def fields)
  ultimately show ?thesis using D(1) by (simp add: ig_inv_def)
next
  case False
  note D = ig_invD [OF inv]
  let ?t = "ig_submit pb ops st s"
  have t: "?t = s\<lparr>ig_submitted := ig_submitted s @ [st], ig_caller := Checked st\<rparr>"
    using False by (simp add: ig_submit_def send_check_def)
  have fl: "flow entries ?t = flow entries s @ [st]"
    using idle by (simp add: t flow_def retained_def)
  have "inv_order pb entries ?t"
    unfolding inv_order_def fl
    using inv_orderD [OF D(4)] by (auto simp: t same_last_snoc)
  moreover have "inv_keys pb entries ?t" using D(3) by (simp add: t inv_keys_def retained_def)
  moreover have "inv_modes entries ?t" using D(2) False by (simp add: t inv_modes_def retained_def)
  ultimately show ?thesis using D(1) by (simp add: ig_inv_def)
qed

lemma direct_inv:
  assumes inv: "ig_inv pb ops entries s" and caller: "ig_caller s = Checked st"
  shows "ig_inv pb ops entries (ig_direct st s)"
proof -
  note D = ig_invD [OF inv]
  let ?t = "ig_direct st s"
  have m: "\<not> mode s" "retained entries s = []" "ig_drain s = Waiting" "\<not> ig_permit s"
    using D(2) caller by (auto simp: inv_modes_def)
  have "inv_keys pb entries ?t \<and> inv_modes entries ?t"
    using D(2,3) m
    by (auto simp: ig_direct_def try_send_def inv_keys_def inv_modes_def retained_def
        split: sum.splits channel_send_error.splits)
  moreover have "inv_order pb entries ?t"
  proof (cases "ig_open s")
    case True
    then show ?thesis
      using m caller
      by (intro order_same_flow [OF D(4)])
        (auto simp: ig_direct_def try_send_def flow_def retained_def)
  next
    case False
    then show ?thesis
      using m caller
      by (intro order_closed [OF D(4)])
        (auto simp: ig_direct_def try_send_def flow_def retained_def)
  qed
  ultimately show ?thesis using D(1) by (simp add: ig_inv_def)
qed

lemma retain_inv:
  assumes inv: "ig_inv pb ops entries s" and caller: "ig_caller s = Full_Seen st"
  shows "ig_inv pb ops entries (ig_retain pb ops now st s)"
proof -
  note D = ig_invD [OF inv]
  let ?t = "ig_retain pb ops now st s"
  have m: "\<not> mode s" "retained entries s = []" "ig_drain s = Waiting" "\<not> ig_permit s"
    using D(2) caller by (auto simp: inv_modes_def)
  have ret: "retained entries ?t = [(key_from_status pb st, st)]"
    using m(2) ring_lawsD(2) [OF D(1)] by (simp add: ig_retain_def send_retain_def retained_def Let_def)
  have "inv_keys pb entries ?t" by (simp add: inv_keys_def ret)
  moreover have "inv_modes entries ?t"
    using D(2) m by (simp add: inv_modes_def ret) (simp add: ig_retain_def send_retain_def Let_def)
  moreover have "inv_order pb entries ?t"
    using m caller ret
    by (intro order_same_flow [OF D(4)]) (auto simp: flow_def ig_retain_def send_retain_def Let_def)
  ultimately show ?thesis using D(1) by (simp add: ig_inv_def)
qed

lemma pop_inv:
  assumes inv: "ig_inv pb ops entries s" and drain: "ig_drain s = Draining"
  shows "ig_inv pb ops entries (ig_pop ops now s)"
proof -
  note D = ig_invD [OF inv]
  let ?t = "ig_pop ops now s"
  have m: "mode s" "ig_caller s = Idle" "\<not> ig_permit s"
    using D(2) drain by (auto simp: inv_modes_def)
  show ?thesis
  proof (cases "rm_pop_front ops (pending (ig_overload s))")
    case None
    from ring_lawsD(3) [OF D(1) this] have "retained entries s = []" by (simp add: retained_def)
    with None D m drain show ?thesis
      by (auto simp: ig_inv_def inv_modes_def inv_keys_def ig_pop_def drain_pop_def retained_def
          flow_def intro: order_same_flow)
  next
    case (Some x)
    obtain k st p where x: "x = ((k, st), p)" by (cases x) auto
    from ring_lawsD(4) [OF D(1) Some [unfolded x]]
    have "retained entries s = (k, st) # entries p" by (simp add: retained_def)
    with Some x D m drain show ?thesis
      by (auto simp: ig_inv_def inv_modes_def inv_keys_def ig_pop_def drain_pop_def retained_def
          flow_def intro: order_same_flow)
  qed
qed

lemma deliver_inv:
  assumes inv: "ig_inv pb ops entries s" and drain: "ig_drain s = Holding st"
    and dl: "ig_deliver st s = Some t"
  shows "ig_inv pb ops entries t"
proof -
  note D = ig_invD [OF inv]
  have m: "mode s" "ig_caller s = Idle" "\<not> ig_permit s"
    using D(2) drain by (auto simp: inv_modes_def)
  have "inv_order pb entries t"
  proof (cases "ig_open s")
    case True
    then show ?thesis using dl drain
      by (intro order_same_flow [OF D(4)]) (auto simp: ig_deliver_def flow_def retained_def split: if_splits)
  next
    case False
    then show ?thesis using dl drain
      by (intro order_closed [OF D(4)])
        (auto simp: ig_deliver_def flow_def retained_def subseq_drop_mid split: if_splits)
  qed
  moreover have "inv_modes entries t" "inv_keys pb entries t"
    using D(2,3) m dl by (auto simp: ig_deliver_def inv_modes_def inv_keys_def retained_def split: if_splits)
  ultimately show ?thesis using D(1) by (simp add: ig_inv_def)
qed

lemma plain_inv:
  assumes inv: "ig_inv pb ops entries s"
  shows "ig_drain s = Waiting \<Longrightarrow> ig_permit s \<Longrightarrow> ig_inv pb ops entries (s\<lparr>ig_drain := Draining, ig_permit := False\<rparr>)"
    and "ig_queue s = m # q \<Longrightarrow> ig_inv pb ops entries (s\<lparr>ig_queue := q\<rparr>)"
    and "ig_inv pb ops entries (s\<lparr>ig_open := False\<rparr>)"
  using inv
  by (auto simp: ig_inv_def inv_modes_def inv_keys_def retained_def flow_def intro: order_same_flow)

lemma ig_next_inv:
  assumes inv: "ig_inv pb ops entries s" and nxt: "ig_next pb ops ev s = Some t"
  shows "ig_inv pb ops entries t"
proof (cases ev)
  case (Submit st)
  then show ?thesis using nxt submit_inv [OF inv] by (auto split: if_splits)
next
  case Direct_Send
  then show ?thesis using nxt direct_inv [OF inv] by (auto split: caller.splits)
next
  case (Retain now)
  then show ?thesis using nxt retain_inv [OF inv] by (auto split: caller.splits)
next
  case Notified
  then show ?thesis using nxt plain_inv(1) [OF inv] by (auto split: if_splits)
next
  case (Pop now)
  then show ?thesis using nxt pop_inv [OF inv] by (auto split: if_splits)
next
  case Deliver
  then show ?thesis using nxt deliver_inv [OF inv] by (auto split: drain.splits)
next
  case Consume
  then show ?thesis using nxt plain_inv(2) [OF inv] by (auto split: list.splits if_splits)
next
  case Coordinator_Stopped
  then show ?thesis using nxt plain_inv(3) [OF inv] by auto
qed

lemma ig_start_inv: "ring_laws ops entries \<Longrightarrow> ig_start ops s \<Longrightarrow> ig_inv pb ops entries s"
  by (auto simp: ig_start_def ingress_new_def ig_inv_def inv_modes_def inv_keys_def inv_order_def
      retained_def overload_new_def flow_def same_last_def ring_lawsD(1))

interpretation ingress: invariant_system "\<lambda>s. ring_laws ops entries \<and> ig_start ops s" "ig_step pb ops"
    "ig_inv pb ops entries" for pb ops entries
  by unfold_locales (auto intro: ig_start_inv ig_next_inv elim!: ig_stepE)

lemma reach_ig_inv:
  assumes "ring_laws ops entries" and "reach (ig_start ops) (ig_step pb ops) s"
  shows "ig_inv pb ops entries s"
  by (rule ingress.reach_inv [OF reach_mono [OF assms(2)]]) (simp add: assms(1))

section \<open>Safety\<close>

text \<open>
  C32: overload mode is consistent with the backlog. Updates are retained or held by the drain
  task only in overload mode, and while the coordinator lives overload mode means that the drain
  task is running or has been notified, so that a retained update is never left without a task
  to send it. The coordinator's channel never exceeds its capacity.
\<close>

theorem ingress_overload:
  assumes "ring_laws ops entries" and "reach (ig_start ops) (ig_step pb ops) s" and "ig_open s"
  shows "(if overload_mode (ig_overload s)
     then (case ig_drain s of Waiting \<Rightarrow> ig_permit s | Stopped \<Rightarrow> False | _ \<Rightarrow> True)
     else retained entries s = [] \<and> held (ig_drain s) = [] \<and> \<not> ig_permit s) \<and>
    length (ig_queue s) \<le> ig_cap s"
  using reach_ig_inv [OF assms(1,2)] assms(3)
  by (auto simp: ig_inv_def inv_modes_def split: drain.splits)

text \<open>
  Per alarm, the updates reach the coordinator's channel in the order they were submitted,
  some of them coalesced away, and as long as the coordinator lives the last update submitted
  is never lost: it is the last one sent, held, retained or in the call.
\<close>

theorem ingress_order:
  assumes "ring_laws ops entries" and "reach (ig_start ops) (ig_step pb ops) s"
  shows "subseq (on_key pb k (ig_sent s)) (on_key pb k (ig_submitted s)) \<and>
    (ig_open s \<and> on_key pb k (ig_submitted s) \<noteq> [] \<longrightarrow> on_key pb k (flow entries s) \<noteq> [] \<and>
      last (on_key pb k (flow entries s)) = last (on_key pb k (ig_submitted s)))"
proof -
  have ord: "inv_order pb entries s" using reach_ig_inv [OF assms] by (simp add: ig_inv_def)
  have "subseq (on_key pb k (ig_sent s)) (on_key pb k (ig_submitted s))"
    using inv_orderD(1) [OF ord, of k] by (simp add: flow_def) (rule subseq_app_left)
  then show ?thesis
    using inv_orderD(2) [OF ord, of k] by (simp add: same_last_def)
qed

section \<open>The backlog is drained\<close>

definition drain_work :: "('r \<Rightarrow> (alarm_key \<times> status) list) \<Rightarrow> 'r ingress \<Rightarrow> nat" where
  "drain_work entries s = 3 * length (retained entries s) +
     (case ig_drain s of
        Waiting \<Rightarrow> 2
      | Draining \<Rightarrow> 1
      | Holding st \<Rightarrow> (if length (ig_queue s) < ig_cap s then 2 else 3)
      | Stopped \<Rightarrow> 0)"

lemma drain_progress:
  assumes inv: "ig_inv pb ops entries s" and m: "mode s" and op: "ig_open s"
  shows "\<exists>ev t. ig_next pb ops ev s = Some t \<and> ig_open t \<and> ig_caller t = ig_caller s \<and>
    ig_submitted t = ig_submitted s \<and> (mode t \<longrightarrow> drain_work entries t < drain_work entries s)"
proof (cases "ig_drain s")
  case Waiting
  then have "ig_next pb ops Notified s = Some (s\<lparr>ig_drain := Draining, ig_permit := False\<rparr>)"
    using inv m by (simp add: ig_inv_def inv_modes_def)
  moreover have "drain_work entries (s\<lparr>ig_drain := Draining, ig_permit := False\<rparr>) < drain_work entries s"
    using Waiting by (simp add: drain_work_def retained_def)
  ultimately show ?thesis using op by fastforce
next
  case Draining
  note laws = ig_invD(1) [OF inv]
  have "mode (ig_pop ops 0 s) \<longrightarrow> drain_work entries (ig_pop ops 0 s) < drain_work entries s"
  proof (cases "rm_pop_front ops (pending (ig_overload s))")
    case None
    then show ?thesis by (simp add: ig_pop_def drain_pop_def)
  next
    case (Some x)
    obtain e p where x: "x = (e, p)" by fastforce
    from ring_lawsD(4) [OF laws Some [unfolded x]] Some x Draining show ?thesis
      by (cases e) (simp add: ig_pop_def drain_pop_def drain_work_def retained_def)
  qed
  moreover have "ig_open (ig_pop ops 0 s) \<and> ig_caller (ig_pop ops 0 s) = ig_caller s \<and>
      ig_submitted (ig_pop ops 0 s) = ig_submitted s"
    using op by (simp add: ig_pop_def split: prod.split)
  moreover have "ig_next pb ops (Pop 0) s = Some (ig_pop ops 0 s)" using Draining by simp
  ultimately show ?thesis by blast
next
  case (Holding st)
  show ?thesis
  proof (cases "length (ig_queue s) < ig_cap s")
    case True
    then obtain t where t: "ig_deliver st s = Some t" "ig_drain t = Draining" "ig_open t"
      "ig_caller t = ig_caller s" "ig_submitted t = ig_submitted s" "ig_overload t = ig_overload s"
      using op by (simp add: ig_deliver_def)
    moreover have "ig_next pb ops Deliver s = Some t" using Holding t(1) by simp
    moreover have "drain_work entries t < drain_work entries s"
      using t Holding True by (simp add: drain_work_def retained_def)
    ultimately show ?thesis by blast
  next
    case False
    with inv have "length (ig_queue s) = ig_cap s" "0 < ig_cap s"
      by (auto simp: ig_inv_def inv_modes_def)
    then obtain x q where q: "ig_queue s = x # q" "length q < ig_cap s" by (cases "ig_queue s") auto
    have "ig_next pb ops Consume s = Some (s\<lparr>ig_queue := q\<rparr>)" using q op by simp
    moreover have "drain_work entries (s\<lparr>ig_queue := q\<rparr>) < drain_work entries s"
      using q Holding False by (simp add: drain_work_def retained_def)
    ultimately show ?thesis using op by fastforce
  qed
next
  case Stopped
  then show ?thesis using inv op by (simp add: ig_inv_def inv_modes_def)
qed

lemma drain_completes:
  "ig_inv pb ops entries s \<Longrightarrow> ig_open s \<Longrightarrow>
   \<exists>t. (ig_step pb ops)\<^sup>*\<^sup>* s t \<and> ig_open t \<and> ig_caller t = ig_caller s \<and>
     ig_submitted t = ig_submitted s \<and> \<not> mode t"
proof (induction "drain_work entries s" arbitrary: s rule: less_induct)
  case less
  show ?case
  proof (cases "mode s")
    case True
    obtain ev t where t: "ig_next pb ops ev s = Some t" "ig_open t" "ig_caller t = ig_caller s"
      "ig_submitted t = ig_submitted s" "mode t \<longrightarrow> drain_work entries t < drain_work entries s"
      using drain_progress [OF less.prems(1) True less.prems(2)] by blast
    have step: "(ig_step pb ops)\<^sup>*\<^sup>* s t" using t(1) by (auto intro: ig_stepI)
    show ?thesis
    proof (cases "mode t")
      case True
      then obtain u where "(ig_step pb ops)\<^sup>*\<^sup>* t u" "ig_open u" "ig_caller u = ig_caller t"
        "ig_submitted u = ig_submitted t" "\<not> mode u"
        using less.hyps [of t] t(2,5) ig_next_inv [OF less.prems(1) t(1)] by blast
      with step t(3,4) show ?thesis by (metis rtranclp_trans)
    qed (use step t in blast)
  qed (use less.prems in blast)
qed

text \<open>
  The backlog is drained. From any state in which no call is under way, the drain task and
  a coordinator that takes messages can reach, with no further submission, a state out of
  overload mode with nothing retained, in which the last update of each alarm that was
  submitted is the last one that entered the coordinator's channel.
\<close>

theorem ingress_drains:
  assumes "ring_laws ops entries" and "reach (ig_start ops) (ig_step pb ops) s"
    and "ig_open s" and "ig_caller s = Idle"
  shows "\<exists>t. (ig_step pb ops)\<^sup>*\<^sup>* s t \<and> \<not> overload_mode (ig_overload t) \<and> retained entries t = [] \<and>
    ig_submitted t = ig_submitted s \<and>
    (\<forall>k. on_key pb k (ig_submitted s) \<noteq> [] \<longrightarrow> on_key pb k (ig_sent t) \<noteq> [] \<and>
       last (on_key pb k (ig_sent t)) = last (on_key pb k (ig_submitted s)))"
proof -
  have inv: "ig_inv pb ops entries s" by (rule reach_ig_inv [OF assms(1,2)])
  obtain t where t: "(ig_step pb ops)\<^sup>*\<^sup>* s t" "ig_open t" "ig_caller t = Idle"
    "ig_submitted t = ig_submitted s" "\<not> mode t"
    using drain_completes [OF inv assms(3)] assms(4) by metis
  have inv_t: "ig_inv pb ops entries t" by (rule ingress.steps_inv [OF t(1) inv])
  have quiet: "retained entries t = []" "ig_drain t = Waiting"
    using inv_t t(5) by (auto simp: ig_inv_def inv_modes_def)
  then have "flow entries t = ig_sent t" using t(3) by (simp add: flow_def)
  then show ?thesis
    using t quiet inv_orderD(2) [OF ig_invD(4) [OF inv_t] t(2)] by (auto simp: same_last_def)
qed

text \<open>
  When the coordinator stops while the drain task holds an update, the task ends in overload
  mode, and every later call is merged into the backlog and reports success.
\<close>

lemma stopped_drain_swallows:
  assumes "ring_laws ops entries" and "reach (ig_start ops) (ig_step pb ops) s"
    and "ig_drain s = Stopped" and "ig_next pb ops (Submit st) s = Some t"
  shows "ig_results t = ig_results s @ [Inr ()] \<and> ig_drain t = Stopped \<and> ig_sent t = ig_sent s"
proof -
  have "mode s" using reach_ig_inv [OF assms(1,2)] assms(3) by (auto simp: ig_inv_def inv_modes_def)
  then show ?thesis
    using assms(3,4) by (auto simp: ig_submit_def send_check_def Let_def split: if_splits)
qed

section \<open>Witnesses\<close>

definition sample_ring :: "(alarm_key \<times> status) list ring_ops" where
  "sample_ring = \<lparr>rm_new = [], rm_insert = (\<lambda>r k v. AList.update k v r),
     rm_pop_front = (\<lambda>r. case r of [] \<Rightarrow> None | e # r' \<Rightarrow> Some (e, r')), rm_len = length\<rparr>"

lemma sample_ring_laws: "ring_laws sample_ring (\<lambda>r. r)"
  by (auto simp: ring_laws_def sample_ring_def split: list.splits option.splits)

fun ig_events :: "proto \<Rightarrow> 'r ring_ops \<Rightarrow> ingress_event list \<Rightarrow> 'r ingress \<Rightarrow> 'r ingress option" where
  "ig_events pb ops [] s = Some s"
| "ig_events pb ops (ev # evs) s = Option.bind (ig_next pb ops ev s) (ig_events pb ops evs)"

lemma ig_events_steps: "ig_events pb ops evs s = Some t \<Longrightarrow> (ig_step pb ops)\<^sup>*\<^sup>* s t"
proof (induction evs arbitrary: s)
  case (Cons ev evs)
  then obtain u where "ig_next pb ops ev s = Some u" "ig_events pb ops evs u = Some t"
    by (auto split: Option.bind_splits)
  with Cons.IH [of u] show ?case by (meson converse_rtranclp_into_rtranclp ig_stepI)
qed simp

definition sample_update :: "alarm_state \<Rightarrow> status" where
  "sample_update st = sample_status ''M:BEAM'' st Low Epics"

definition overload_run :: "ingress_event list" where
  "overload_run = [Submit (sample_update Ok), Direct_Send, Submit (sample_update Alarmed), Direct_Send,
     Retain 5, Submit (sample_update Latched)]"

definition busy_ingress :: "(alarm_key \<times> status) list ingress" where
  "busy_ingress = the (ig_events sample_proto sample_ring overload_run (ingress_new sample_ring 1))"

lemma overload_run_ok:
  "ig_events sample_proto sample_ring overload_run (ingress_new sample_ring 1) = Some busy_ingress"
proof -
  have "ig_events sample_proto sample_ring overload_run (ingress_new sample_ring 1) \<noteq> None"
    by code_simp
  then show ?thesis by (auto simp: busy_ingress_def)
qed

lemma reach_busy_ingress: "reach (ig_start sample_ring) (ig_step sample_proto sample_ring) busy_ingress"
  by (rule reach_steps [OF reach_init ig_events_steps [OF overload_run_ok]])
    (auto simp: ig_start_def)

lemma busy_ingress_simps:
  "ig_open busy_ingress \<and> ig_caller busy_ingress = Idle \<and> overload_mode (ig_overload busy_ingress) \<and>
   ig_drain busy_ingress = Waiting \<and> ig_sent busy_ingress = [sample_update Ok] \<and>
   ig_submitted busy_ingress = [sample_update Ok, sample_update Alarmed, sample_update Latched] \<and>
   flow (\<lambda>r. r) busy_ingress = [sample_update Ok, sample_update Latched]"
  by code_simp

lemma sample_update_key: "key_from_status sample_proto (sample_update st) = \<lparr>key_device = ''M:BEAM'', key_source = Epics\<rparr>"
proof -
  have "trim ''M:BEAM'' = ''M:BEAM'' \<and> to_uppercase ''M:BEAM'' = ''M:BEAM''" by code_simp
  then show ?thesis by (simp add: key_from_status_def sample_update_def)
qed

theorem ingress_overload_witness: "ig_permit busy_ingress \<and> length (ig_queue busy_ingress) \<le> ig_cap busy_ingress"
  using ingress_overload [OF sample_ring_laws reach_busy_ingress] busy_ingress_simps by auto

theorem ingress_order_witness:
  "subseq [sample_update Ok] [sample_update Ok, sample_update Alarmed, sample_update Latched] \<and>
   last (flow (\<lambda>r. r) busy_ingress) = sample_update Latched"
  using ingress_order [OF sample_ring_laws reach_busy_ingress,
      of "\<lparr>key_device = ''M:BEAM'', key_source = Epics\<rparr>"] busy_ingress_simps
  by (simp add: sample_update_key)

theorem ingress_drains_witness:
  "\<exists>t. (ig_step sample_proto sample_ring)\<^sup>*\<^sup>* busy_ingress t \<and>
     last (on_key sample_proto \<lparr>key_device = ''M:BEAM'', key_source = Epics\<rparr> (ig_sent t)) = sample_update Latched"
proof -
  have o: "ig_open busy_ingress" "ig_caller busy_ingress = Idle" using busy_ingress_simps by auto
  have sub: "on_key sample_proto \<lparr>key_device = ''M:BEAM'', key_source = Epics\<rparr> (ig_submitted busy_ingress) =
      [sample_update Ok, sample_update Alarmed, sample_update Latched]"
    using busy_ingress_simps by (simp add: sample_update_key)
  from ingress_drains [OF sample_ring_laws reach_busy_ingress o] obtain t where
    "(ig_step sample_proto sample_ring)\<^sup>*\<^sup>* busy_ingress t"
    "\<forall>k. on_key sample_proto k (ig_submitted busy_ingress) \<noteq> [] \<longrightarrow> on_key sample_proto k (ig_sent t) \<noteq> [] \<and>
       last (on_key sample_proto k (ig_sent t)) = last (on_key sample_proto k (ig_submitted busy_ingress))"
    by blast
  with sub show ?thesis by (metis last.simps list.distinct(1))
qed

end
