(* ===== verification/Alarm_Grpc.thy ===== *)
theory Alarm_Grpc
  imports Alarm_Ingress
begin

text \<open>
  The gRPC service (\<open>src/adapters/grpc.rs\<close>). A command is checked, sent to the user queue
  as one message per alarm with a fresh one-shot channel each, and answered when all of them
  have been answered. Sending is the parameter \<open>send\<close> over a state of its own, so that
  the coordinator may take messages between two sends; \<open>answers\<close> says what each one-shot
  receiver yields, \<open>Inl ()\<close> when its sender was dropped. \<open>None\<close> is the panic of an index out
  of range, which never happens.
\<close>

datatype tonic_status = Invalid_Argument string | Internal_Status string | Resource_Exhausted string

type_synonym 's user_channel = "domain_input \<Rightarrow> 's \<Rightarrow> 's \<times> (channel_send_error + unit)"
type_synonym confirmation_result = "unit + (update_error + unit)"

section \<open>Requests\<close>

fun parse_devices :: "string list \<Rightarrow> string list \<times> alarm_key list" where
  "parse_devices [] = ([], [])"
| "parse_devices (device_source # devices) =
     (let (errs, keys) = parse_devices devices in
      case key_try_from device_source of
        Inr key \<Rightarrow> (errs, key # keys)
      | Inl text \<Rightarrow> (text # errs, keys))"

definition build_keys :: "string list \<Rightarrow> tonic_status + alarm_key list" where
  "build_keys devices =
     (let (errs, keys) = parse_devices devices in
      if errs = [] then Inr keys else Inl (Invalid_Argument (join ''; '' errs)))"

fun map_user_send_error :: "channel_send_error \<Rightarrow> tonic_status" where
  "map_user_send_error Full = Resource_Exhausted
     ''Alarm command queue is full; rejecting request instead of waiting behind backlog''"
| "map_user_send_error Closed = Internal_Status ''The alarms state machine has shut down!''"

text \<open>One-shot channels are numbered in the order they are made; \<open>n\<close> is the next number.\<close>

fun submit_updates ::
  "'s user_channel \<Rightarrow> user_action \<Rightarrow> string \<Rightarrow> alarm_key list \<Rightarrow> nat \<Rightarrow> 's \<Rightarrow>
   nat \<times> 's \<times> (tonic_status + confirmation list)" where
  "submit_updates send action user [] n s = (n, s, Inr [])"
| "submit_updates send action user (key # keys) n s =
     (case send (UserUpdate key action user n) s of
        (s1, Inl e) \<Rightarrow> (n + 1, s1, Inl (map_user_send_error e))
      | (s1, Inr _) \<Rightarrow>
          (case submit_updates send action user keys (n + 1) s1 of
             (n2, s2, Inl e) \<Rightarrow> (n2, s2, Inl e)
           | (n2, s2, Inr results_fut) \<Rightarrow> (n2, s2, Inr (n # results_fut))))"

section \<open>Answers\<close>

fun collect_results ::
  "alarm_key list \<Rightarrow> nat \<Rightarrow> confirmation_result list \<Rightarrow> (string list \<times> string list) option" where
  "collect_results keys index [] = Some ([], [])"
| "collect_results keys index (r # rs) =
     (case r of
        Inl _ \<Rightarrow>
          if index < length keys then
            map_option (\<lambda>(bad, internal). (bad,
                (''State machine is down. Did not process '' @ key_to_string (keys ! index) @ ''.'') # internal))
              (collect_results keys (index + 1) rs)
          else None
      | Inr (Inl e) \<Rightarrow>
          (case e of
             Internal _ \<Rightarrow> map_option (\<lambda>(bad, internal). (bad, update_error_to_string e # internal))
               (collect_results keys (index + 1) rs)
           | StateNotAllowed _ \<Rightarrow> map_option (\<lambda>(bad, internal). (update_error_to_string e # bad, internal))
               (collect_results keys (index + 1) rs))
      | Inr (Inr _) \<Rightarrow> collect_results keys (index + 1) rs)"

definition build_grpc_result :: "string list \<Rightarrow> string list \<Rightarrow> tonic_status + unit" where
  "build_grpc_result bad_requests internal_errs =
     (if bad_requests = [] \<and> internal_errs = [] then Inr ()
      else if internal_errs = [] then Inl (Invalid_Argument (join ''; '' bad_requests))
      else
        (let bad_request_msg = (if bad_requests = [] then []
           else [CHR 0x0A] @ '' - '' @ [CHR 0x0A] @
             ''Additionally, some requests were malformed: '' @ join ''; '' bad_requests) in
         Inl (Internal_Status (''Failed processing requests: '' @ join '';'' internal_errs @ bad_request_msg))))"

definition handle_confirmation ::
  "confirmation_result list \<Rightarrow> alarm_key list \<Rightarrow> duration \<Rightarrow>
   (metric_event list \<times> (tonic_status + unit)) option" where
  "handle_confirmation results keys elapsed =
     map_option (\<lambda>(bad_requests, internal_errs).
       ([Record_confirmation_latency elapsed], build_grpc_result bad_requests internal_errs))
     (collect_results keys 0 results)"

record 's grpc_state =
  next_oneshot :: nat
  user_channel :: 's

definition submit_and_confirm_user_update ::
  "'s user_channel \<Rightarrow> (confirmation \<Rightarrow> confirmation_result) \<Rightarrow> duration \<Rightarrow>
   string list \<Rightarrow> user_action \<Rightarrow> string \<Rightarrow> 's grpc_state \<Rightarrow>
   ('s grpc_state \<times> metric_event list \<times> (tonic_status + unit)) option" where
  "submit_and_confirm_user_update send answers elapsed devices action user g =
     (case build_keys devices of
        Inl e \<Rightarrow> Some (g, [], Inl e)
      | Inr keys \<Rightarrow>
          (case submit_updates send action user keys (next_oneshot g) (user_channel g) of
             (n, s, Inl e) \<Rightarrow> Some (\<lparr>next_oneshot = n, user_channel = s\<rparr>, [], Inl e)
           | (n, s, Inr results_fut) \<Rightarrow>
               map_option (\<lambda>(ms, r). (\<lparr>next_oneshot = n, user_channel = s\<rparr>, ms, r))
                 (handle_confirmation (map answers results_fut) keys elapsed)))"

section \<open>The service methods\<close>

definition grpc_acknowledge where
  "grpc_acknowledge send answers elapsed devices user g =
     submit_and_confirm_user_update send answers elapsed devices Acknowledge user g"

definition grpc_activate where
  "grpc_activate send answers elapsed devices user g =
     submit_and_confirm_user_update send answers elapsed devices Activate user g"

definition grpc_bypass where
  "grpc_bypass send answers elapsed devices user g =
     submit_and_confirm_user_update send answers elapsed devices (Bypass None) user g"

definition grpc_snooze where
  "grpc_snooze send answers elapsed devices wake user g =
     (if wake = None then Some (g, [], Inl (Invalid_Argument ''wake timestamp is required''))
      else submit_and_confirm_user_update send answers elapsed devices (Bypass wake) user g)"

definition grpc_get_snapshot ::
  "'s user_channel \<Rightarrow> (snapshot_sender \<Rightarrow> unit + alarms_snapshot) \<Rightarrow> 's grpc_state \<Rightarrow>
   's grpc_state \<times> (tonic_status + alarms_snapshot)" where
  "grpc_get_snapshot send snapshots g =
     (let n = next_oneshot g in
      case send (SnapshotRequest n) (user_channel g) of
        (s, Inl e) \<Rightarrow> (\<lparr>next_oneshot = n + 1, user_channel = s\<rparr>, Inl (map_user_send_error e))
      | (s, Inr _) \<Rightarrow> (\<lparr>next_oneshot = n + 1, user_channel = s\<rparr>,
          (case snapshots n of
             Inr snapshot \<Rightarrow> Inr snapshot
           | Inl _ \<Rightarrow> Inl (Internal_Status ''The alarms state machine has shut down!''))))"

section \<open>Which answer a command gets\<close>

fun answer_failed :: "confirmation_result \<Rightarrow> bool" where
  "answer_failed (Inl _) = True"
| "answer_failed (Inr (Inl (Internal _))) = True"
| "answer_failed _ = False"

fun answer_refused :: "confirmation_result \<Rightarrow> bool" where
  "answer_refused (Inr (Inl (StateNotAllowed _))) = True"
| "answer_refused _ = False"

lemma answer_cases:
  "(\<not> answer_failed r \<and> \<not> answer_refused r) \<longleftrightarrow> r = Inr (Inr ())"
  by (cases r rule: answer_failed.cases) auto

lemma list_ex_map: "list_ex P (map f xs) = list_ex (P \<circ> f) xs"
  by (induction xs) auto

lemma collect_results_ok:
  "index + length rs \<le> length keys \<Longrightarrow>
     \<exists>bad internal. collect_results keys index rs = Some (bad, internal) \<and>
       (bad = []) = (\<not> list_ex answer_refused rs) \<and> (internal = []) = (\<not> list_ex answer_failed rs)"
proof (induction rs arbitrary: index)
  case Nil
  then show ?case by simp
next
  case (Cons r rs)
  from Cons.prems have "index + 1 + length rs \<le> length keys" by simp
  from Cons.IH [OF this] obtain bad internal where
    IH: "collect_results keys (Suc index) rs = Some (bad, internal)"
      "(bad = []) = (\<not> list_ex answer_refused rs)" "(internal = []) = (\<not> list_ex answer_failed rs)"
    by auto
  have "index < length keys" using Cons.prems by simp
  with IH show ?case
    by (cases r rule: answer_failed.cases) simp_all
qed

lemma submit_updates_length:
  "submit_updates send action user keys n s = (n', s', Inr confs) \<Longrightarrow> length confs = length keys"
proof (induction keys arbitrary: n s confs)
  case (Cons key keys)
  obtain s1 r where s1: "send (UserUpdate key action user n) s = (s1, r)" by fastforce
  with Cons.prems obtain cs where "submit_updates send action user keys (n + 1) s1 = (n', s', Inr cs)"
    "confs = n # cs"
    by (cases r) (auto split: prod.splits sum.splits)
  with Cons.IH [of "n + 1" s1 cs] show ?case by simp
qed simp

text \<open>
  C28: a command always gets one answer and the service never panics. A command with an
  unreadable alarm name sends nothing at all. Otherwise one message per alarm is sent in
  order, unless a send fails; and when all are sent, the caller gets success exactly if every
  alarm was confirmed, an invalid-argument status if some were refused and none failed, and an
  internal status if any failed or its confirmation was dropped.
\<close>

theorem grpc_answers:
  "\<exists>g' ms r. submit_and_confirm_user_update send answers elapsed devices action user g = Some (g', ms, r) \<and>
    (case build_keys devices of
       Inl e \<Rightarrow> g' = g \<and> ms = [] \<and> r = Inl e
     | Inr keys \<Rightarrow>
         (case submit_updates send action user keys (next_oneshot g) (user_channel g) of
            (n, s, Inl e) \<Rightarrow> g' = \<lparr>next_oneshot = n, user_channel = s\<rparr> \<and> ms = [] \<and> r = Inl e
          | (n, s, Inr confs) \<Rightarrow> g' = \<lparr>next_oneshot = n, user_channel = s\<rparr> \<and>
              ms = [Record_confirmation_latency elapsed] \<and> length confs = length keys \<and>
              (if list_ex (answer_failed \<circ> answers) confs then \<exists>t. r = Inl (Internal_Status t)
               else if list_ex (answer_refused \<circ> answers) confs then \<exists>t. r = Inl (Invalid_Argument t)
               else r = Inr ())))"
proof (cases "build_keys devices")
  case (Inl e)
  then show ?thesis by (simp add: submit_and_confirm_user_update_def)
next
  case (Inr keys)
  obtain n s r where sub: "submit_updates send action user keys (next_oneshot g) (user_channel g) = (n, s, r)"
    by (metis prod_cases3)
  show ?thesis
  proof (cases r)
    case (Inl e)
    with Inr sub show ?thesis
      by (simp add: submit_and_confirm_user_update_def)
  next
    case r: (Inr confs)
    have len: "length confs = length keys" using sub unfolding r by (rule submit_updates_length)
    then have "0 + length (map answers confs) \<le> length keys" by simp
    from collect_results_ok [OF this] obtain bad internal where
      c: "collect_results keys 0 (map answers confs) = Some (bad, internal)"
         "(bad = []) = (\<not> (list_ex (answer_refused \<circ> answers) confs))"
         "(internal = []) = (\<not> (list_ex (answer_failed \<circ> answers) confs))"
      by (auto simp: list_ex_map)
    have "submit_and_confirm_user_update send answers elapsed devices action user g =
        Some (\<lparr>next_oneshot = n, user_channel = s\<rparr>, [Record_confirmation_latency elapsed],
          build_grpc_result bad internal)"
      using Inr sub r c(1) by (simp add: submit_and_confirm_user_update_def handle_confirmation_def)
    then show ?thesis
      using Inr sub r len c(2,3)
      by (cases "list_ex (answer_failed \<circ> answers) confs";
          cases "list_ex (answer_refused \<circ> answers) confs")
        (simp_all add: build_grpc_result_def Let_def)
  qed
qed

section \<open>A full queue\<close>

definition bounded_send :: "nat \<Rightarrow> bool \<Rightarrow> domain_input list user_channel" where
  "bounded_send cap is_open m q = (let (q', ms, r) = user_try_send cap is_open q m in (q', r))"

lemma bounded_send_open [simp]:
  "length q < cap \<Longrightarrow> bounded_send cap True m q = (q @ [m], Inr ())"
  "\<not> length q < cap \<Longrightarrow> bounded_send cap True m q = (q, Inl Full)"
  by (simp_all add: bounded_send_def user_try_send_def try_send_def)

fun command_messages :: "user_action \<Rightarrow> string \<Rightarrow> nat \<Rightarrow> alarm_key list \<Rightarrow> domain_input list" where
  "command_messages action user n [] = []"
| "command_messages action user n (key # keys) =
     UserUpdate key action user n # command_messages action user (n + 1) keys"

lemma submit_bounded:
  "length q \<le> cap \<Longrightarrow> submit_updates (bounded_send cap True) action user keys n q = (n', q', r) \<Longrightarrow>
     q' = q @ take (cap - length q) (command_messages action user n keys) \<and>
     (cap - length q < length keys \<longrightarrow> r = Inl (map_user_send_error Full)) \<and>
     (length keys \<le> cap - length q \<longrightarrow> (\<exists>confs. r = Inr confs))"
proof (induction keys arbitrary: n q n' q' r)
  case Nil
  then show ?case by auto
next
  case (Cons key keys)
  show ?case
  proof (cases "length q < cap")
    case True
    let ?q = "q @ [UserUpdate key action user n]"
    obtain n2 s2 r2 where rec: "submit_updates (bounded_send cap True) action user keys (n + 1) ?q = (n2, s2, r2)"
      by (metis prod_cases3)
    obtain d where d: "cap - length q = Suc d" "cap - length ?q = d"
      using True by (cases "cap - length q") auto
    have IH: "s2 = ?q @ take d (command_messages action user (n + 1) keys)"
      "d < length keys \<Longrightarrow> r2 = Inl (map_user_send_error Full)"
      "length keys \<le> d \<Longrightarrow> \<exists>confs. r2 = Inr confs"
      using Cons.IH [OF _ rec] True d(2) by simp_all
    have "q' = s2 \<and> (\<forall>e. r2 = Inl e \<longrightarrow> r = Inl e) \<and> (\<forall>cs. r2 = Inr cs \<longrightarrow> r = Inr (n # cs))"
      using Cons.prems(2) True rec
      by (auto split: sum.splits)
    with IH d show ?thesis by auto
  next
    case False
    with Cons.prems show ?thesis
      by simp
  qed
qed

text \<open>
  C40: what is sent when the user queue fills up. A command for more alarms than the queue has
  room for is answered with \<open>Resource_Exhausted\<close>, but the messages that fitted stay in the
  queue and will be carried out; a command that fits is queued completely.
\<close>

theorem full_queue_partial:
  assumes "build_keys devices = Inr keys" and "length (user_channel g) \<le> cap"
  shows "\<exists>g' ms r. submit_and_confirm_user_update (bounded_send cap True) answers elapsed devices action user g =
      Some (g', ms, r) \<and>
    user_channel g' = user_channel g @
      take (cap - length (user_channel g)) (command_messages action user (next_oneshot g) keys) \<and>
    (cap - length (user_channel g) < length keys \<longrightarrow> r = Inl (map_user_send_error Full))"
proof -
  obtain n s r where sub: "submit_updates (bounded_send cap True) action user keys (next_oneshot g) (user_channel g) = (n, s, r)"
    by (metis prod_cases3)
  note res = submit_bounded [OF assms(2) sub]
  show ?thesis
  proof (cases r)
    case (Inl e)
    then show ?thesis
      using assms(1) sub res by (auto simp: submit_and_confirm_user_update_def)
  next
    case (Inr confs)
    have len: "length confs = length keys" using sub unfolding Inr by (rule submit_updates_length)
    then have "0 + length (map answers confs) \<le> length keys" by simp
    from collect_results_ok [OF this] show ?thesis
      using assms(1) sub res Inr by (auto simp: submit_and_confirm_user_update_def handle_confirmation_def)
  qed
qed

section \<open>Witnesses\<close>

definition sample_grpc :: "domain_input list grpc_state" where
  "sample_grpc = \<lparr>next_oneshot = 4, user_channel = []\<rparr>"

lemma sample_keys: "build_keys [''m:a#epics'', ''m:b#analog''] =
   Inr [\<lparr>key_device = ''M:A'', key_source = Epics\<rparr>, \<lparr>key_device = ''M:B'', key_source = Analog\<rparr>]"
  by code_simp

theorem grpc_answers_witness:
  "\<exists>g' ms t. submit_and_confirm_user_update (bounded_send 8 True)
     (\<lambda>i. if i = 5 then Inl () else Inr (Inr ())) 3 [''m:a#epics'', ''m:b#analog''] Acknowledge ''op'' sample_grpc
     = Some (g', ms, Inl (Internal_Status t))"
proof -
  let ?keys = "[\<lparr>key_device = ''M:A'', key_source = Epics\<rparr>, \<lparr>key_device = ''M:B'', key_source = Analog\<rparr>]"
  have sub: "\<exists>s. submit_updates (bounded_send 8 True) Acknowledge ''op'' ?keys (next_oneshot sample_grpc)
      (user_channel sample_grpc) = (6, s, Inr [4, 5])"
    by (simp add: sample_grpc_def)
  with grpc_answers [of "bounded_send 8 True" "\<lambda>i. if i = 5 then Inl () else Inr (Inr ())" 3
      "[''m:a#epics'', ''m:b#analog'']" Acknowledge "''op''" sample_grpc]
  show ?thesis by (auto simp: sample_keys split: if_splits)
qed

theorem full_queue_partial_witness:
  "\<exists>g' ms. submit_and_confirm_user_update (bounded_send 1 True) (\<lambda>i. Inr (Inr ())) 3
     [''m:a#epics'', ''m:b#analog''] Acknowledge ''op'' sample_grpc
     = Some (g', ms, Inl (map_user_send_error Full)) \<and> length (user_channel g') = 1"
proof -
  have "length (user_channel sample_grpc) \<le> 1" by (simp add: sample_grpc_def)
  from full_queue_partial [OF sample_keys this, of "\<lambda>i. Inr (Inr ())" 3 Acknowledge "''op''"]
  show ?thesis by (auto simp: sample_grpc_def)
qed

end
