(* ===== verification/Alarm_Redis.thy ===== *)
theory Alarm_Redis
  imports Alarm_Ingress
begin

text \<open>
  The Redis stream reader (\<open>src/adapters/redis.rs\<close>): how an entry becomes a status, and
  which entries are forwarded to the automated ingress. Environment variables are the
  parameter \<open>env\<close>; the stream itself is the list of entries it yields, each with the wall
  clock at which it is handled. The sending operation is a parameter of the loop.
\<close>

type_synonym redis_entries = "(string, string) hmap"

section \<open>Numbers\<close>

definition digit_value :: "char \<Rightarrow> nat option" where
  "digit_value c = (let n = (of_char c :: nat) in if 48 \<le> n \<and> n \<le> 57 then Some (n - 48) else None)"

fun parse_digits :: "int \<Rightarrow> string \<Rightarrow> int option" where
  "parse_digits acc [] = Some acc"
| "parse_digits acc (c # cs) =
     (case digit_value c of None \<Rightarrow> None | Some d \<Rightarrow> parse_digits (acc * 10 + int d) cs)"

text \<open>\<open>str::parse::<i64>\<close>: an optional sign, at least one digit, and a value in range.\<close>

definition parse_i64 :: "string \<Rightarrow> i64 option" where
  "parse_i64 s =
     (let (neg, ds) =
        (case s of
           [] \<Rightarrow> (False, [])
         | c # cs \<Rightarrow> if c = CHR ''-'' then (True, cs) else if c = CHR ''+'' then (False, cs) else (False, s)) in
      if ds = [] then None
      else case parse_digits 0 ds of
        None \<Rightarrow> None
      | Some n \<Rightarrow>
          (let v = (if neg then - n else n) in
           if - (2 ^ 63) \<le> v \<and> v < 2 ^ 63 then Some (word_of_int v) else None))"

section \<open>Entries\<close>

definition unwrap_or_default :: "string option \<Rightarrow> string" where
  "unwrap_or_default s = (case s of Some x \<Rightarrow> x | None \<Rightarrow> [])"

definition redis_severity :: "string \<Rightarrow> alarm_severity \<times> alarm_state" where
  "redis_severity severity_str =
     (if severity_str = ''NO_ALARM'' then (Severity_Unknown, Ok)
      else if severity_str = ''LOW'' \<or> severity_str = ''MINOR'' then (Low, Alarmed)
      else if severity_str = ''HIGH'' \<or> severity_str = ''MAJOR'' then (High, Alarmed)
      else (Severity_Unknown, Unknown))"

definition redis_source :: "string \<Rightarrow> alarm_source" where
  "redis_source s =
     (if s = ''ANALOG'' then Analog
      else if s = ''DIGITAL'' then Digital
      else if s = ''EPICS'' then Epics
      else Source_Unknown)"

definition build_status_from_redis :: "proto \<Rightarrow> i64 \<Rightarrow> redis_entries \<Rightarrow> status" where
  "build_status_from_redis pb now redis_entries =
     (let device = to_uppercase (unwrap_or_default (hm_get redis_entries ''device''));
          severity_str = to_uppercase (unwrap_or_default (hm_get redis_entries ''severity''));
          (severity_enum, state_enum) = redis_severity severity_str;
          source_enum = redis_source (to_uppercase (unwrap_or_default (hm_get redis_entries ''source'')));
          time_secs =
            (case Option.bind (hm_get redis_entries ''timestamp'') (\<lambda>time_str. parse_i64 (trim time_str)) of
               Some parsed \<Rightarrow> parsed
             | None \<Rightarrow> now) in
      status_default\<lparr>
        st_device := device,
        st_severity := severity_to_i32 pb severity_enum,
        st_state := state_to_i32 pb state_enum,
        st_source := source_to_i32 pb source_enum,
        st_acknowledgeable := False,
        st_time := Some \<lparr>ts_seconds = time_secs, ts_nanos = 0\<rparr>,
        st_epics_type := [],
        st_user := [],
        st_wake := None\<rparr>)"

text \<open>
  The stream loop: the final ingress state and the updates whose send failed, which are
  logged; a failed send does not end the loop.
\<close>

fun run_alarm_stream ::
  "proto \<Rightarrow> (status \<Rightarrow> 's \<Rightarrow> 's \<times> (status + unit)) \<Rightarrow> (i64 \<times> redis_entries) list \<Rightarrow> 's \<Rightarrow>
   's \<times> status list" where
  "run_alarm_stream pb send [] s = (s, [])"
| "run_alarm_stream pb send ((now, payload) # stream) s =
     (let status = build_status_from_redis pb now payload in
      if st_device status = [] then run_alarm_stream pb send stream s
      else
        (case send status s of
           (s1, Inr _) \<Rightarrow> run_alarm_stream pb send stream s1
         | (s1, Inl e) \<Rightarrow>
             (let (s2, errors) = run_alarm_stream pb send stream s1 in (s2, e # errors))))"

section \<open>Configuration\<close>

definition env_or :: "(string \<Rightarrow> string option) \<Rightarrow> string \<Rightarrow> string \<Rightarrow> string" where
  "env_or env name default_value = (case env name of Some v \<Rightarrow> v | None \<Rightarrow> default_value)"

abbreviation ALARM_REDIS_HOST :: string where "ALARM_REDIS_HOST \<equiv> ''EPICS_ALARM_REDIS_HOST''"
abbreviation ALARM_REDIS_PORT :: string where "ALARM_REDIS_PORT \<equiv> ''EPICS_ALARM_REDIS_PORT''"
abbreviation ALARM_REDIS_STREAM_KEY :: string where "ALARM_REDIS_STREAM_KEY \<equiv> ''EPICS_ALARM_REDIS_KEY''"

abbreviation DEFAULT_REDIS_HOST :: string where "DEFAULT_REDIS_HOST \<equiv> ''127.0.0.1''"
abbreviation DEFAULT_REDIS_PORT :: string where "DEFAULT_REDIS_PORT \<equiv> ''6379''"
abbreviation DEFAULT_STREAM_KEY :: string where "DEFAULT_STREAM_KEY \<equiv> ''acorn:alarms''"

definition redis_url :: "(string \<Rightarrow> string option) \<Rightarrow> string" where
  "redis_url env =
     (let host = env_or env ALARM_REDIS_HOST DEFAULT_REDIS_HOST;
          port = env_or env ALARM_REDIS_PORT DEFAULT_REDIS_PORT in
      ''redis://'' @ host @ '':'' @ port @ ''/'')"

definition redis_stream_key :: "(string \<Rightarrow> string option) \<Rightarrow> string" where
  "redis_stream_key env = env_or env ALARM_REDIS_STREAM_KEY DEFAULT_STREAM_KEY"

text \<open>\<open>start_redis_reader\<close>: connect with the configured parameters and run the loop.\<close>

definition start_redis_reader ::
  "proto \<Rightarrow> (string \<Rightarrow> string option) \<Rightarrow> (string \<Rightarrow> string \<Rightarrow> (i64 \<times> redis_entries) list) \<Rightarrow>
   (status \<Rightarrow> 's \<Rightarrow> 's \<times> (status + unit)) \<Rightarrow> 's \<Rightarrow> 's \<times> status list" where
  "start_redis_reader pb env subscribe send s =
     run_alarm_stream pb send (subscribe (redis_url env) (redis_stream_key env)) s"

section \<open>What is forwarded\<close>

definition forwarded :: "proto \<Rightarrow> (i64 \<times> redis_entries) list \<Rightarrow> status list" where
  "forwarded pb stream = filter (\<lambda>st. st_device st \<noteq> [])
     (map (\<lambda>(now, payload). build_status_from_redis pb now payload) stream)"

fun submit_all ::
  "(status \<Rightarrow> 's \<Rightarrow> 's \<times> (status + unit)) \<Rightarrow> status list \<Rightarrow> 's \<Rightarrow> 's \<times> (status + unit) list" where
  "submit_all send [] s = (s, [])"
| "submit_all send (st # sts) s =
     (let (s1, r) = send st s; (s2, rs) = submit_all send sts s1 in (s2, r # rs))"

lemma run_alarm_stream_submits:
  "fst (run_alarm_stream pb send stream s) = fst (submit_all send (forwarded pb stream) s)"
  by (induction pb send stream s rule: run_alarm_stream.induct)
    (auto simp: forwarded_def Let_def split: prod.splits sum.splits)

lemma build_status_fields:
  assumes "proto_ok pb"
  shows "st_device (build_status_from_redis pb now es) = to_uppercase (unwrap_or_default (hm_get es ''device''))"
    and "status_state pb (build_status_from_redis pb now es) =
      snd (redis_severity (to_uppercase (unwrap_or_default (hm_get es ''severity''))))"
    and "status_severity pb (build_status_from_redis pb now es) =
      fst (redis_severity (to_uppercase (unwrap_or_default (hm_get es ''severity''))))"
    and "status_source pb (build_status_from_redis pb now es) =
      redis_source (to_uppercase (unwrap_or_default (hm_get es ''source'')))"
    and "st_wake (build_status_from_redis pb now es) = None"
    and "st_user (build_status_from_redis pb now es) = []"
  using assms
  by (simp_all add: build_status_from_redis_def Let_def status_state_def status_severity_def
      status_source_def split: prod.split)

text \<open>
  C39: the reader submits exactly the entries with a non-empty device, in stream order, whatever
  the sends return. Each submitted update is an automated one: its state is \<open>Ok\<close>,
  \<open>Alarmed\<close> or \<open>Unknown\<close>, it is alarmed exactly when it has a known severity, and
  it carries neither a user nor a wake time.
\<close>

theorem redis_forwards:
  assumes "proto_ok pb"
  shows "fst (run_alarm_stream pb send stream s) = fst (submit_all send (forwarded pb stream) s) \<and>
    (\<forall>st\<in>set (forwarded pb stream). st_device st \<noteq> [] \<and> status_state pb st \<in> {Ok, Alarmed, Unknown} \<and>
       (status_state pb st = Alarmed \<longleftrightarrow> status_severity pb st \<noteq> Severity_Unknown) \<and>
       st_wake st = None \<and> st_user st = [])"
proof -
  have sev: "snd (redis_severity t) \<in> {Ok, Alarmed, Unknown} \<and>
      (snd (redis_severity t) = Alarmed \<longleftrightarrow> fst (redis_severity t) \<noteq> Severity_Unknown)" for t
    by (simp add: redis_severity_def)
  have "status_state pb st \<in> {Ok, Alarmed, Unknown} \<and>
      (status_state pb st = Alarmed \<longleftrightarrow> status_severity pb st \<noteq> Severity_Unknown) \<and>
      st_wake st = None \<and> st_user st = []" if "st \<in> set (forwarded pb stream)" for st
  proof -
    from that obtain now es where "st = build_status_from_redis pb now es"
      by (auto simp: forwarded_def)
    then show ?thesis
      using sev [of "to_uppercase (unwrap_or_default (hm_get es ''severity''))"]
      by (auto simp: build_status_fields [OF assms])
  qed
  moreover have "st_device st \<noteq> []" if "st \<in> set (forwarded pb stream)" for st
    using that by (simp add: forwarded_def)
  ultimately show ?thesis unfolding run_alarm_stream_submits by blast
qed

text \<open>
  An entry whose device is only white space passes the check for an empty device, and its
  update is submitted under a key with an empty device name.
\<close>

lemma blank_device_forwarded:
  assumes "hm_get es ''device'' = Some d" "d \<noteq> []" "trim d = []"
  shows "key_device (key_from_status pb (build_status_from_redis pb now es)) = [] \<and>
    build_status_from_redis pb now es \<in> set (forwarded pb [(now, es)])"
  using assms
  by (auto simp: forwarded_def build_status_from_redis_def Let_def unwrap_or_default_def
      key_from_status_def trim_to_uppercase split: prod.split)

section \<open>Reading numbers\<close>

fun decimal :: "nat \<Rightarrow> string" where
  "decimal n = (if n < 10 then [char_of (48 + n)] else decimal (n div 10) @ [char_of (48 + n mod 10)])"

declare decimal.simps [simp del]

lemma digit_value_char: "d < 10 \<Longrightarrow> digit_value (char_of (48 + d)) = Some d"
  by (simp add: digit_value_def)

lemma parse_digits_append:
  "parse_digits acc (xs @ ys) = Option.bind (parse_digits acc xs) (\<lambda>a. parse_digits a ys)"
  by (induction xs arbitrary: acc) (auto split: option.splits)

lemma parse_decimal: "parse_digits 0 (decimal n) = Some (int n)"
proof (induction n rule: less_induct)
  case (less n)
  show ?case
  proof (cases "n < 10")
    case True
    then show ?thesis by (simp add: decimal.simps [of n] digit_value_char)
  next
    case False
    with less [of "n div 10"] show ?thesis
      by (simp add: decimal.simps [of n] parse_digits_append digit_value_char)
        (metis div_mult_mod_eq of_nat_add of_nat_mult of_nat_numeral)
  qed
qed

lemma decimal_hd: "\<exists>(d :: nat) cs. decimal n = char_of (48 + d) # cs \<and> d < 10"
proof (induction n rule: less_induct)
  case (less n)
  show ?case
  proof (cases "n < 10")
    case False
    then obtain d :: nat and cs where "decimal (n div 10) = char_of (48 + d) # cs" "d < 10"
      using less [of "n div 10"] by auto
    with False have "decimal n = char_of (48 + d) # (cs @ [char_of (48 + n mod 10)])"
      by (simp add: decimal.simps [of n])
    with \<open>d < 10\<close> show ?thesis by blast
  next
    case True
    then have "decimal n = char_of (48 + n) # []" by (simp add: decimal.simps [of n])
    with True show ?thesis by blast
  qed
qed

text \<open>
  A time stamp written in decimal is read back as the same number when it fits 64 bits, and
  is rejected otherwise.
\<close>

theorem parse_i64_decimal:
  "parse_i64 (decimal n) = (if n < 2 ^ 63 then Some (word_of_int (int n)) else None)"
proof -
  obtain d :: nat and cs where d: "decimal n = char_of (48 + d) # cs" "d < 10" using decimal_hd by blast
  have "digit_value CHR ''-'' = None" "digit_value CHR ''+'' = None" by code_simp+
  then have "char_of (48 + d) \<noteq> CHR ''-''" "char_of (48 + d) \<noteq> CHR ''+''"
    using digit_value_char [OF d(2)] by force+
  then have "parse_i64 (decimal n) = (case parse_digits 0 (decimal n) of None \<Rightarrow> None
      | Some v \<Rightarrow> if - (2 ^ 63) \<le> v \<and> v < 2 ^ 63 then Some (word_of_int v) else None)"
    by (simp add: parse_i64_def d(1) Let_def split: option.split)
  then show ?thesis by (auto simp: parse_decimal)
qed

section \<open>Witnesses\<close>

definition sample_entry :: redis_entries where
  "sample_entry = [(''device'', ''m:beam''), (''severity'', ''major''), (''source'', ''epics''),
     (''timestamp'', ''1700'')]"

theorem redis_forwards_witness:
  "fst (run_alarm_stream sample_proto (\<lambda>st s. (s @ [st], Inr ())) [(5, []), (6, sample_entry)] []) =
     [build_status_from_redis sample_proto 6 sample_entry]"
proof -
  have "forwarded sample_proto [(5, []), (6, sample_entry)] = [build_status_from_redis sample_proto 6 sample_entry]"
    by code_simp
  with redis_forwards [OF sample_proto_ok, of "\<lambda>st s. (s @ [st], Inr ())" "[(5, []), (6, sample_entry)]" "[]"]
  show ?thesis by simp
qed

end
