(* ===== verification/Alarm_Hydration.thy ===== *)
theory Alarm_Hydration
  imports Alarm_Coordinator
begin

text \<open>
  Startup hydration (\<open>src/runtime/hydration.rs\<close>, \<open>src/adapters/epics_hydration.rs\<close>,
  \<open>src/adapters/acnet_hydration.rs\<close>). The gRPC client of the AEOLUS proxy, the Kafka
  snapshot reader and the JSON parser are parameters, with error types of their own. The
  lemmas say which records survive the reduction of the EPICS topic, that the two sources are
  merged only when they share no key, and what the coordinator starts from.
\<close>

type_synonym hydrated_statuses = "(alarm_key, status) hmap"
type_synonym deserializer = "string \<Rightarrow> status option"

datatype ('ts, 'te, 'pe) hydration_error =
  AcnetSnapshotReadFailed 'ts
| AeolusProxyConnectionFailed 'te
| EpicsSnapshotReadFailed 'pe
| KeyInMultipleSources alarm_key

fun hydration_error_to_string ::
  "('ts \<Rightarrow> string) \<Rightarrow> ('te \<Rightarrow> string) \<Rightarrow> ('pe \<Rightarrow> string) \<Rightarrow> ('ts, 'te, 'pe) hydration_error \<Rightarrow> string" where
  "hydration_error_to_string ts te pe (AcnetSnapshotReadFailed status) =
     ''Failed reading ACNET snapshot. Cause: '' @ ts status"
| "hydration_error_to_string ts te pe (AeolusProxyConnectionFailed source) =
     ''Failed contacting AEOLUS proxy. Cause: '' @ te source"
| "hydration_error_to_string ts te pe (KeyInMultipleSources key) =
     ''Encountered identical key from more than one hydration source: '' @ key_to_string key"
| "hydration_error_to_string ts te pe (EpicsSnapshotReadFailed source) =
     ''Failed reading EPICS snapshot. Cause: '' @ pe source"

section \<open>The EPICS topic\<close>

definition reduce_record ::
  "proto \<Rightarrow> deserializer \<Rightarrow> hydrated_statuses \<Rightarrow> string_message \<Rightarrow> hydrated_statuses" where
  "reduce_record pb from_json hydrated record =
     (case msg_key record of
        None \<Rightarrow> hydrated
      | Some key_text \<Rightarrow>
          (case key_try_from key_text of
             Inl err \<Rightarrow> hydrated
           | Inr key \<Rightarrow>
               if key_source key \<noteq> Epics then hydrated
               else
                 (let value = msg_body record in
                  if trim value = [] \<or> eq_ignore_ascii_case (trim value) ''null''
                  then hm_remove hydrated key
                  else
                    (case from_json value of
                       None \<Rightarrow> hydrated
                     | Some status \<Rightarrow>
                         if status_source pb status \<noteq> Epics then hydrated
                         else if status_state pb status = Bypassed
                         then hm_insert hydrated key status
                         else hm_remove hydrated key))))"

definition reduce_snapshot :: "proto \<Rightarrow> deserializer \<Rightarrow> string_message list \<Rightarrow> hydrated_statuses" where
  "reduce_snapshot pb from_json records = foldl (reduce_record pb from_json) hm_new records"

definition load_epics_hydration ::
  "proto \<Rightarrow> deserializer \<Rightarrow> (string \<Rightarrow> string \<Rightarrow> 'pe + string_message list) \<Rightarrow> string \<Rightarrow> string \<Rightarrow>
   ('ts, 'te, 'pe) hydration_error + hydrated_statuses" where
  "load_epics_hydration pb from_json snapshot_get host topic =
     (case snapshot_get host topic of
        Inl e \<Rightarrow> Inl (EpicsSnapshotReadFailed e)
      | Inr records \<Rightarrow> Inr (reduce_snapshot pb from_json records))"

section \<open>The ACNET proxy\<close>

record ('c, 'ts, 'te) aeolus_client =
  from_endpoint :: "string \<Rightarrow> 'te + 'c"
  get_alarms_snapshot :: "'c \<Rightarrow> 'ts + status list"

definition load_acnet_hydration ::
  "proto \<Rightarrow> ('c, 'ts, 'te) aeolus_client \<Rightarrow> string \<Rightarrow> ('ts, 'te, 'pe) hydration_error + hydrated_statuses" where
  "load_acnet_hydration pb api host =
     (case from_endpoint api host of
        Inl e \<Rightarrow> Inl (AeolusProxyConnectionFailed e)
      | Inr aeolus_proxy \<Rightarrow>
          (case get_alarms_snapshot api aeolus_proxy of
             Inl e \<Rightarrow> Inl (AcnetSnapshotReadFailed e)
           | Inr snapshot \<Rightarrow> Inr (hm_collect (map (\<lambda>status. (key_from_status pb status, status)) snapshot))))"

section \<open>The merge\<close>

fun merge_hydrated_statuses ::
  "hydrated_statuses \<Rightarrow> hydrated_statuses \<Rightarrow> ('ts, 'te, 'pe) hydration_error + hydrated_statuses" where
  "merge_hydrated_statuses accumulated [] = Inr accumulated"
| "merge_hydrated_statuses accumulated ((key, status) # incoming) =
     (if hm_contains_key accumulated key then Inl (KeyInMultipleSources key)
      else merge_hydrated_statuses (hm_insert accumulated key status) incoming)"

text \<open>
  \<open>try_join!\<close> returns the error of the loader that fails first; which one that is when both
  fail is the argument \<open>epics_first\<close>.
\<close>

definition try_join :: "bool \<Rightarrow> 'e + 'a \<Rightarrow> 'e + 'b \<Rightarrow> 'e + 'a \<times> 'b" where
  "try_join second_first x y =
     (case (x, y) of
        (Inr a, Inr b) \<Rightarrow> Inr (a, b)
      | (Inl e, Inr b) \<Rightarrow> Inl e
      | (Inr a, Inl e) \<Rightarrow> Inl e
      | (Inl e, Inl f) \<Rightarrow> Inl (if second_first then f else e))"

definition load_startup_hydration ::
  "proto \<Rightarrow> deserializer \<Rightarrow> ('c, 'ts, 'te) aeolus_client \<Rightarrow> (string \<Rightarrow> string \<Rightarrow> 'pe + string_message list) \<Rightarrow>
   bool \<Rightarrow> string \<Rightarrow> string \<Rightarrow> string \<Rightarrow> ('ts, 'te, 'pe) hydration_error + hydrated_statuses" where
  "load_startup_hydration pb from_json api snapshot_get epics_first acnet_host epics_host epics_topic =
     (case try_join epics_first (load_acnet_hydration pb api acnet_host)
             (load_epics_hydration pb from_json snapshot_get epics_host epics_topic) of
        Inl e \<Rightarrow> Inl e
      | Inr (acnet_statuses, epics_statuses) \<Rightarrow> merge_hydrated_statuses acnet_statuses epics_statuses)"

section \<open>Which records survive\<close>

text \<open>
  What one record says about the bypasses: nothing, that its alarm is bypassed with this
  status, or that it is not.
\<close>

definition record_verdict ::
  "proto \<Rightarrow> deserializer \<Rightarrow> string_message \<Rightarrow> (alarm_key \<times> status option) option" where
  "record_verdict pb from_json r =
     (case map_option key_try_from (msg_key r) of
        Some (Inr k) \<Rightarrow>
          if key_source k \<noteq> Epics then None
          else if trim (msg_body r) = [] \<or> eq_ignore_ascii_case (trim (msg_body r)) ''null'' then Some (k, None)
          else (case from_json (msg_body r) of
             Some st \<Rightarrow> if status_source pb st = Epics
               then Some (k, if status_state pb st = Bypassed then Some st else None) else None
           | None \<Rightarrow> None)
      | _ \<Rightarrow> None)"

definition verdict_on :: "proto \<Rightarrow> deserializer \<Rightarrow> alarm_key \<Rightarrow> string_message \<Rightarrow> status option option" where
  "verdict_on pb from_json k r = (case record_verdict pb from_json r of
     Some (j, v) \<Rightarrow> if j = k then Some v else None | None \<Rightarrow> None)"

text \<open>The last record with a verdict on the alarm decides.\<close>

fun last_verdict :: "('r \<Rightarrow> 'v option) \<Rightarrow> 'r list \<Rightarrow> 'v option" where
  "last_verdict f [] = None"
| "last_verdict f (r # rs) = (case last_verdict f rs of Some v \<Rightarrow> Some v | None \<Rightarrow> f r)"

lemma last_verdict_snoc [simp]:
  "last_verdict f (rs @ [r]) = (case f r of Some v \<Rightarrow> Some v | None \<Rightarrow> last_verdict f rs)"
  by (induction rs) (auto split: option.splits)

lemma last_verdict_SomeD: "last_verdict f rs = Some v \<Longrightarrow> \<exists>r\<in>set rs. f r = Some v"
  by (induction rs) (auto split: option.splits)

lemma reduce_record_get:
  "hm_get (reduce_record pb from_json h r) k =
     (case verdict_on pb from_json k r of Some v \<Rightarrow> v | None \<Rightarrow> hm_get h k)"
  by (auto simp: reduce_record_def verdict_on_def record_verdict_def Let_def
      split: option.splits sum.splits)

lemma reduce_record_wf: "hm_wf h \<Longrightarrow> hm_wf (reduce_record pb from_json h r)"
  by (auto simp: reduce_record_def Let_def split: option.splits sum.splits)

lemma reduce_snapshot_wf: "hm_wf (reduce_snapshot pb from_json rs)"
  by (induction rs rule: rev_induct) (simp_all add: reduce_snapshot_def reduce_record_wf)

lemma reduce_snapshot_get:
  "hm_get (reduce_snapshot pb from_json rs) k =
     (case last_verdict (verdict_on pb from_json k) rs of Some v \<Rightarrow> v | None \<Rightarrow> None)"
  by (induction rs rule: rev_induct)
    (simp_all add: reduce_snapshot_def reduce_record_get split: option.splits)

lemma verdict_bypassed:
  "verdict_on pb from_json k r = Some (Some st) \<Longrightarrow>
     key_source k = Epics \<and> status_source pb st = Epics \<and> status_state pb st = Bypassed \<and>
     from_json (msg_body r) = Some st"
  by (auto simp: verdict_on_def record_verdict_def split: option.splits sum.splits if_splits)

text \<open>
  C27: the reduction of the EPICS topic keeps, for each alarm, what the last record with a
  verdict on it says: a tombstone (an empty or null value) and a status that is not a bypass
  clear it, records without a usable key, with another source or with an unreadable payload
  are skipped. Only bypassed EPICS alarms remain.
\<close>

theorem reduce_snapshot_last:
  "hm_get (reduce_snapshot pb from_json rs) k =
     (case last_verdict (verdict_on pb from_json k) rs of Some v \<Rightarrow> v | None \<Rightarrow> None) \<and>
   (\<forall>st. hm_get (reduce_snapshot pb from_json rs) k = Some st \<longrightarrow>
      key_source k = Epics \<and> status_source pb st = Epics \<and> status_state pb st = Bypassed)"
  unfolding reduce_snapshot_get
  by (auto split: option.splits dest!: last_verdict_SomeD verdict_bypassed)

lemma merge_result:
  "hm_wf acc \<Longrightarrow> hm_wf inc \<Longrightarrow>
   (case merge_hydrated_statuses acc inc of
      Inr m \<Rightarrow> dom (hm_get acc) \<inter> dom (hm_get inc) = {} \<and>
        hm_get m = hm_get acc ++ hm_get inc \<and> hm_wf m
    | Inl e \<Rightarrow> \<exists>k. e = KeyInMultipleSources k \<and> k \<in> dom (hm_get acc) \<inter> dom (hm_get inc))"
proof (induction acc inc rule: merge_hydrated_statuses.induct)
  case (1 acc)
  have "hm_get ([] :: hydrated_statuses) = Map.empty" by (simp add: hm_get_def fun_eq_iff)
  with 1 show ?case by simp
next
  case (2 acc k st inc)
  have get: "hm_get ((k, st) # inc) = (hm_get inc)(k \<mapsto> st)"
    by (simp add: hm_get_def fun_eq_iff)
  have inc: "hm_wf inc" "hm_get inc k = None"
    using "2.prems"(2) by (auto simp: hm_wf_def hm_get_def map_of_eq_None_iff)
  show ?case
  proof (cases "hm_contains_key acc k")
    case True
    then show ?thesis by (simp add: get) blast
  next
    case False
    then have none: "hm_get acc k = None" by simp
    have d: "dom ((hm_get acc)(k \<mapsto> st)) \<inter> dom (hm_get inc) =
        dom (hm_get acc) \<inter> dom ((hm_get inc)(k \<mapsto> st))"
      using none inc(2) by auto
    have a: "(hm_get acc)(k \<mapsto> st) ++ hm_get inc = hm_get acc ++ (hm_get inc)(k \<mapsto> st)"
      using inc(2) by (auto simp: map_add_def fun_eq_iff split: option.splits)
    have mg: "merge_hydrated_statuses acc ((k, st) # inc) =
        merge_hydrated_statuses (hm_insert acc k st) inc"
      using False by simp
    show ?thesis
      using "2.IH" [OF False hm_wf_insert [OF "2.prems"(1)] inc(1)]
      unfolding hm_get_insert d a mg get .
  qed
qed

text \<open>
  C38: the merge succeeds exactly when the two sources share no key, and then holds the
  entries of both; otherwise startup fails with a key that is in both.
\<close>

theorem merge_disjoint:
  assumes "hm_wf acc" and "hm_wf inc"
  shows "case merge_hydrated_statuses acc inc of
      Inr m \<Rightarrow> dom (hm_get acc) \<inter> dom (hm_get inc) = {} \<and>
        hm_get m = hm_get acc ++ hm_get inc \<and> hm_wf m
    | Inl e \<Rightarrow> \<exists>k. e = KeyInMultipleSources k \<and> k \<in> dom (hm_get acc) \<inter> dom (hm_get inc)"
  by (rule merge_result [OF assms])

section \<open>What the coordinator starts from\<close>

lemma acnet_entries:
  assumes "load_acnet_hydration pb api host = Inr m"
  shows "hm_wf m" and "hm_get m k = Some st \<Longrightarrow>
    \<exists>c sts. from_endpoint api host = Inr c \<and> get_alarms_snapshot api c = Inr sts \<and>
      st \<in> set sts \<and> k = key_from_status pb st"
  using assms
  by (auto simp: load_acnet_hydration_def hm_get_collect dest!: map_of_SomeD split: sum.splits)

lemma epics_entries:
  assumes "load_epics_hydration pb from_json snapshot_get host topic = Inr m"
  shows "hm_wf m" and "hm_get m k = Some st \<Longrightarrow>
    \<exists>rs r. snapshot_get host topic = Inr rs \<and> r \<in> set rs \<and> from_json (msg_body r) = Some st \<and>
      key_source k = Epics \<and> status_state pb st = Bypassed"
  using assms
  by (auto simp: load_epics_hydration_def reduce_snapshot_wf reduce_snapshot_get
      dest!: last_verdict_SomeD verdict_bypassed split: sum.splits option.splits)

text \<open>
  When startup hydration succeeds, every confirmed entry of the new coordinator carries
  the baseline id and comes from one of the two sources: a status of the ACNET snapshot under
  its own key, or the payload of a record of the EPICS topic that says the alarm is bypassed.
\<close>

theorem startup_confirmed:
  fixes api :: "('c, 'ts, 'te) aeolus_client"
  assumes "(load_startup_hydration pb from_json api snapshot_get ef ah eh et ::
      ('ts, 'te, 'pe) hydration_error + hydrated_statuses) = Inr m"
    and "hm_get (confirmed_state (coordinator_new m)) k = Some (st, n)"
  shows "n = 0 \<and>
    ((\<exists>c sts. from_endpoint api ah = Inr c \<and> get_alarms_snapshot api c = Inr sts \<and>
        st \<in> set sts \<and> k = key_from_status pb st) \<or>
     (\<exists>rs r. snapshot_get eh et = Inr rs \<and> r \<in> set rs \<and> from_json (msg_body r) = Some st \<and>
        key_source k = Epics \<and> status_state pb st = Bypassed))"
proof -
  from assms(1) obtain a e where
    a: "(load_acnet_hydration pb api ah :: ('ts, 'te, 'pe) hydration_error + _) = Inr a" and
    e: "(load_epics_hydration pb from_json snapshot_get eh et :: ('ts, 'te, 'pe) hydration_error + _) = Inr e" and
    mg: "(merge_hydrated_statuses a e :: ('ts, 'te, 'pe) hydration_error + _) = Inr m"
    by (auto simp: load_startup_hydration_def try_join_def split: sum.splits)
  have m: "hm_get m = hm_get a ++ hm_get e" "hm_wf m"
    using merge_result [where acc = a and inc = e and ?'a = 'ts and ?'b = 'te and ?'c = 'pe]
      acnet_entries(1) [OF a] epics_entries(1) [OF e] mg by simp_all
  have "n = 0" and "hm_get m k = Some st"
    using assms(2) by (auto simp: coordinator_new_confirmed [OF m(2)] DEFAULT_HYDRATED_ID_def)
  then show ?thesis
    using m(1) acnet_entries(2) [OF a] epics_entries(2) [OF e] by (auto simp: map_add_Some_iff)
qed

section \<open>Witnesses\<close>

definition sample_parse :: deserializer where
  "sample_parse s = (if s = ''bypass'' then Some (sample_status ''M:BEAM'' Bypassed Low Epics)
     else if s = ''alarm'' then Some (sample_status ''M:BEAM'' Alarmed Low Epics) else None)"

definition sample_records :: "string_message list" where
  "sample_records = [\<lparr>msg_key = Some ''M:BEAM#Epics'', msg_body = ''bypass''\<rparr>,
     \<lparr>msg_key = Some ''M:QUAD#Epics'', msg_body = ''bypass''\<rparr>,
     \<lparr>msg_key = Some ''M:QUAD#Epics'', msg_body = '' Null ''\<rparr>,
     \<lparr>msg_key = None, msg_body = ''bypass''\<rparr>,
     \<lparr>msg_key = Some ''M:BEAM#Analog'', msg_body = ''alarm''\<rparr>]"

definition sample_aeolus :: "(unit, string, string) aeolus_client" where
  "sample_aeolus = \<lparr>from_endpoint = (\<lambda>h. if h = [] then Inl ''no host'' else Inr ()),
     get_alarms_snapshot = (\<lambda>c. Inr [sample_status ''M:OUTTMP'' Alarmed High Analog])\<rparr>"

definition sample_epics_key :: alarm_key where
  "sample_epics_key = \<lparr>key_device = ''M:BEAM'', key_source = Epics\<rparr>"

lemma sample_epics_get:
  "hm_get (reduce_snapshot sample_proto sample_parse sample_records) sample_epics_key =
     Some (sample_status ''M:BEAM'' Bypassed Low Epics)"
  by code_simp

theorem reduce_snapshot_last_witness:
  "(case last_verdict (verdict_on sample_proto sample_parse sample_epics_key) sample_records of
      Some v \<Rightarrow> v | None \<Rightarrow> None) = Some (sample_status ''M:BEAM'' Bypassed Low Epics)"
  using reduce_snapshot_last [of sample_proto sample_parse sample_records sample_epics_key]
  unfolding sample_epics_get by (elim conjE) (rule sym)

theorem merge_disjoint_witness:
  "case merge_hydrated_statuses [(sample_epics_key, status_default)]
        [(\<lparr>key_device = ''Q'', key_source = Analog\<rparr>, status_default)] ::
      (unit, unit, unit) hydration_error + hydrated_statuses of
     Inr m \<Rightarrow> hm_get m sample_epics_key = Some status_default | Inl e \<Rightarrow> False"
proof -
  let ?a = "[(sample_epics_key, status_default)]"
  let ?b = "[(\<lparr>key_device = ''Q'', key_source = Analog\<rparr>, status_default)]"
  have "hm_wf ?a" "hm_wf ?b" by (simp_all add: hm_wf_def)
  from merge_disjoint [OF this, where ?'a = unit and ?'b = unit and ?'c = unit] show ?thesis
    by (auto simp: hm_get_def sample_epics_key_def map_add_def split: sum.splits)
qed

lemma sample_startup:
  "(load_startup_hydration sample_proto sample_parse sample_aeolus (\<lambda>h t. Inr sample_records)
     False ''host'' ''kafka'' ''alarms'' :: (string, string, unit) hydration_error + hydrated_statuses) =
   Inr [(\<lparr>key_device = ''M:OUTTMP'', key_source = Analog\<rparr>, sample_status ''M:OUTTMP'' Alarmed High Analog),
        (sample_epics_key, sample_status ''M:BEAM'' Bypassed Low Epics)]"
  by code_simp

lemma sample_startup_get:
  "hm_get (confirmed_state (coordinator_new
     [(\<lparr>key_device = ''M:OUTTMP'', key_source = Analog\<rparr>, sample_status ''M:OUTTMP'' Alarmed High Analog),
      (sample_epics_key, sample_status ''M:BEAM'' Bypassed Low Epics)])) sample_epics_key =
   Some (sample_status ''M:BEAM'' Bypassed Low Epics, 0)"
  by code_simp

theorem startup_confirmed_witness:
  "\<exists>r. r \<in> set sample_records \<and>
     sample_parse (msg_body r) = Some (sample_status ''M:BEAM'' Bypassed Low Epics)"
proof -
  have "key_from_status sample_proto (sample_status ''M:BEAM'' Bypassed Low Epics) = sample_epics_key"
    by code_simp
  moreover have "sample_status ''M:BEAM'' Bypassed Low Epics \<noteq> sample_status ''M:OUTTMP'' Alarmed High Analog"
    by (metis sample_status_simps(1) alarm_state.distinct)
  ultimately show ?thesis
    using startup_confirmed [OF sample_startup sample_startup_get]
    by (auto simp: sample_aeolus_def)
qed

end
