(* ===== verification/Alarm_System.thy ===== *)
theory Alarm_System
  imports Coordinator_Properties Alarm_Workflow Alarm_Snooze Alarm_Publish Alarm_Grpc Alarm_Redis Alarm_Hydration
begin

text \<open>
  The running service (\<open>src/runtime.rs\<close>, \<open>src/main.rs\<close>): the coordinator, the workflow
  handler, the snooze scheduler and the publish engine joined by their channels, each of which
  is a queue. A step is one turn of one task on the head of one of its queues, with the inputs
  of the adapters, the clock, the publisher's answers and the moments timers are polled left to
  the environment. The queues have no bound here: a send completes at once.

  The theory shows that the effect workers and the workflow handler together keep the contract
  of the job executor that \<open>Coordinator_Machine\<close> assumes, so that its theorems hold
  of the service, and that no task ever panics.
\<close>

section \<open>Configuration (\<open>main.rs\<close>)\<close>

text \<open>
  \<open>env_usize\<close> and \<open>env_u64\<close> stand for the parsed environment variables.
\<close>

abbreviation CONTROLS_KAFKA_HOST :: string where "CONTROLS_KAFKA_HOST \<equiv> ''CONTROLS_KAFKA_HOST''"
abbreviation DEFAULT_CONTROLS_HOST :: string where
  "DEFAULT_CONTROLS_HOST \<equiv> ''kafka-cluster-kafka-bootstrap.kafka.svc.adkube.fnal.gov:9092''"
abbreviation CONTROLS_ALARMS_TOPIC :: string where "CONTROLS_ALARMS_TOPIC \<equiv> ''CONTROLS_ALARMS_TOPIC''"
abbreviation DEFAULT_CONTROLS_TOPIC :: string where "DEFAULT_CONTROLS_TOPIC \<equiv> ''alarms''"
abbreviation AEOLUS_PROXY_HOST :: string where "AEOLUS_PROXY_HOST \<equiv> ''AEOLUS_PROXY_HOST''"
abbreviation DEFAULT_AEOLUS_PROXY :: string where
  "DEFAULT_AEOLUS_PROXY \<equiv> ''https://alarms-bridge-acnet.controls-appdev.svc.adkube.fnal.gov:6802''"

abbreviation ALARMS_AUTOMATED_QUEUE_CAPACITY :: string where "ALARMS_AUTOMATED_QUEUE_CAPACITY \<equiv> ''ALARMS_AUTOMATED_QUEUE_CAPACITY''"
abbreviation AUTOMATED_CAP_DEFAULT :: usize where "AUTOMATED_CAP_DEFAULT \<equiv> 4096"
abbreviation ALARMS_JOB_QUEUE_CAPACITY :: string where "ALARMS_JOB_QUEUE_CAPACITY \<equiv> ''ALARMS_JOB_QUEUE_CAPACITY''"
abbreviation JOB_CAP_DEFAULT :: usize where "JOB_CAP_DEFAULT \<equiv> 4096"
abbreviation ALARMS_USER_QUEUE_CAPACITY :: string where "ALARMS_USER_QUEUE_CAPACITY \<equiv> ''ALARMS_USER_QUEUE_CAPACITY''"
abbreviation USER_CAP_DEFAULT :: usize where "USER_CAP_DEFAULT \<equiv> 128"
abbreviation ALARMS_PUBLISH_QUEUE_CAPACITY :: string where "ALARMS_PUBLISH_QUEUE_CAPACITY \<equiv> ''ALARMS_PUBLISH_QUEUE_CAPACITY''"
abbreviation PUBLISH_CAP_DEFAULT :: usize where "PUBLISH_CAP_DEFAULT \<equiv> 4096"
abbreviation ALARMS_SNOOZE_QUEUE_CAPACITY :: string where "ALARMS_SNOOZE_QUEUE_CAPACITY \<equiv> ''ALARMS_SNOOZE_QUEUE_CAPACITY''"
abbreviation SNOOZE_CAP_DEFAULT :: usize where "SNOOZE_CAP_DEFAULT \<equiv> 128"

abbreviation ALARMS_METRICS_LOG_INTERVAL_SECS :: string where "ALARMS_METRICS_LOG_INTERVAL_SECS \<equiv> ''ALARMS_METRICS_LOG_INTERVAL_SECS''"
abbreviation METRICS_LOG_INTERVAL_DEFAULT_SECS :: u64 where "METRICS_LOG_INTERVAL_DEFAULT_SECS \<equiv> 30"

definition get_queue_sizes :: "(string \<Rightarrow> usize option) \<Rightarrow> queue_capacity_config" where
  "get_queue_sizes env_usize =
     (let automated = (case env_usize ALARMS_AUTOMATED_QUEUE_CAPACITY of Some n \<Rightarrow> n | None \<Rightarrow> AUTOMATED_CAP_DEFAULT);
          user = (case env_usize ALARMS_USER_QUEUE_CAPACITY of Some n \<Rightarrow> n | None \<Rightarrow> USER_CAP_DEFAULT);
          job = (case env_usize ALARMS_JOB_QUEUE_CAPACITY of Some n \<Rightarrow> n | None \<Rightarrow> JOB_CAP_DEFAULT);
          publish = (case env_usize ALARMS_PUBLISH_QUEUE_CAPACITY of Some n \<Rightarrow> n | None \<Rightarrow> PUBLISH_CAP_DEFAULT);
          snooze = (case env_usize ALARMS_SNOOZE_QUEUE_CAPACITY of Some n \<Rightarrow> n | None \<Rightarrow> SNOOZE_CAP_DEFAULT) in
      \<lparr>cap_automated = automated, cap_user = user, cap_job = job, cap_publish = publish, cap_snooze = snooze\<rparr>)"

definition get_kafka_host :: "(string \<Rightarrow> string option) \<Rightarrow> string" where
  "get_kafka_host env = env_or env CONTROLS_KAFKA_HOST DEFAULT_CONTROLS_HOST"

definition get_kafka_topic :: "(string \<Rightarrow> string option) \<Rightarrow> string" where
  "get_kafka_topic env = env_or env CONTROLS_ALARMS_TOPIC DEFAULT_CONTROLS_TOPIC"

definition get_aeolus_proxy_host :: "(string \<Rightarrow> string option) \<Rightarrow> string" where
  "get_aeolus_proxy_host env = env_or env AEOLUS_PROXY_HOST DEFAULT_AEOLUS_PROXY"

definition get_metrics_log_interval :: "(string \<Rightarrow> u64 option) \<Rightarrow> duration" where
  "get_metrics_log_interval env_u64 =
     unat (case env_u64 ALARMS_METRICS_LOG_INTERVAL_SECS of Some n \<Rightarrow> n | None \<Rightarrow> METRICS_LOG_INTERVAL_DEFAULT_SECS) * 1000000000"

section \<open>The tasks and their channels (\<open>runtime.rs\<close>)\<close>

record ('q, 'h) service =
  sv_coord :: coordinator
  sv_running :: bool
  sv_answers :: "(confirmation \<times> (update_error + unit)) list"
  sv_job_q :: "job list"
  sv_outcome_q :: "job_outcome list"
  sv_workflow :: workflow_handler
  sv_snooze_q :: "snooze_input list"
  sv_snooze :: "('q, 'h) scheduler"
  sv_snooze_out :: "snooze_outcome list"
  sv_publish_q :: "publish list"
  sv_publish :: publish_engine
  sv_publish_out :: "publish_outcome list"
  sv_panicked :: bool

definition runtime_start :: "('q, 'h) delay_ops \<Rightarrow> hydrated_statuses \<Rightarrow> ('q, 'h) service" where
  "runtime_start ops hydrated_statuses = \<lparr>
     sv_coord = coordinator_new hydrated_statuses, sv_running = True, sv_answers = [],
     sv_job_q = [], sv_outcome_q = [], sv_workflow = hm_new,
     sv_snooze_q = [], sv_snooze = scheduler_new ops, sv_snooze_out = [],
     sv_publish_q = [], sv_publish = engine_new, sv_publish_out = [], sv_panicked = False\<rparr>"

datatype service_event =
  Coordinator_Turn i64 coord_event
| Workflow_Publish
| Workflow_Snooze
| Workflow_Job
| Snooze_Turn clocks
| Timer_Poll instant
| Publish_Take
| Publish_Event publish_event

text \<open>What a task has sent goes to the queues of the receivers.\<close>

definition after_coord ::
  "coordinator \<times> coord_effect list \<times> bool \<Rightarrow> ('q, 'h) service \<Rightarrow> ('q, 'h) service" where
  "after_coord out s = (case out of (c, es, running) \<Rightarrow>
     s\<lparr>sv_coord := c, sv_running := running, sv_job_q := sv_job_q s @ sent_jobs es,
       sv_answers := sv_answers s @ sent_answers es\<rparr>)"

definition after_workflow :: "workflow_out \<Rightarrow> ('q, 'h) service \<Rightarrow> ('q, 'h) service" where
  "after_workflow out s = (case out of
     None \<Rightarrow> s\<lparr>sv_panicked := True\<rparr>
   | Some (w, es) \<Rightarrow> s\<lparr>sv_workflow := w, sv_outcome_q := sv_outcome_q s @ outcomes_of es,
       sv_snooze_q := sv_snooze_q s @ snoozes_of es,
       sv_publish_q := sv_publish_q s @ publishes_of es\<rparr>)"

definition after_snooze ::
  "(('q, 'h) scheduler \<times> snooze_outcome list) option \<Rightarrow> ('q, 'h) service \<Rightarrow> ('q, 'h) service" where
  "after_snooze out s = (case out of
     None \<Rightarrow> s\<lparr>sv_panicked := True\<rparr>
   | Some (sc, rs) \<Rightarrow> s\<lparr>sv_snooze := sc, sv_snooze_out := sv_snooze_out s @ rs\<rparr>)"

definition after_publish ::
  "(publish_engine \<times> publish_effect list) option \<Rightarrow> ('q, 'h) service \<Rightarrow> ('q, 'h) service" where
  "after_publish out s = (case out of
     None \<Rightarrow> s\<lparr>sv_panicked := True\<rparr>
   | Some (e, es) \<Rightarrow> s\<lparr>sv_publish := e, sv_publish_out := sv_publish_out s @ sent_outcomes es\<rparr>)"

text \<open>The coordinator takes a job outcome from its queue, inputs from the environment.\<close>

fun coord_takes :: "coord_event \<Rightarrow> ('q, 'h) service \<Rightarrow> ('q, 'h) service option" where
  "coord_takes (On_Outcome r) s =
     (case sv_outcome_q s of
        [] \<Rightarrow> None
      | r' # q \<Rightarrow> if r = r' then Some (s\<lparr>sv_outcome_q := q\<rparr>) else None)"
| "coord_takes (On_User m) s = Some s"
| "coord_takes (On_Automated m) s = Some s"
| "coord_takes All_Dropped s = None"
| "coord_takes Blocked s = None"

fun service_next ::
  "proto \<Rightarrow> serializer \<Rightarrow> chrono_ops \<Rightarrow> ('q, 'h) delay_ops \<Rightarrow> service_event \<Rightarrow> ('q, 'h) service \<Rightarrow>
   ('q, 'h) service option" where
  "service_next pb js ch ops (Coordinator_Turn now ev) s =
     (if \<not> sv_running s then None
      else map_option (after_coord (coord_turn pb now True (sv_coord s) ev)) (coord_takes ev s))"
| "service_next pb js ch ops Workflow_Publish s =
     (case sv_publish_out s of
        [] \<Rightarrow> None
      | r # q \<Rightarrow> Some (after_workflow (workflow_turn all_open (sv_workflow s) (Got_Publish r))
                       (s\<lparr>sv_publish_out := q\<rparr>)))"
| "service_next pb js ch ops Workflow_Snooze s =
     (case sv_snooze_out s of
        [] \<Rightarrow> None
      | r # q \<Rightarrow> Some (after_workflow (workflow_turn all_open (sv_workflow s) (Got_Snooze r))
                       (s\<lparr>sv_snooze_out := q\<rparr>)))"
| "service_next pb js ch ops Workflow_Job s =
     (case sv_job_q s of
        [] \<Rightarrow> None
      | j # q \<Rightarrow> Some (after_workflow (workflow_turn all_open (sv_workflow s) (Got_Job j))
                       (s\<lparr>sv_job_q := q\<rparr>)))"
| "service_next pb js ch ops (Snooze_Turn clk) s =
     (case sv_snooze_q s of
        [] \<Rightarrow> None
      | i # q \<Rightarrow> Some (after_snooze (snooze_replies ch ops (Snooze_Command clk i) (sv_snooze s))
                       (s\<lparr>sv_snooze_q := q\<rparr>)))"
| "service_next pb js ch ops (Timer_Poll now) s =
     Some (after_snooze (snooze_replies ch ops (Queue_Polled now) (sv_snooze s)) s)"
| "service_next pb js ch ops Publish_Take s =
     (case sv_publish_q s of
        [] \<Rightarrow> None
      | p # q \<Rightarrow> Some (after_publish (publish_turn js True (Got_Request p) (sv_publish s))
                       (s\<lparr>sv_publish_q := q\<rparr>)))"
| "service_next pb js ch ops (Publish_Event ev) s =
     (case ev of
        Got_Request p \<Rightarrow> None
      | _ \<Rightarrow> Some (after_publish (publish_turn js True ev (sv_publish s)) s))"

text \<open>A run is followed until the coordinator's 64-bit id counter would wrap.\<close>

inductive service_step ::
  "proto \<Rightarrow> serializer \<Rightarrow> chrono_ops \<Rightarrow> ('q, 'h) delay_ops \<Rightarrow> ('q, 'h) service \<Rightarrow> ('q, 'h) service \<Rightarrow> bool"
  for pb js ch ops where
  service_stepI: "id_counter (sv_coord s) \<noteq> - 1 \<Longrightarrow> \<not> sv_panicked s \<Longrightarrow>
     service_next pb js ch ops ev s = Some t \<Longrightarrow> service_step pb js ch ops s t"

inductive_cases service_stepE: "service_step pb js ch ops s t"

definition service_start :: "('q, 'h) delay_ops \<Rightarrow> ('q, 'h) service \<Rightarrow> bool" where
  "service_start ops s \<longleftrightarrow> (\<exists>h. hm_wf h \<and> s = runtime_start ops h)"

section \<open>The contract of the job executor\<close>

text \<open>
  The jobs in the service: queued for the workflow handler, tracked by it, or on their way back
  to the coordinator. The coordinator machine has the same jobs in flight.
\<close>

definition pipe_jobs :: "('q, 'h) service \<Rightarrow> job multiset" where
  "pipe_jobs s = mset (sv_job_q s) + tracked_jobs (sv_workflow s) + mset (outcome_jobs (sv_outcome_q s))"

definition simulates :: "('q, 'h) service \<Rightarrow> cmachine \<Rightarrow> bool" where
  "simulates s m \<longleftrightarrow> cm_coord m = sv_coord s \<and> cm_running m = sv_running s \<and>
     cm_answers m = sv_answers s \<and> mset (cm_jobs m) = pipe_jobs s"

definition results_keys :: "publish_outcome list \<Rightarrow> alarm_key multiset" where
  "results_keys rs = mset (map sym_into_inner (List.concat (map outcome_results rs)))"

lemma results_keys_simps [simp]:
  "results_keys [] = {#}"
  "results_keys (r # rs) = mset (map sym_into_inner (outcome_results r)) + results_keys rs"
  "results_keys (rs @ qs) = results_keys rs + results_keys qs"
  by (simp_all add: results_keys_def)

lemma results_keys_sent: "results_keys (sent_outcomes es) = keys_of publish_answered es"
proof (induction es)
  case (Cons e es)
  then show ?case by (cases e) simp_all
qed simp

text \<open>
  Every tracked job waits for exactly one answer: a job at the first step has one command or
  reply between the handler and the snooze scheduler, a job at the second step one request,
  attempt or result between the handler and the publish engine.
\<close>

definition pipe_ok :: "('q \<Rightarrow> 'h \<Rightarrow> (alarm_key \<times> instant) option) \<Rightarrow> ('q, 'h) service \<Rightarrow> bool" where
  "pipe_ok view s \<longleftrightarrow> \<not> sv_panicked s \<and> workflow_ok (sv_workflow s) \<and> sched_ok view (sv_snooze s) \<and>
     engine_ok (sv_publish s) \<and>
     awaiting 1 (sv_workflow s) =
       mset (map si_key (sv_snooze_q s)) + keys_of snooze_answered (sv_snooze_out s) \<and>
     awaiting 2 (sv_workflow s) =
       mset (map request_key (sv_publish_q s)) + publish_held (sv_publish s) + results_keys (sv_publish_out s)"

lemma pipe_okD:
  assumes "pipe_ok view s"
  shows "workflow_ok (sv_workflow s)" "sched_ok view (sv_snooze s)" "engine_ok (sv_publish s)"
    and "awaiting 1 (sv_workflow s) =
       mset (map si_key (sv_snooze_q s)) + keys_of snooze_answered (sv_snooze_out s)"
    and "awaiting 2 (sv_workflow s) =
       mset (map request_key (sv_publish_q s)) + publish_held (sv_publish s) + results_keys (sv_publish_out s)"
  using assms by (simp_all add: pipe_ok_def)

lemma distinct_count_le: "distinct xs \<Longrightarrow> count (mset xs) a \<le> 1"
  by (simp add: distinct_count_atmost_1)

lemma distinct_keys_apart:
  assumes "distinct (map f xs)" "mset xs = add_mset a (add_mset b M)"
  shows "f a \<noteq> f b"
proof
  assume "f a = f b"
  have "mset (map f xs) = add_mset (f a) (add_mset (f b) (image_mset f M))"
    by (simp add: assms(2))
  moreover have "count (mset (map f xs)) (f a) \<le> 1"
    by (rule distinct_count_le [OF assms(1)])
  ultimately show False using \<open>f a = f b\<close> by simp
qed

lemma new_job_absent:
  assumes inv: "cm_inv pb m" and sim: "simulates s m" and ok: "workflow_ok (sv_workflow s)"
    and q: "sv_job_q s = j # q"
  shows "hm_get (sv_workflow s) (job_key j) = None"
proof (rule ccontr)
  assume "hm_get (sv_workflow s) (job_key j) \<noteq> None"
  then obtain tj where tj: "hm_get (sv_workflow s) (job_key j) = Some tj" by auto
  from multi_member_split [OF get_tracked [OF tj]] obtain M where
    "tracked_jobs (sv_workflow s) = add_mset (tj_job tj) M" by blast
  then have "mset (cm_jobs m) = add_mset j (add_mset (tj_job tj) (mset q + M + mset (outcome_jobs (sv_outcome_q s))))"
    using sim q by (simp add: simulates_def pipe_jobs_def)
  moreover have "distinct (map job_key (cm_jobs m))"
    using inv by (simp add: cm_inv_def inv_flight_def)
  ultimately have "job_key j \<noteq> job_key (tj_job tj)" by (rule distinct_keys_apart [rotated])
  then show False using workflow_okD(2) [OF ok tj] by simp
qed

section \<open>Turns of the workflow handler\<close>

lemma job_turn_ok:
  assumes inv: "cm_inv pb m" and sim: "simulates s m" and ok: "pipe_ok view s"
    and nxt: "service_next pb js ch ops Workflow_Job s = Some t"
  shows "pipe_ok view t \<and> simulates t m"
proof -
  from nxt obtain j q where q: "sv_job_q s = j # q" by (auto split: list.splits)
  note none = new_job_absent [OF inv sim pipe_okD(1) [OF ok] q]
  note T = track_new [OF pipe_okD(1) [OF ok] none]
  from nxt q new_job_turn [of "sv_workflow s" j] T ok sim show ?thesis
    by (auto simp: after_workflow_def pipe_ok_def simulates_def pipe_jobs_def)
qed

lemma snooze_result_ok:
  assumes ok: "pipe_ok view s" and sim: "simulates s m"
    and nxt: "service_next pb js ch ops Workflow_Snooze s = Some t"
  shows "pipe_ok view t \<and> simulates t m"
proof -
  from nxt obtain r q where q: "sv_snooze_out s = r # q" by (auto split: list.splits)
  note wok = pipe_okD(1) [OF ok]
  show ?thesis
  proof (cases r)
    case (Expired k)
    with nxt q ok sim show ?thesis
      by (auto simp: after_workflow_def pipe_ok_def simulates_def pipe_jobs_def)
  next
    case (InvalidWake k)
    with q pipe_okD(4) [OF ok] have "k \<in># awaiting 1 (sv_workflow s)" by simp
    from awaiting_get [OF wok this] obtain j where
      get: "hm_get (sv_workflow s) k = Some \<lparr>tj_job = j, tj_step = 1\<rparr>" by blast
    note T = track_remove [OF wok get]
    from nxt q InvalidWake invalid_turn [OF get] T(1,2,3) T(4) [of 2] ok sim show ?thesis
      by (auto simp: after_workflow_def pipe_ok_def simulates_def pipe_jobs_def)
  next
    case (Accepted k)
    with q pipe_okD(4) [OF ok] have "k \<in># awaiting 1 (sv_workflow s)" by simp
    from awaiting_get [OF wok this] obtain j where
      get: "hm_get (sv_workflow s) k = Some \<lparr>tj_job = j, tj_step = 1\<rparr>" "job_key j = k" by blast
    note T = track_advance [OF wok get(1)]
    have "request_key (publish_of j) = k" using get(2) by (simp add: request_key_def)
    with nxt q Accepted accepted_turn [OF get] T ok sim show ?thesis
      by (auto simp: after_workflow_def pipe_ok_def simulates_def pipe_jobs_def)
  qed
qed

lemma publish_result_ok:
  assumes ok: "pipe_ok view s" and sim: "simulates s m"
    and nxt: "service_next pb js ch ops Workflow_Publish s = Some t"
  shows "pipe_ok view t \<and> simulates t m"
proof -
  from nxt obtain r q where q: "sv_publish_out s = r # q" by (auto split: list.splits)
  note wok = pipe_okD(1) [OF ok]
  let ?rs = "outcome_results r"
  have turn: "workflow_turn all_open w (Got_Publish r) = dispatch_batch all_open w ?rs" for w
    by (cases r) (auto simp: option.map_ident case_prod_unfold split: option.splits)
  have "mset (map sym_into_inner ?rs) \<subseteq># awaiting 2 (sv_workflow s)"
    using pipe_okD(5) [OF ok] q by simp
  from batch_step [OF wok this] obtain w' es where
    w': "dispatch_batch all_open (sv_workflow s) ?rs = Some (w', es)" "workflow_ok w'"
      "awaiting 1 w' = awaiting 1 (sv_workflow s)"
      "awaiting 2 (sv_workflow s) = mset (map sym_into_inner ?rs) + awaiting 2 w'"
      "tracked_jobs (sv_workflow s) = mset (outcome_jobs (outcomes_of es)) + tracked_jobs w'"
      "snoozes_of es = []" "publishes_of es = []" by blast
  have t: "t = s\<lparr>sv_publish_out := q, sv_workflow := w', sv_outcome_q := sv_outcome_q s @ outcomes_of es\<rparr>"
    using nxt q w'(1,6,7) by (simp add: turn after_workflow_def del: workflow_turn.simps)
  have "awaiting 2 w' = mset (map request_key (sv_publish_q s)) + publish_held (sv_publish s) + results_keys q"
    using pipe_okD(5) [OF ok] w'(4) q by (simp add: ac_simps)
  then have "pipe_ok view t"
    using ok w'(2,3) by (simp add: t pipe_ok_def)
  moreover have "simulates t m"
    using sim w'(5) by (simp add: t simulates_def pipe_jobs_def)
  ultimately show ?thesis by simp
qed

section \<open>Turns of the effect workers\<close>

lemma snooze_worker_ok:
  assumes laws: "delay_laws ops view" and ok: "pipe_ok view s" and sim: "simulates s m"
    and nxt: "service_next pb js ch ops (Snooze_Turn clk) s = Some t"
  shows "pipe_ok view t \<and> simulates t m"
proof -
  from nxt obtain i q where q: "sv_snooze_q s = i # q" by (auto split: list.splits)
  obtain sc rs where r: "snooze_replies ch ops (Snooze_Command clk i) (sv_snooze s) = Some (sc, rs)"
    "sched_ok view sc" "keys_of snooze_answered rs = {#si_key i#}"
    using snooze_replies_Some [OF laws pipe_okD(2) [OF ok], of ch "Snooze_Command clk i"] by auto
  from nxt q r ok sim show ?thesis
    by (auto simp: after_snooze_def pipe_ok_def simulates_def pipe_jobs_def)
qed

lemma timer_poll_ok:
  assumes laws: "delay_laws ops view" and ok: "pipe_ok view s" and sim: "simulates s m"
    and nxt: "service_next pb js ch ops (Timer_Poll now) s = Some t"
  shows "pipe_ok view t \<and> simulates t m"
proof -
  obtain sc rs where r: "snooze_replies ch ops (Queue_Polled now) (sv_snooze s) = Some (sc, rs)"
    "sched_ok view sc" "keys_of snooze_answered rs = {#}"
    using snooze_replies_Some [OF laws pipe_okD(2) [OF ok], of ch "Queue_Polled now"] by auto
  from nxt r ok sim show ?thesis
    by (auto simp: after_snooze_def pipe_ok_def simulates_def pipe_jobs_def)
qed

lemma publish_worker_ok:
  assumes total: "\<forall>st. js st \<noteq> None" and ok: "pipe_ok view s" and sim: "simulates s m"
    and ev: "publish_turn js True ev (sv_publish s) = Some (e', es)"
    and keys: "mset (map request_key (sv_publish_q s)) = mset (publish_taken ev) + mset (map request_key q)"
  defines "t \<equiv> after_publish (Some (e', es)) (s\<lparr>sv_publish_q := q\<rparr>)"
  shows "pipe_ok view t \<and> simulates t m"
proof -
  have held: "mset (publish_taken ev) + publish_held (sv_publish s) = publish_held e' + keys_of publish_answered es"
    by (rule publish_turn_conserves [OF ev])
  have "awaiting 2 (sv_workflow s) = mset (map request_key q) +
      (mset (publish_taken ev) + publish_held (sv_publish s)) + results_keys (sv_publish_out s)"
    using pipe_okD(5) [OF ok] keys by (simp add: ac_simps)
  also have "\<dots> = mset (map request_key q) + publish_held e' + results_keys (sv_publish_out s @ sent_outcomes es)"
    unfolding held by (simp add: results_keys_sent ac_simps)
  finally show ?thesis
    using ok sim publish_turn_ok [OF pipe_okD(3) [OF ok] ev]
    by (auto simp: t_def after_publish_def pipe_ok_def simulates_def pipe_jobs_def)
qed

lemma publish_take_ok:
  assumes total: "\<forall>st. js st \<noteq> None" and ok: "pipe_ok view s" and sim: "simulates s m"
    and nxt: "service_next pb js ch ops Publish_Take s = Some t"
  shows "pipe_ok view t \<and> simulates t m"
proof -
  from nxt obtain p q where q: "sv_publish_q s = p # q" by (auto split: list.splits)
  obtain e' es where ev: "publish_turn js True (Got_Request p) (sv_publish s) = Some (e', es)"
    using publish_turn_total [OF total] by blast
  from publish_worker_ok [OF total ok sim ev, of q] nxt q ev show ?thesis
    by (simp del: publish_turn.simps)
qed

lemma publish_event_ok:
  assumes total: "\<forall>st. js st \<noteq> None" and ok: "pipe_ok view s" and sim: "simulates s m"
    and nxt: "service_next pb js ch ops (Publish_Event pe) s = Some t"
  shows "pipe_ok view t \<and> simulates t m"
proof -
  obtain e' es where ev: "publish_turn js True pe (sv_publish s) = Some (e', es)"
    using publish_turn_total [OF total] by blast
  have "publish_taken pe = []" "t = after_publish (Some (e', es)) s"
    using nxt ev by (cases pe; simp del: publish_turn.simps)+
  with publish_worker_ok [OF total ok sim ev, of "sv_publish_q s"] show ?thesis by simp
qed

section \<open>Turns of the coordinator\<close>

lemma remove1_member: "mset xs = add_mset a M \<Longrightarrow> a \<in> set xs \<and> mset (remove1 a xs) = M"
  by (metis mset_remove1 add_mset_remove_trivial union_single_eq_member set_mset_mset)

lemma coord_turn_ok:
  assumes ok: "pipe_ok view s" and sim: "simulates s m"
    and run: "id_counter (sv_coord s) \<noteq> - 1"
    and nxt: "service_next pb js ch ops (Coordinator_Turn now ev) s = Some t"
  shows "pipe_ok view t \<and> simulates t (cm_next pb now ev m) \<and> cm_step pb m (cm_next pb now ev m)"
proof -
  obtain c es running where turn: "coord_turn pb now True (sv_coord s) ev = (c, es, running)"
    by (metis prod_cases3)
  from nxt obtain s1 where s1: "coord_takes ev s = Some s1" and r: "sv_running s"
    and t: "t = after_coord (c, es, running) s1"
    by (auto simp: turn split: if_splits)
  have m: "cm_coord m = sv_coord s" "cm_running m" "cm_answers m = sv_answers s"
    "mset (cm_jobs m) = pipe_jobs s"
    using sim r by (simp_all add: simulates_def)
  have taken: "cm_enabled ev m \<and> mset (finished_job ev (cm_jobs m)) = pipe_jobs s1"
  proof (cases ev)
    case (On_Outcome r)
    then obtain q where q: "sv_outcome_q s = r # q" "s1 = s\<lparr>sv_outcome_q := q\<rparr>"
      using s1 by (auto split: list.splits if_splits)
    show ?thesis
      using q m(4) On_Outcome
      by (cases r) (auto simp: pipe_jobs_def dest!: remove1_member)
  qed (use s1 m(4) in auto)
  have same: "sv_job_q s1 = sv_job_q s" "sv_answers s1 = sv_answers s" "sv_workflow s1 = sv_workflow s"
    "pipe_ok view s1"
    using s1 ok by (cases ev; auto simp: pipe_ok_def split: list.splits if_splits)+
  have next_m: "cm_next pb now ev m = \<lparr>cm_coord = c, cm_jobs = finished_job ev (cm_jobs m) @ sent_jobs es,
      cm_answers = cm_answers m @ sent_answers es, cm_running = running\<rparr>"
    using turn m(1) by (simp add: cm_next_def)
  have "simulates t (cm_next pb now ev m)"
    using taken same m by (simp add: next_m t after_coord_def simulates_def pipe_jobs_def ac_simps)
  moreover have "pipe_ok view t" using same(4) by (simp add: t after_coord_def pipe_ok_def)
  moreover have "cm_step pb m (cm_next pb now ev m)"
    using taken m run by (intro cm_stepI) auto
  ultimately show ?thesis by simp
qed

section \<open>The service refines the coordinator machine\<close>

definition service_laws ::
  "serializer \<Rightarrow> ('q, 'h) delay_ops \<Rightarrow> ('q \<Rightarrow> 'h \<Rightarrow> (alarm_key \<times> instant) option) \<Rightarrow> bool" where
  "service_laws js ops view \<longleftrightarrow> delay_laws ops view \<and> (\<forall>st. js st \<noteq> None)"

definition service_rel ::
  "serializer \<Rightarrow> ('q, 'h) delay_ops \<Rightarrow> ('q \<Rightarrow> 'h \<Rightarrow> (alarm_key \<times> instant) option) \<Rightarrow>
   ('q, 'h) service \<Rightarrow> cmachine \<Rightarrow> bool" where
  "service_rel js ops view s m \<longleftrightarrow> service_laws js ops view \<and> pipe_ok view s \<and> simulates s m"

lemma service_start_rel:
  assumes "service_laws js ops view" "service_start ops s"
  shows "\<exists>m. cm_start m \<and> service_rel js ops view s m"
proof -
  from assms(2) obtain h where h: "hm_wf h" "s = runtime_start ops h" by (auto simp: service_start_def)
  have "cm_start (cm_init h)" using h(1) by (auto simp: cm_start_def)
  moreover have "simulates s (cm_init h)"
    by (simp add: h(2) simulates_def runtime_start_def cm_init_def pipe_jobs_def workflow_ok_new)
  moreover have "pipe_ok view s"
    using assms(1) by (simp add: h(2) pipe_ok_def runtime_start_def workflow_ok_new sched_ok_new
        engine_ok_new service_laws_def)
  ultimately show ?thesis using assms(1) by (auto simp: service_rel_def)
qed

text \<open>A turn of a task other than the coordinator keeps the jobs of the service.\<close>

fun coordinator_turn :: "service_event \<Rightarrow> bool" where
  "coordinator_turn (Coordinator_Turn now ev) = True"
| "coordinator_turn _ = False"

lemma task_turn_ok:
  assumes sl: "service_laws js ops view" and inv: "cm_inv pb m" and ok: "pipe_ok view s"
    and sim: "simulates s m" and ev: "\<not> coordinator_turn ev"
    and nxt: "service_next pb js ch ops ev s = Some t"
  shows "pipe_ok view t \<and> simulates t m"
proof -
  from sl have laws: "delay_laws ops view" "\<forall>st. js st \<noteq> None" by (auto simp: service_laws_def)
  show ?thesis
  proof (cases ev)
    case (Coordinator_Turn now cev)
    with ev show ?thesis by simp
  next
    case Workflow_Publish
    show ?thesis by (rule publish_result_ok [OF ok sim nxt [unfolded Workflow_Publish]])
  next
    case Workflow_Snooze
    show ?thesis by (rule snooze_result_ok [OF ok sim nxt [unfolded Workflow_Snooze]])
  next
    case Workflow_Job
    show ?thesis by (rule job_turn_ok [OF inv sim ok nxt [unfolded Workflow_Job]])
  next
    case (Snooze_Turn clk)
    show ?thesis by (rule snooze_worker_ok [OF laws(1) ok sim nxt [unfolded Snooze_Turn]])
  next
    case (Timer_Poll now)
    show ?thesis by (rule timer_poll_ok [OF laws(1) ok sim nxt [unfolded Timer_Poll]])
  next
    case Publish_Take
    show ?thesis by (rule publish_take_ok [OF laws(2) ok sim nxt [unfolded Publish_Take]])
  next
    case (Publish_Event pe)
    show ?thesis by (rule publish_event_ok [OF laws(2) ok sim nxt [unfolded Publish_Event]])
  qed
qed

lemma service_next_rel:
  assumes m: "reach cm_start (cm_step pb) m" and rel: "service_rel js ops view s m"
    and run: "id_counter (sv_coord s) \<noteq> - 1" and nxt: "service_next pb js ch ops ev s = Some t"
  shows "service_rel js ops view t m \<or> (\<exists>m'. cm_step pb m m' \<and> service_rel js ops view t m')"
proof -
  from rel have sl: "service_laws js ops view" and ok: "pipe_ok view s" and sim: "simulates s m"
    by (auto simp: service_rel_def)
  show ?thesis
  proof (cases "coordinator_turn ev")
    case True
    then obtain now cev where "ev = Coordinator_Turn now cev" by (cases ev) auto
    from coord_turn_ok [OF ok sim run nxt [unfolded this]] sl show ?thesis
      by (auto simp: service_rel_def)
  next
    case False
    from task_turn_ok [OF sl reach_cm_inv [OF m] ok sim False nxt] sl show ?thesis
      by (simp add: service_rel_def)
  qed
qed

interpretation service: stuttering_simulation "\<lambda>s. service_laws js ops view \<and> service_start ops s"
    "service_step pb js ch ops" cm_start "cm_step pb" "service_rel js ops view" for pb js ch ops view
  by unfold_locales (auto intro: service_start_rel elim!: service_stepE dest: service_next_rel)

lemma reach_service_rel:
  assumes "service_laws js ops view" and "reach (service_start ops) (service_step pb js ch ops) s"
  obtains m where "reach cm_start (cm_step pb) m" "cm_inv pb m" "pipe_ok view s" "simulates s m"
proof -
  have "reach (\<lambda>s. service_laws js ops view \<and> service_start ops s) (service_step pb js ch ops) s"
    by (rule reach_mono [OF assms(2)]) (simp add: assms(1))
  from service.reach_matched [OF this] obtain m where
    "reach cm_start (cm_step pb) m" "service_rel js ops view s m" by blast
  then show thesis using that reach_cm_inv by (auto simp: service_rel_def)
qed

text \<open>
  C2: refinement. Every state the running service can reach is matched by a reachable state of
  the coordinator machine with the same coordinator, the same answers given to users, and in
  flight exactly the jobs that are in the service: queued, tracked by the workflow handler, or
  on their way back. So the snooze scheduler, the publish engine and the workflow handler
  together answer every job once, as the coordinator relies on.
\<close>

theorem service_refines_coordinator:
  assumes "service_laws js ops view" and "reach (service_start ops) (service_step pb js ch ops) s"
  shows "\<exists>m. reach cm_start (cm_step pb) m \<and> cm_coord m = sv_coord s \<and> cm_running m = sv_running s \<and>
    cm_answers m = sv_answers s \<and> mset (cm_jobs m) =
      mset (sv_job_q s) + tracked_jobs (sv_workflow s) + mset (outcome_jobs (sv_outcome_q s))"
  by (rule reach_service_rel [OF assms]) (auto simp: simulates_def pipe_jobs_def)

lemma size_filter_key: "size (filter_mset (\<lambda>x. f x = k) (mset xs)) = count (mset (map f xs)) k"
  by (induction xs) auto

lemma service_one_job:
  assumes "service_laws js ops view" and "reach (service_start ops) (service_step pb js ch ops) s"
  shows "\<not> sv_panicked s \<and> sv_running s \<and> (\<forall>k. size (filter_mset (\<lambda>j. job_key j = k) (pipe_jobs s)) \<le> 1)"
proof (rule reach_service_rel [OF assms])
  fix m assume inv: "cm_inv pb m" and ok: "pipe_ok view s" and sim: "simulates s m"
  have "size (filter_mset (\<lambda>j. job_key j = k) (mset (cm_jobs m))) \<le> 1" for k
    unfolding size_filter_key using inv by (intro distinct_count_le) (simp add: cm_inv_def inv_flight_def)
  with inv ok sim show ?thesis by (simp add: cm_inv_def pipe_ok_def simulates_def)
qed

text \<open>
  No task of the service ever panics and the coordinator never stops; there is at most one
  job per alarm in the whole service; and every job the workflow handler tracks waits for
  exactly one answer, from the snooze scheduler or from the publish engine.
\<close>

theorem service_safe:
  assumes "service_laws js ops view" and "reach (service_start ops) (service_step pb js ch ops) s"
  shows "\<not> sv_panicked s \<and> sv_running s \<and>
    (\<forall>k. size (filter_mset (\<lambda>j. job_key j = k) (pipe_jobs s)) \<le> 1) \<and>
    awaiting 1 (sv_workflow s) + awaiting 2 (sv_workflow s) =
      mset (map si_key (sv_snooze_q s)) + keys_of snooze_answered (sv_snooze_out s) +
      mset (map request_key (sv_publish_q s)) + publish_held (sv_publish s) + results_keys (sv_publish_out s)"
proof (rule reach_service_rel [OF assms])
  fix m assume ok: "pipe_ok view s"
  have "awaiting 1 (sv_workflow s) + awaiting 2 (sv_workflow s) =
      mset (map si_key (sv_snooze_q s)) + keys_of snooze_answered (sv_snooze_out s) +
      mset (map request_key (sv_publish_q s)) + publish_held (sv_publish s) + results_keys (sv_publish_out s)"
    unfolding pipe_okD(4,5) [OF ok] by (simp only: add.assoc)
  with service_one_job [OF assms] show ?thesis by blast
qed

section \<open>Witnesses\<close>

fun service_events ::
  "proto \<Rightarrow> serializer \<Rightarrow> chrono_ops \<Rightarrow> ('q, 'h) delay_ops \<Rightarrow> service_event list \<Rightarrow> ('q, 'h) service \<Rightarrow>
   ('q, 'h) service option" where
  "service_events pb js ch ops [] s = Some s"
| "service_events pb js ch ops (ev # evs) s =
     (if id_counter (sv_coord s) = - 1 \<or> sv_panicked s then None
      else Option.bind (service_next pb js ch ops ev s) (service_events pb js ch ops evs))"

lemma service_events_steps:
  "service_events pb js ch ops evs s = Some t \<Longrightarrow> (service_step pb js ch ops)\<^sup>*\<^sup>* s t"
proof (induction evs arbitrary: s)
  case (Cons ev evs)
  then obtain u where "service_step pb js ch ops s u" "service_events pb js ch ops evs u = Some t"
    by (auto split: Option.bind_splits if_splits intro: service_stepI)
  with Cons.IH [of u] show ?case by (meson converse_rtranclp_into_rtranclp)
qed simp

text \<open>A user bypasses an alarm, and the job passes through all tasks up to the publisher.\<close>

definition sample_job_run :: "service_event list" where
  "sample_job_run = [Coordinator_Turn 1000 (On_User (UserUpdate demo_key (Bypass None) ''op'' 7)),
     Workflow_Job, Snooze_Turn sample_clocks, Workflow_Snooze, Publish_Take,
     Publish_Event (Attempt_Polled 0 1)]"

definition sample_service :: "(sample_queue, nat) service" where
  "sample_service = the (service_events sample_proto sample_json sample_chrono sample_delay sample_job_run
     (runtime_start sample_delay hm_new))"

lemma sample_service_ok:
  "service_events sample_proto sample_json sample_chrono sample_delay sample_job_run
     (runtime_start sample_delay hm_new) = Some sample_service"
proof -
  have "service_events sample_proto sample_json sample_chrono sample_delay sample_job_run
     (runtime_start sample_delay hm_new) \<noteq> None"
    by code_simp
  then show ?thesis by (auto simp: sample_service_def)
qed

lemma sample_service_laws: "service_laws sample_json sample_delay hm_get"
  by (simp add: service_laws_def sample_delay_laws sample_json_total)

lemma reach_sample_service:
  "reach (service_start sample_delay) (service_step sample_proto sample_json sample_chrono sample_delay) sample_service"
  by (rule reach_steps [OF reach_init service_events_steps [OF sample_service_ok]])
    (auto simp: service_start_def)

lemma sample_service_tracks: "map job_key (map (tj_job \<circ> snd) (sv_workflow sample_service)) = [demo_key]"
  by code_simp

theorem service_refines_coordinator_witness:
  "\<exists>m. reach cm_start (cm_step sample_proto) m \<and> cm_coord m = sv_coord sample_service"
  using service_refines_coordinator [OF sample_service_laws reach_sample_service] by blast

theorem service_safe_witness:
  "\<not> sv_panicked sample_service \<and> sv_running sample_service \<and>
   size (filter_mset (\<lambda>j. job_key j = demo_key) (pipe_jobs sample_service)) \<le> 1"
  using service_safe [OF sample_service_laws reach_sample_service] by blast

end
