(* ===== verification/Service_Turns.thy ===== *)
theory Service_Turns
  imports Alarm_System
begin

text \<open>
  What a turn of one of the tasks behind the coordinator does to the state that decides about an
  alarm's timer and its job: the commands and replies of the snooze scheduler, the armed
  deadlines, the jobs that wait for the publisher, and the outcomes. The case rule
  \<open>task_turn_cases\<close> is what the theories on wakes and timers argue with.
\<close>

section \<open>Results of the publish engine\<close>

fun is_wake :: "job_outcome \<Rightarrow> bool" where
  "is_wake (Wake k) = True"
| "is_wake _ = False"

lemma batch_sends:
  "dispatch_batch all_open w rs = Some (w', es) \<Longrightarrow>
     filter is_wake (outcomes_of es) = [] \<and> snoozes_of es = [] \<and> publishes_of es = []"
proof (induction rs arbitrary: w es)
  case (Cons r rs)
  from Cons.prems obtain w1 es1 es2 where
    1: "dispatch_publish_result all_open w r = Some (w1, es1)"
    and 2: "dispatch_batch all_open w1 rs = Some (w', es2)" and es: "es = es1 @ es2"
    by (auto split: option.splits)
  from 1 have "filter is_wake (outcomes_of es1) = [] \<and> snoozes_of es1 = [] \<and> publishes_of es1 = []"
    by (auto simp: dispatch_publish_result_def split: option.splits prod.splits)
  with Cons.IH [OF 2] es show ?case by simp
qed simp

lemma batch_commit_keys:
  "workflow_ok w \<Longrightarrow> mset (map sym_into_inner rs) \<subseteq># awaiting 2 w \<Longrightarrow>
   dispatch_batch all_open w rs = Some (w', es) \<Longrightarrow> Committed j \<in> set (outcomes_of es) \<Longrightarrow>
     job_key j \<in># awaiting 2 w"
proof (induction rs arbitrary: w es)
  case (Cons r rs)
  from Cons.prems(2) have mem: "sym_into_inner r \<in># awaiting 2 w" by (simp add: insert_subset_eq_iff)
  obtain j0 where get: "hm_get w (sym_into_inner r) = Some \<lparr>tj_job = j0, tj_step = 2\<rparr>"
    and key: "job_key j0 = sym_into_inner r"
    using awaiting_get [OF Cons.prems(1) mem] by metis
  let ?w = "hm_remove w (sym_into_inner r)"
  note T = track_remove [OF Cons.prems(1) get]
  from Cons.prems(3) result_turn [OF get] obtain es2 where
    2: "dispatch_batch all_open ?w rs = Some (w', es2)"
    and es: "outcomes_of es = (if sym_is_ok r then Committed j0 else Failed j0) # outcomes_of es2"
    by (auto split: option.splits)
  have "mset (map sym_into_inner rs) \<subseteq># awaiting 2 ?w" using Cons.prems(2) T(3) by simp
  from Cons.IH [OF T(1) this 2] Cons.prems(4) es mem key T(3) show ?case
    by (auto split: if_splits)
qed simp

lemma publish_result_turn:
  "workflow_turn all_open w (Got_Publish r) = dispatch_batch all_open w (outcome_results r)"
  by (cases r) (auto simp: option.map_ident case_prod_unfold split: option.splits)

section \<open>The turns\<close>

definition command_of :: "job \<Rightarrow> snooze_input" where
  "command_of j = \<lparr>si_key = job_key j, si_wake = st_wake (job_status j)\<rparr>"

text \<open>The part of the state the turns are described by.\<close>

definition timer_part ::
  "('q \<Rightarrow> 'h \<Rightarrow> (alarm_key \<times> instant) option) \<Rightarrow> ('q, 'h) service \<Rightarrow>
   snooze_input list \<times> snooze_outcome list \<times> (alarm_key \<Rightarrow> instant option) \<times> alarm_key multiset \<times> job_outcome list" where
  "timer_part view s = (sv_snooze_q s, sv_snooze_out s, deadline view (sv_snooze s), awaiting 2 (sv_workflow s),
     sv_outcome_q s)"

lemma job_turn_part:
  assumes m: "cm_inv pb m" "pipe_ok view s" "simulates s m"
    and nxt: "service_next pb js ch ops Workflow_Job s = Some t"
  obtains j where "j \<in># pipe_jobs s" "timer_part view s = (qs, out, dl, aw, oc) \<Longrightarrow>
    timer_part view t = (qs @ [command_of j], out, dl, aw, oc)"
proof -
  from nxt obtain j q where q: "sv_job_q s = j # q" by (auto split: list.splits)
  note T = track_new [OF pipe_okD(1) [OF m(2)] new_job_absent [OF m(1,3) pipe_okD(1) [OF m(2)] q]]
  have "j \<in># pipe_jobs s" using q by (simp add: pipe_jobs_def)
  with that [of j] nxt q new_job_turn [of "sv_workflow s" j] T(4) show thesis
    by (auto simp: after_workflow_def timer_part_def command_of_def)
qed

lemma snooze_result_part:
  assumes ok: "pipe_ok view s" and nxt: "service_next pb js ch ops Workflow_Snooze s = Some t"
    and part: "timer_part view s = (qs, out, dl, aw, oc)"
  obtains (expired) k out' where "out = Expired k # out'" "timer_part view t = (qs, out', dl, aw, oc @ [Wake k])"
    | (invalid) k j out' where "out = InvalidWake k # out'" "timer_part view t = (qs, out', dl, aw, oc @ [Failed j])"
    | (accepted) k out' where "out = Accepted k # out'" "timer_part view t = (qs, out', dl, add_mset k aw, oc)"
proof -
  note wok = pipe_okD(1) [OF ok]
  from nxt obtain r q where q: "sv_snooze_out s = r # q" by (auto split: list.splits)
  have await: "\<exists>j. hm_get (sv_workflow s) k = Some \<lparr>tj_job = j, tj_step = 1\<rparr> \<and> job_key j = k"
    if "snooze_answered r = [k]" for k
    using that q pipe_okD(4) [OF ok] awaiting_get [OF wok, of k 1] by auto
  show thesis
  proof (cases r)
    case (Expired k)
    with nxt q part that(1) [of k q] show ?thesis by (auto simp: after_workflow_def timer_part_def)
  next
    case (InvalidWake k)
    with await obtain j where get: "hm_get (sv_workflow s) k = Some \<lparr>tj_job = j, tj_step = 1\<rparr>" by auto
    from nxt q InvalidWake part invalid_turn [OF get] track_remove(4) [OF wok get, of 2] that(2) [of k q j]
    show ?thesis by (auto simp: after_workflow_def timer_part_def)
  next
    case (Accepted k)
    with await obtain j where get: "hm_get (sv_workflow s) k = Some \<lparr>tj_job = j, tj_step = 1\<rparr>" "job_key j = k"
      by auto
    from nxt q Accepted part accepted_turn [OF get] track_advance(4) [OF wok get(1)] that(3) [of k q]
    show ?thesis by (auto simp: after_workflow_def timer_part_def)
  qed
qed

lemma publish_result_part:
  assumes ok: "pipe_ok view s" and nxt: "service_next pb js ch ops Workflow_Publish s = Some t"
    and part: "timer_part view s = (qs, out, dl, aw, oc)"
  obtains aw' rs where "timer_part view t = (qs, out, dl, aw', oc @ rs)" "aw' \<subseteq># aw"
    "filter is_wake rs = []" "\<And>j. Committed j \<in> set rs \<Longrightarrow> job_key j \<in># aw"
proof -
  note wok = pipe_okD(1) [OF ok]
  from nxt obtain r q where q: "sv_publish_out s = r # q"
    and t: "t = after_workflow (dispatch_batch all_open (sv_workflow s) (outcome_results r)) (s\<lparr>sv_publish_out := q\<rparr>)"
    by (auto simp: publish_result_turn simp del: workflow_turn.simps split: list.splits)
  have sub: "mset (map sym_into_inner (outcome_results r)) \<subseteq># awaiting 2 (sv_workflow s)"
    using pipe_okD(5) [OF ok] q by simp
  from batch_step [OF wok sub] obtain w es where
    out: "dispatch_batch all_open (sv_workflow s) (outcome_results r) = Some (w, es)"
    and a: "awaiting 2 (sv_workflow s) = mset (map sym_into_inner (outcome_results r)) + awaiting 2 w" by blast
  from batch_sends [OF out] have none: "filter is_wake (outcomes_of es) = []" "snoozes_of es = []" by simp_all
  have "timer_part view t = (qs, out, dl, awaiting 2 w, oc @ outcomes_of es)"
    using part none(2) by (auto simp: t out after_workflow_def timer_part_def)
  moreover have "aw = mset (map sym_into_inner (outcome_results r)) + awaiting 2 w"
    using a part by (simp add: timer_part_def)
  then have "awaiting 2 w \<subseteq># aw" by simp
  moreover have "\<And>j. Committed j \<in> set (outcomes_of es) \<Longrightarrow> job_key j \<in># aw"
    using batch_commit_keys [OF wok sub out] part by (simp add: timer_part_def)
  ultimately show thesis using that none(1) by blast
qed

lemma command_turn_part:
  assumes laws: "delay_laws ops view" and ok: "pipe_ok view s"
    and nxt: "service_next pb js ch ops (Snooze_Turn clk) s = Some t"
    and part: "timer_part view s = (qs, out, dl, aw, oc)"
  obtains i qs' where "qs = i # qs'"
    "timer_part view t = (qs', out @ [answer_to ch clk i], deadline_after ch clk i dl, aw, oc)"
proof -
  from nxt obtain i q where q: "sv_snooze_q s = i # q" by (auto split: list.splits)
  obtain sc where "snooze_replies ch ops (Snooze_Command clk i) (sv_snooze s) = Some (sc, [answer_to ch clk i])"
    "deadline view sc = deadline_after ch clk i (deadline view (sv_snooze s))"
    using handle_input_refines [OF laws pipe_okD(2) [OF ok], of ch clk i]
    by (auto simp: snooze_replies_def)
  with nxt q part that [of i q] show thesis
    by (auto simp: after_snooze_def timer_part_def simp del: deadline_after.simps)
qed

lemma timer_poll_part:
  assumes laws: "delay_laws ops view" and ok: "pipe_ok view s"
    and nxt: "service_next pb js ch ops (Timer_Poll now) s = Some t"
    and part: "timer_part view s = (qs, out, dl, aw, oc)"
  obtains (idle) "timer_part view t = timer_part view s"
    | (fired) k u where "dl k = Some u" "u \<le> now" "timer_part view t = (qs, out @ [Expired k], dl(k := None), aw, oc)"
proof (cases "dq_next ops (delay_queue (sv_snooze s)) now")
  case None
  then have "snooze_replies ch ops (Queue_Polled now) (sv_snooze s) = Some (sv_snooze s, [])"
    by (simp add: snooze_replies_def)
  with nxt idle show thesis by (auto simp: after_snooze_def timer_part_def)
next
  case (Some kq)
  obtain k q where kq: "kq = (k, q)" by fastforce
  note p = poll_refines [OF laws pipe_okD(2) [OF ok] Some [unfolded kq]]
  from nxt p(1) [of ch] p(3,4) part fired [of k] show thesis
    by (auto simp: after_snooze_def timer_part_def snooze_replies_def simp del: snooze_turn.simps)
qed

lemma task_turn_cases [consumes 7]:
  assumes sl: "service_laws js ops view" and m: "cm_inv pb m" "pipe_ok view s" "simulates s m"
    and nxt: "service_next pb js ch ops ev s = Some t" and ev: "\<not> coordinator_turn ev"
    and part: "timer_part view s = (qs, out, dl, aw, oc)"
  obtains (job) j where "j \<in># pipe_jobs s" "timer_part view t = (qs @ [command_of j], out, dl, aw, oc)"
    | (expired) k out' where "out = Expired k # out'" "timer_part view t = (qs, out', dl, aw, oc @ [Wake k])"
    | (invalid) k j out' where "out = InvalidWake k # out'" "timer_part view t = (qs, out', dl, aw, oc @ [Failed j])"
    | (accepted) k out' where "out = Accepted k # out'" "timer_part view t = (qs, out', dl, add_mset k aw, oc)"
    | (results) aw' rs where "timer_part view t = (qs, out, dl, aw', oc @ rs)" "aw' \<subseteq># aw"
        "filter is_wake rs = []" "\<And>j. Committed j \<in> set rs \<Longrightarrow> job_key j \<in># aw"
    | (command) clk i qs' where "ev = Snooze_Turn clk" "qs = i # qs'"
        "timer_part view t = (qs', out @ [answer_to ch clk i], deadline_after ch clk i dl, aw, oc)"
    | (fired) k u where "dl k = Some u" "timer_part view t = (qs, out @ [Expired k], dl(k := None), aw, oc)"
    | (other) "timer_part view t = (qs, out, dl, aw, oc)"
proof -
  have laws: "delay_laws ops view" using sl by (simp add: service_laws_def)
  show thesis
  proof (cases ev)
    case (Coordinator_Turn now cev)
    with ev show ?thesis by simp
  next
    case Workflow_Publish
    show ?thesis
      by (rule publish_result_part [OF m(2) nxt [unfolded Workflow_Publish] part], rule results; assumption)
  next
    case Workflow_Snooze
    show ?thesis
      by (rule snooze_result_part [OF m(2) nxt [unfolded Workflow_Snooze] part])
        (rule expired, assumption, assumption | rule invalid, assumption, assumption |
         rule accepted, assumption, assumption)+
  next
    case Workflow_Job
    show ?thesis
      by (rule job_turn_part [OF m nxt [unfolded Workflow_Job]], rule job, assumption) (use part in blast)
  next
    case (Snooze_Turn clk)
    show ?thesis
      by (rule command_turn_part [OF laws m(2) nxt [unfolded Snooze_Turn] part], rule command [OF Snooze_Turn]; assumption)
  next
    case (Timer_Poll now)
    show ?thesis
    proof (rule timer_poll_part [OF laws m(2) nxt [unfolded Timer_Poll] part])
      assume "timer_part view t = timer_part view s"
      with part show thesis by (intro other) simp
    qed (rule fired; assumption)
  next
    case Publish_Take
    with nxt part other show ?thesis
      by (auto simp: after_publish_def timer_part_def simp del: publish_turn.simps split: list.splits option.splits)
  next
    case (Publish_Event pe)
    with nxt part other show ?thesis
      by (cases pe) (auto simp: after_publish_def timer_part_def simp del: publish_turn.simps split: option.splits)
  qed
qed

section \<open>Jobs of the service\<close>

lemma pipe_unique:
  assumes "cm_inv pb m" "simulates s m" "j \<in># pipe_jobs s" "j' \<in># pipe_jobs s" "job_key j = job_key j'"
  shows "j = j'"
proof -
  have "set_mset (pipe_jobs s) = set (cm_jobs m)" using assms(2) by (simp add: simulates_def flip: set_mset_mset)
  moreover have "distinct (map job_key (cm_jobs m))" using assms(1) by (simp add: cm_inv_def inv_flight_def)
  ultimately show ?thesis using flight_remove(4) [of "cm_jobs m" j' j] assms(3-5) by simp
qed

lemma pipe_spec:
  assumes "cm_inv pb m" "simulates s m" "j \<in># pipe_jobs s"
  shows "hm_get (speculative_state (sv_coord s)) (job_key j) \<noteq> None"
proof -
  have "j \<in> set (cm_jobs m)" using assms(2,3) by (simp add: simulates_def flip: set_mset_mset)
  then obtain st n where "spec m (job_key j) = Some (st, n)" by (rule flight_spec [OF assms(1)])
  with assms(2) show ?thesis by (simp add: simulates_def)
qed

lemma waiting_job:
  assumes "pipe_ok view s" "k \<in># awaiting n (sv_workflow s)"
  obtains j where "j \<in># tracked_jobs (sv_workflow s)" "job_key j = k"
proof -
  obtain j where "hm_get (sv_workflow s) k = Some \<lparr>tj_job = j, tj_step = n\<rparr>" "job_key j = k"
    using awaiting_get [OF pipe_okD(1) [OF assms(1)] assms(2)] .
  with get_tracked [OF this(1)] that show thesis by simp
qed

section \<open>The coordinator\<close>

text \<open>A turn of the coordinator leaves the other tasks alone, and takes at most the first outcome.\<close>

lemma coord_keeps:
  assumes "service_next pb js ch ops (Coordinator_Turn now ev) s = Some t"
  shows "sv_snooze t = sv_snooze s" "sv_snooze_q t = sv_snooze_q s" "sv_snooze_out t = sv_snooze_out s"
    "sv_workflow t = sv_workflow s"
    and "sv_outcome_q t = sv_outcome_q s \<and> (\<forall>r. ev \<noteq> On_Outcome r) \<or>
      (\<exists>r. ev = On_Outcome r \<and> sv_outcome_q s = r # sv_outcome_q t)"
    and "sv_publish_q t = sv_publish_q s" "sv_publish t = sv_publish s" "sv_publish_out t = sv_publish_out s"
proof -
  obtain d es running where turn: "coord_turn pb now True (sv_coord s) ev = (d, es, running)"
    by (metis prod_cases3)
  show "sv_snooze t = sv_snooze s" "sv_snooze_q t = sv_snooze_q s" "sv_snooze_out t = sv_snooze_out s"
    "sv_workflow t = sv_workflow s"
    "sv_outcome_q t = sv_outcome_q s \<and> (\<forall>r. ev \<noteq> On_Outcome r) \<or>
      (\<exists>r. ev = On_Outcome r \<and> sv_outcome_q s = r # sv_outcome_q t)"
    "sv_publish_q t = sv_publish_q s" "sv_publish t = sv_publish s" "sv_publish_out t = sv_publish_out s"
    using assms turn by (cases ev; auto simp: after_coord_def split: list.splits if_splits)+
qed

lemma coord_enabled:
  assumes "simulates s m" "service_next pb js ch ops (Coordinator_Turn now ev) s = Some t"
  shows "cm_enabled ev m"
proof -
  have mem: "j \<in> set (cm_jobs m)" if "j \<in> set (outcome_job r)" "ev = On_Outcome r" for j r
  proof -
    have "r \<in> set (sv_outcome_q s)" using assms(2) that(2) by (auto split: list.splits if_splits)
    with that(1) have "j \<in># pipe_jobs s" by (force simp: pipe_jobs_def outcome_jobs_def)
    then show ?thesis using assms(1) by (simp add: simulates_def flip: set_mset_mset)
  qed
  show ?thesis
  proof (cases ev)
    case (On_Outcome r)
    with mem [of _ r] show ?thesis by (cases r) simp_all
  qed (use assms(2) in \<open>auto split: if_splits\<close>)
qed

end
