(* ===== verification/Alarm_Liveness.thy ===== *)
theory Alarm_Liveness
  imports Service_Turns
begin

text \<open>
  Progress of the service of \<open>Alarm_System\<close>. Without new input every run comes to rest,
  whatever the order in which the tasks take their turns and whatever the publisher answers,
  unless an automated job fails: that job is sent again at once. The bound is a measure that
  every turn decreases: the turns the messages in the queues still cause, and for every job the
  jobs that can follow it.

  The exception is real: \<open>Alarm_Stale_Wake\<close> has a case in which the retries never end.
\<close>

section \<open>Jobs that can follow a job\<close>

text \<open>
  A job overtaken by newer intent is followed by a job for that intent, a user's job that fails
  by the job of the rollback, a wake by a job for the unbypassed state.
\<close>

definition overtaken :: "coordinator \<Rightarrow> job \<Rightarrow> bool" where
  "overtaken c j \<longleftrightarrow> (case hm_get (speculative_state c) (job_key j) of
     None \<Rightarrow> False | Some (_, m) \<Rightarrow> m \<noteq> job_id j)"

definition job_left :: "coordinator \<Rightarrow> job \<Rightarrow> nat" where
  "job_left c j = 1 + (if overtaken c j then 2 else 0) + (if job_user_initiated j then 1 else 0)"

definition jobs_left :: "cmachine \<Rightarrow> nat" where
  "jobs_left m = sum_list (map (job_left (cm_coord m)) (cm_jobs m))"

lemma job_left_pos: "1 \<le> job_left c j"
  by (simp add: job_left_def)

lemma jobs_left_replace:
  assumes "distinct (map job_key (cm_jobs s))" "j \<in> set (cm_jobs s)"
    and t: "cm_jobs t = remove1 j (cm_jobs s) @ js"
    and sp: "\<And>k. k \<noteq> job_key j \<Longrightarrow> spec t k = spec s k"
  shows "jobs_left t + job_left (cm_coord s) j = jobs_left s + sum_list (map (job_left (cm_coord t)) js)"
proof -
  have "job_left (cm_coord t) j' = job_left (cm_coord s) j'" if "j' \<in> set (remove1 j (cm_jobs s))" for j'
  proof -
    have "j' \<in> set (cm_jobs s)" "j' \<noteq> j"
      using that flight_remove(1) [OF assms(1,2)] by auto
    with flight_remove(4) [OF assms(1,2)] have "job_key j' \<noteq> job_key j" by blast
    then show ?thesis by (simp add: job_left_def overtaken_def sp)
  qed
  then have "map (job_left (cm_coord t)) (remove1 j (cm_jobs s)) =
      map (job_left (cm_coord s)) (remove1 j (cm_jobs s))" by (rule map_cong [OF refl])
  moreover have "jobs_left s = job_left (cm_coord s) j +
      sum_list (map (job_left (cm_coord s)) (remove1 j (cm_jobs s)))"
    unfolding jobs_left_def by (rule sum_list_map_remove1 [OF assms(2)])
  ultimately show ?thesis by (simp only: jobs_left_def t map_append sum_list.append)
qed

text \<open>The job that is sent for the current intent of an alarm.\<close>

lemma jobs_left_resent:
  assumes d: "distinct (map job_key (cm_jobs s))" and j: "j \<in> set (cm_jobs s)"
    and t: "cm_jobs t = remove1 j (cm_jobs s) @ [\<lparr>job_id = n, job_key = job_key j, job_status = st,
      job_user_initiated = u\<rparr>]"
    and sp: "\<And>k. k \<noteq> job_key j \<Longrightarrow> spec t k = spec s k" "spec t (job_key j) = Some (st, n)"
  shows "jobs_left t + job_left (cm_coord s) j = jobs_left s + (if u then 2 else 1)"
proof -
  have "job_left (cm_coord t) \<lparr>job_id = n, job_key = job_key j, job_status = st, job_user_initiated = u\<rparr> =
      (if u then 2 else 1)"
    by (simp add: job_left_def overtaken_def sp(2))
  with jobs_left_replace [OF d j t sp(1)] show ?thesis by simp
qed

text \<open>An automated job that fails as the current intent is sent again.\<close>

definition retried :: "coordinator \<Rightarrow> job \<Rightarrow> bool" where
  "retried c j \<longleftrightarrow> \<not> job_user_initiated j \<and> \<not> overtaken c j"

lemma committed_left:
  assumes inv: "cm_inv pb s" and j: "j \<in> set (cm_jobs s)"
    and t: "t = cm_next pb now (On_Outcome (Committed j)) s"
  shows "jobs_left t < jobs_left s" "length (cm_jobs t) \<le> length (cm_jobs s)"
proof -
  have run: "cm_running s" and d: "distinct (map job_key (cm_jobs s))"
    using inv by (simp_all add: cm_inv_def inv_flight_def)
  obtain st m where sp: "spec s (job_key j) = Some (st, m)" using flight_spec [OF inv j] .
  have len: "0 < length (cm_jobs s)" "length (remove1 j (cm_jobs s)) = length (cm_jobs s) - 1"
    using j by (auto simp: length_remove1)
  show "jobs_left t < jobs_left s"
  proof (cases "m = job_id j")
    case True
    with jobs_left_replace [OF d j, of t "[]"] sp job_left_pos [of "cm_coord s" j] show ?thesis
      by (simp add: t cm_next_committed [OF run])
  next
    case False
    then have ot: "3 \<le> job_left (cm_coord s) j" using sp by (simp add: job_left_def overtaken_def)
    have "cm_jobs t = remove1 j (cm_jobs s) @ [\<lparr>job_id = m, job_key = job_key j, job_status = st,
        job_user_initiated = (pend s m \<noteq> None)\<rparr>]" "\<And>k. spec t k = spec s k"
      using False sp by (simp_all add: t cm_next_committed [OF run] jobs_resend)
    with jobs_left_resent [OF d j this(1)] sp ot show ?thesis by (simp split: if_splits)
  qed
  show "length (cm_jobs t) \<le> length (cm_jobs s)"
    using len sp by (simp add: t cm_next_committed [OF run] jobs_resend)
qed

lemma failed_left:
  assumes inv: "cm_inv pb s" and j: "j \<in> set (cm_jobs s)" and r: "\<not> retried (cm_coord s) j"
    and t: "t = cm_next pb now (On_Outcome (Failed j)) s"
  shows "jobs_left t < jobs_left s" "length (cm_jobs t) \<le> length (cm_jobs s)"
proof -
  have run: "cm_running s" and d: "distinct (map job_key (cm_jobs s))"
    using inv by (simp_all add: cm_inv_def inv_flight_def)
  obtain st m where sp: "spec s (job_key j) = Some (st, m)" using flight_spec [OF inv j] .
  note nxt = cm_next_failed [OF run sp, of pb now, folded t]
  have len: "0 < length (cm_jobs s)" "length (remove1 j (cm_jobs s)) = length (cm_jobs s) - 1"
    using j by (auto simp: length_remove1)
  obtain rst rn where rb: "rollback_entry pb s (job_key j) = (rst, rn)" by fastforce
  show "jobs_left t < jobs_left s"
  proof (cases "m = job_id j")
    case True
    then have u: "job_user_initiated j" using r sp by (simp add: retried_def overtaken_def)
    then have ot: "job_left (cm_coord s) j = 2" using True sp by (simp add: job_left_def overtaken_def)
    have "pend s rn = None"
      using rb inv by (auto simp: rollback_entry_def cm_inv_def inv_user_def inv_ids_def
          DEFAULT_HYDRATED_ID_def split: option.splits)
    then have "cm_jobs t = remove1 j (cm_jobs s) @ [\<lparr>job_id = rn, job_key = job_key j, job_status = rst,
        job_user_initiated = False\<rparr>]" "\<And>k. k \<noteq> job_key j \<Longrightarrow> spec t k = spec s k"
      "spec t (job_key j) = Some (rst, rn)"
      using True u rb by (simp_all add: nxt jobs_resend)
    with jobs_left_resent [OF d j this] ot show ?thesis by simp
  next
    case False
    then have ot: "3 \<le> job_left (cm_coord s) j" using sp by (simp add: job_left_def overtaken_def)
    have "cm_jobs t = remove1 j (cm_jobs s) @ [\<lparr>job_id = m, job_key = job_key j, job_status = st,
        job_user_initiated = (pend (resolve j (Inl (Internal (job_key j))) s) m \<noteq> None)\<rparr>]"
      "\<And>k. spec t k = spec s k"
      using False sp by (simp_all add: nxt jobs_resend)
    with jobs_left_resent [OF d j this(1)] sp ot show ?thesis by (simp split: if_splits)
  qed
  show "length (cm_jobs t) \<le> length (cm_jobs s)"
    using len sp rb by (simp add: nxt jobs_resend)
qed

lemma update_left_le:
  assumes "distinct (map job_key js)" "\<And>j. job_key j \<noteq> k \<Longrightarrow> f j = g j" "\<And>j. f j \<le> g j + 2"
  shows "sum_list (map f js) \<le> sum_list (map g js) + (2 :: nat)"
  using assms(1)
proof (induction js)
  case (Cons j js)
  show ?case
  proof (cases "job_key j = k")
    case True
    have "f j' = g j'" if "j' \<in> set js" for j'
    proof (rule assms(2))
      show "job_key j' \<noteq> k" using that True Cons.prems by (metis distinct.simps(2) image_eqI list.simps(9) set_map)
    qed
    then have "sum_list (map f js) = sum_list (map g js)" by (intro arg_cong [where f = sum_list] map_cong) auto
    with assms(3) [of j] show ?thesis by simp
  next
    case False
    with Cons assms(2) [of j] show ?thesis by simp
  qed
qed simp

lemma intent_left:
  assumes inv: "cm_inv pb s"
  shows "jobs_left (record_intent k st None s) \<le> jobs_left s + 2"
    and "length (cm_jobs (record_intent k st None s)) \<le> length (cm_jobs s) + 1"
proof -
  let ?t = "record_intent k st None s"
  have d: "distinct (map job_key (cm_jobs s))" and fl: "\<And>k. spec s k = None \<longleftrightarrow> (\<forall>j\<in>set (cm_jobs s). job_key j \<noteq> k)"
    and fresh: "pend s (counter s) = None"
    using inv by (auto simp: cm_inv_def inv_flight_def inv_ids_def)
  have other: "job_left (cm_coord ?t) j = job_left (cm_coord s) j" if "job_key j \<noteq> k" for j
    using that by (simp add: job_left_def overtaken_def)
  show "jobs_left ?t \<le> jobs_left s + 2"
  proof (cases "spec s k")
    case None
    with fl have "\<forall>j\<in>set (cm_jobs s). job_key j \<noteq> k" by blast
    then have "sum_list (map (job_left (cm_coord ?t)) (cm_jobs s)) = jobs_left s"
      unfolding jobs_left_def using other by (intro arg_cong [where f = sum_list] map_cong) auto
    moreover have "cm_jobs ?t = cm_jobs s @ [\<lparr>job_id = counter s, job_key = k, job_status = st,
        job_user_initiated = False\<rparr>]"
      using None fresh by (simp add: jobs_record)
    moreover have "job_left (cm_coord ?t) \<lparr>job_id = counter s, job_key = k, job_status = st,
        job_user_initiated = False\<rparr> = 1"
      by (simp add: job_left_def overtaken_def)
    ultimately show ?thesis by (simp add: jobs_left_def)
  next
    case (Some e)
    have "job_left (cm_coord ?t) j \<le> job_left (cm_coord s) j + 2" for j by (simp add: job_left_def)
    from update_left_le [OF d other this] Some show ?thesis by (simp add: jobs_left_def jobs_record)
  qed
  show "length (cm_jobs ?t) \<le> length (cm_jobs s) + 1" by (simp add: jobs_record)
qed

lemma wake_left:
  assumes inv: "cm_inv pb s" and t: "t = cm_next pb now (On_Outcome (Wake k)) s"
  shows "jobs_left t \<le> jobs_left s + 2" "length (cm_jobs t) \<le> length (cm_jobs s) + 1"
  using inv intent_left [OF inv]
  by (auto simp: t cm_next_automated automated_result_def Let_def cm_inv_def)

section \<open>Turns that the queued messages cause\<close>

text \<open>
  The turns left for each message: a job is a command, a reply, a request, at most four turns of
  its attempts, a place in a batch, and a result.
\<close>

definition engine_left :: "publish_engine \<Rightarrow> nat" where
  "engine_left e = engine_work e + 2 * length (in_flight e) + 2 * length (completed_batch e)"

definition turns_left :: "('q, 'h) service \<Rightarrow> nat" where
  "turns_left s = 10 * length (sv_job_q s) + 9 * length (sv_snooze_q s) + 8 * length (sv_snooze_out s) +
     7 * length (sv_publish_q s) + engine_left (sv_publish s) + length (sv_publish_out s)"

text \<open>The turns of the tasks behind the coordinator that are not idle and take no input.\<close>

fun effect_event :: "service_event \<Rightarrow> ('q, 'h) service \<Rightarrow> bool" where
  "effect_event (Coordinator_Turn now ev) s = False"
| "effect_event (Timer_Poll now) s = False"
| "effect_event (Publish_Event (Attempt_Polled n now)) s =
     (n < length (in_flight (sv_publish s)) \<and> snd (in_flight (sv_publish s) ! n) = None)"
| "effect_event (Publish_Event (Attempt_Answered n acc now)) s =
     (n < length (in_flight (sv_publish s)) \<and> snd (in_flight (sv_publish s) ! n) \<noteq> None)"
| "effect_event (Publish_Event Flush_Tick) s = (completed_batch (sv_publish s) \<noteq> [])"
| "effect_event (Publish_Event (Got_Request p)) s = False"
| "effect_event _ s = True"

lemma completed_engine_left:
  assumes "handle_completed_work True r batch = (batch', es)"
  shows "2 * length batch' + length (sent_outcomes es) \<le> 2 * length batch + 2"
  using assms
  by (auto simp: handle_completed_work_def flush_completed_batch_def port_send_def Let_def BATCH_SIZE_def
      split: if_splits)

lemma done_engine_left:
  assumes "attempt_done True (r, l) e = (e', es)"
  shows "2 * length (in_flight e') + 2 * length (completed_batch e') + length (sent_outcomes es) \<le>
    2 * length (in_flight e) + 2 * length (completed_batch e) + 2"
  using assms
  by (auto simp: attempt_done_def dest!: completed_engine_left
      split: symmetrical_result.splits if_splits prod.splits)

lemma length_drop_nth: "n < length xs \<Longrightarrow> length xs = Suc (length (drop_nth n xs))"
  using map_mset_drop_nth [of n xs "\<lambda>x. x"] by (metis size_add_mset size_mset list.map_ident)

lemma publish_event_left:
  assumes ok: "engine_ok (sv_publish s)" and ev: "effect_event (Publish_Event pe) s"
    and turn: "publish_turn js True pe (sv_publish s) = Some (e', es)"
  shows "engine_left e' + length (sent_outcomes es) < engine_left (sv_publish s)"
proof (cases pe)
  case (Attempt_Polled n now)
  then obtain a where n: "n < length (in_flight (sv_publish s))" "in_flight (sv_publish s) ! n = (a, None)"
    using ev by (cases "in_flight (sv_publish s) ! n") auto
  have e': "e' = (sv_publish s)\<lparr>in_flight := (in_flight (sv_publish s))[n := (a, Some now)]\<rparr>"
    "sent_outcomes es = []"
    using turn n Attempt_Polled by (auto simp: deliver_start_def Let_def)
  with poll_work [OF ok n turn [unfolded Attempt_Polled]] show ?thesis by (simp add: engine_left_def)
next
  case (Attempt_Answered n acc now)
  then obtain a t where n: "n < length (in_flight (sv_publish s))" "in_flight (sv_publish s) ! n = (a, Some t)"
    using ev by (cases "in_flight (sv_publish s) ! n") auto
  obtain r l where r: "deliver_finish a t acc now = (r, l)" by fastforce
  then have "attempt_done True (r, l) ((sv_publish s)\<lparr>in_flight := drop_nth n (in_flight (sv_publish s))\<rparr>) = (e', es)"
    using turn n Attempt_Answered by simp
  from done_engine_left [OF this] length_drop_nth [OF n(1)]
    answer_work [OF ok n turn [unfolded Attempt_Answered]]
  show ?thesis by (simp add: engine_left_def)
next
  case Flush_Tick
  with ev turn have "e' = (sv_publish s)\<lparr>completed_batch := []\<rparr>" "length (sent_outcomes es) = 1"
    by (auto simp: flush_completed_batch_def port_send_def)
  then show ?thesis using ev Flush_Tick
    by (cases "completed_batch (sv_publish s)") (simp_all add: engine_left_def engine_work_def)
next
  case (Got_Request p)
  with ev show ?thesis by simp
qed

text \<open>Timers that have expired and whose wake the coordinator has not yet handled.\<close>

definition wakes :: "('q, 'h) service \<Rightarrow> nat" where
  "wakes s = length (filter is_wake (sv_outcome_q s)) + length (filter is_expired (sv_snooze_out s))"

text \<open>What a turn does to the coordinator's side of the service.\<close>

definition same_front :: "('q, 'h) service \<Rightarrow> ('q, 'h) service \<Rightarrow> bool" where
  "same_front s t \<longleftrightarrow> sv_coord t = sv_coord s \<and> wakes t = wakes s"

lemma workflow_job_left:
  assumes "service_next pb js ch ops Workflow_Job s = Some t"
  shows "turns_left t < turns_left s \<and> same_front s t"
  using assms new_job_turn [of "sv_workflow s"]
  by (auto simp: after_workflow_def turns_left_def same_front_def wakes_def split: list.splits)

lemma workflow_publish_left:
  assumes ok: "pipe_ok view t" and nxt: "service_next pb js ch ops Workflow_Publish s = Some t"
  shows "turns_left t < turns_left s \<and> same_front s t"
proof -
  from nxt obtain r q where q: "sv_publish_out s = r # q"
    and t: "t = after_workflow (workflow_turn all_open (sv_workflow s) (Got_Publish r)) (s\<lparr>sv_publish_out := q\<rparr>)"
    by (auto split: list.splits)
  from ok t obtain w es where out: "dispatch_batch all_open (sv_workflow s) (outcome_results r) = Some (w, es)"
    by (auto simp: pipe_ok_def after_workflow_def publish_result_turn simp del: workflow_turn.simps split: option.splits)
  with q t batch_sends [OF out] show ?thesis
    by (simp add: publish_result_turn after_workflow_def turns_left_def same_front_def wakes_def del: workflow_turn.simps)
qed

lemma workflow_snooze_left:
  assumes ok: "pipe_ok view s" and nxt: "service_next pb js ch ops Workflow_Snooze s = Some t"
  shows "turns_left t < turns_left s \<and> same_front s t"
proof -
  from nxt obtain r q where q: "sv_snooze_out s = r # q" by (auto split: list.splits)
  have await: "\<exists>j. hm_get (sv_workflow s) k = Some \<lparr>tj_job = j, tj_step = 1\<rparr> \<and> job_key j = k"
    if "snooze_answered r = [k]" for k
    using that q pipe_okD(4) [OF ok] awaiting_get [OF pipe_okD(1) [OF ok], of k 1] by auto
  show ?thesis
  proof (cases r)
    case (Expired k)
    with nxt q show ?thesis
      by (auto simp: after_workflow_def turns_left_def same_front_def wakes_def)
  next
    case (InvalidWake k)
    with await obtain j where "hm_get (sv_workflow s) k = Some \<lparr>tj_job = j, tj_step = 1\<rparr>" by auto
    from nxt q InvalidWake invalid_turn [OF this] show ?thesis
      by (auto simp: after_workflow_def turns_left_def same_front_def wakes_def)
  next
    case (Accepted k)
    with await obtain j where "hm_get (sv_workflow s) k = Some \<lparr>tj_job = j, tj_step = 1\<rparr>" "job_key j = k" by auto
    from nxt q Accepted accepted_turn [OF this] show ?thesis
      by (auto simp: after_workflow_def turns_left_def same_front_def wakes_def)
  qed
qed

lemma snooze_turn_left:
  assumes laws: "delay_laws ops view" and ok: "pipe_ok view s"
    and nxt: "service_next pb js ch ops (Snooze_Turn clk) s = Some t"
  shows "turns_left t < turns_left s \<and> same_front s t"
proof -
  from nxt obtain i q where q: "sv_snooze_q s = i # q" by (auto split: list.splits)
  obtain sc where "snooze_replies ch ops (Snooze_Command clk i) (sv_snooze s) = Some (sc, [answer_to ch clk i])"
    using handle_input_refines [OF laws pipe_okD(2) [OF ok], of ch clk i]
    by (auto simp: snooze_replies_def)
  with nxt q show ?thesis
    by (auto simp: after_snooze_def turns_left_def same_front_def wakes_def)
qed

lemma task_turn_left:
  assumes sl: "service_laws js ops view" and ok: "pipe_ok view s" "pipe_ok view t"
    and ev: "effect_event ev s" and nxt: "service_next pb js ch ops ev s = Some t"
  shows "turns_left t < turns_left s \<and> same_front s t"
proof (cases ev)
  case Publish_Take
  with nxt show ?thesis
    by (auto simp: after_publish_def turns_left_def same_front_def wakes_def engine_left_def engine_work_def
        attempt_new_def split: list.splits)
next
  case (Publish_Event pe)
  obtain e' es where turn: "publish_turn js True pe (sv_publish s) = Some (e', es)"
    using publish_turn_total [of js True pe] sl unfolding service_laws_def by blast
  have "t = after_publish (Some (e', es)) s"
    using nxt ev turn Publish_Event by (cases pe; simp del: publish_turn.simps)
  with publish_event_left [OF pipe_okD(3) [OF ok(1)] _ turn] ev Publish_Event show ?thesis
    by (simp add: after_publish_def turns_left_def same_front_def wakes_def)
next
  case Workflow_Publish
  show ?thesis by (rule workflow_publish_left [OF ok(2) nxt [unfolded Workflow_Publish]])
next
  case Workflow_Snooze
  show ?thesis by (rule workflow_snooze_left [OF ok(1) nxt [unfolded Workflow_Snooze]])
next
  case Workflow_Job
  show ?thesis by (rule workflow_job_left [OF nxt [unfolded Workflow_Job]])
next
  case (Snooze_Turn clk)
  have "delay_laws ops view" using sl by (simp add: service_laws_def)
  from snooze_turn_left [OF this ok(1) nxt [unfolded Snooze_Turn]] show ?thesis .
qed (use ev in simp_all)

section \<open>The service comes to rest\<close>

text \<open>
  The turns of a service that receives no input: those of the tasks behind the coordinator, and
  the coordinator's turns on the outcomes of jobs, except on the failure of an automated job that
  it would send again.
\<close>

inductive rest_step ::
  "proto \<Rightarrow> serializer \<Rightarrow> chrono_ops \<Rightarrow> ('q, 'h) delay_ops \<Rightarrow> ('q, 'h) service \<Rightarrow> ('q, 'h) service \<Rightarrow> bool"
  for pb js ch ops where
  rest_effect: "id_counter (sv_coord s) \<noteq> - 1 \<Longrightarrow> \<not> sv_panicked s \<Longrightarrow> effect_event ev s \<Longrightarrow>
     service_next pb js ch ops ev s = Some t \<Longrightarrow> rest_step pb js ch ops s t"
| rest_outcome: "id_counter (sv_coord s) \<noteq> - 1 \<Longrightarrow> \<not> sv_panicked s \<Longrightarrow>
     (\<And>j. r = Failed j \<Longrightarrow> \<not> retried (sv_coord s) j) \<Longrightarrow>
     service_next pb js ch ops (Coordinator_Turn now (On_Outcome r)) s = Some t \<Longrightarrow> rest_step pb js ch ops s t"

lemma rest_stepE:
  assumes "rest_step pb js ch ops s t"
  obtains (effect) ev where "id_counter (sv_coord s) \<noteq> - 1" "\<not> sv_panicked s" "effect_event ev s"
      "service_next pb js ch ops ev s = Some t"
    | (outcome) r now where "id_counter (sv_coord s) \<noteq> - 1" "\<not> sv_panicked s"
      "\<And>j. r = Failed j \<Longrightarrow> \<not> retried (sv_coord s) j"
      "service_next pb js ch ops (Coordinator_Turn now (On_Outcome r)) s = Some t"
  using assms by (rule rest_step.cases) blast+

definition service_left :: "('q, 'h) service \<Rightarrow> nat" where
  "service_left s = 11 * ((\<Sum>j\<in>#pipe_jobs s. job_left (sv_coord s) j) + 3 * wakes s) + turns_left s"

lemma rest_step_service: "rest_step pb js ch ops s t \<Longrightarrow> service_step pb js ch ops s t"
  by (erule rest_stepE) (erule (1) service_stepI; assumption)+

lemma simulates_left:
  "simulates s m \<Longrightarrow> service_left s = 11 * (jobs_left m + 3 * wakes s) + turns_left s"
  by (auto simp: service_left_def jobs_left_def simulates_def simp flip: sum_mset_sum_list)

lemma outcome_turn_left:
  assumes inv: "cm_inv pb m" and ok: "pipe_ok view s" and sim: "simulates s m"
    and c: "id_counter (sv_coord s) \<noteq> - 1"
    and r: "\<And>j. r = Failed j \<Longrightarrow> \<not> retried (sv_coord s) j"
    and nxt: "service_next pb js ch ops (Coordinator_Turn now (On_Outcome r)) s = Some t"
  shows "service_left t < service_left s"
proof -
  let ?m = "cm_next pb now (On_Outcome r) m"
  obtain d es running where turn: "coord_turn pb now True (sv_coord s) (On_Outcome r) = (d, es, running)"
    by (metis prod_cases3)
  from nxt obtain q where q: "sv_outcome_q s = r # q"
    and t: "t = after_coord (d, es, running) (s\<lparr>sv_outcome_q := q\<rparr>)"
    by (auto simp: turn split: if_splits list.splits)
  from sim have m: "cm_coord m = sv_coord s" "mset (cm_jobs m) = pipe_jobs s" by (simp_all add: simulates_def)
  have jobs: "cm_jobs ?m = finished_job (On_Outcome r) (cm_jobs m) @ sent_jobs es"
    using turn m(1) by (simp add: cm_next_def)
  have mem: "j \<in> set (cm_jobs m)" if "r = Committed j \<or> r = Failed j" for j
  proof -
    have "j \<in># pipe_jobs s" using that q by (auto simp: pipe_jobs_def)
    then show ?thesis by (simp flip: m(2))
  qed
  have len: "length (cm_jobs ?m) + (if is_wake r then 0 else 1) = length (cm_jobs m) + length (sent_jobs es)"
    unfolding jobs using mem by (cases r) (auto simp: length_remove1 dest: length_pos_if_in_set)
  have "jobs_left ?m \<le> jobs_left m + 2 \<and> length (cm_jobs ?m) \<le> length (cm_jobs m) + 1 \<and>
      (\<not> is_wake r \<longrightarrow> jobs_left ?m < jobs_left m \<and> length (cm_jobs ?m) \<le> length (cm_jobs m))"
    using mem r committed_left [OF inv _ refl, of _ now] failed_left [OF inv _ _ refl, of _ now]
      wake_left [OF inv refl, of now]
    by (cases r) (fastforce simp: m(1) intro: less_imp_le trans_le_add1)+
  moreover have "turns_left t = turns_left s + 10 * length (sent_jobs es)"
    by (simp add: t after_coord_def turns_left_def)
  moreover have "wakes s = wakes t + (if is_wake r then 1 else 0)"
    using q by (simp add: t after_coord_def wakes_def)
  moreover have "simulates t ?m" using coord_turn_ok [OF ok sim c nxt] by blast
  ultimately show ?thesis
    using len simulates_left [OF sim] simulates_left [of t ?m] by (auto split: if_splits)
qed

lemma rest_step_left:
  assumes sl: "service_laws js ops view" and r: "reach (service_start ops) (service_step pb js ch ops) s"
    and st: "rest_step pb js ch ops s t"
  shows "service_left t < service_left s"
proof (rule reach_service_rel [OF sl r])
  fix m assume m: "cm_inv pb m" "pipe_ok view s" "simulates s m"
  from st show ?thesis
  proof (rule rest_stepE)
    fix ev assume ev: "effect_event ev s" "service_next pb js ch ops ev s = Some t"
    then have "\<not> coordinator_turn ev" by (cases ev) simp_all
    from task_turn_ok [OF sl m this ev(2)] have t: "pipe_ok view t" "simulates t m" by simp_all
    from task_turn_left [OF sl m(2) t(1) ev] simulates_left [OF m(3)] simulates_left [OF t(2)]
    show ?thesis by (simp add: same_front_def)
  next
    fix r now assume "id_counter (sv_coord s) \<noteq> - 1" "\<And>j. r = Failed j \<Longrightarrow> \<not> retried (sv_coord s) j"
      "service_next pb js ch ops (Coordinator_Turn now (On_Outcome r)) s = Some t"
    then show ?thesis by (rule outcome_turn_left [OF m])
  qed
qed

text \<open>When no turn is left, every queue in front of the outcomes is empty.\<close>

definition effects_idle :: "('q, 'h) service \<Rightarrow> bool" where
  "effects_idle s \<longleftrightarrow> sv_job_q s = [] \<and> sv_snooze_q s = [] \<and> sv_snooze_out s = [] \<and> sv_publish_q s = [] \<and>
     sv_publish_out s = [] \<and> in_flight (sv_publish s) = [] \<and> completed_batch (sv_publish s) = []"

lemma effects_busy:
  assumes "\<not> effects_idle s"
  obtains ev t where "effect_event ev s" "service_next pb js ch ops ev s = Some t"
proof -
  have "\<exists>ev. effect_event ev s \<and> service_next pb js ch ops ev s \<noteq> None"
  proof (cases "in_flight (sv_publish s) = [] \<and> completed_batch (sv_publish s) = []")
    case True
    with assms consider "sv_job_q s \<noteq> []" | "sv_snooze_q s \<noteq> []" | "sv_snooze_out s \<noteq> []"
      | "sv_publish_q s \<noteq> []" | "sv_publish_out s \<noteq> []"
      by (auto simp: effects_idle_def)
    then show ?thesis
    proof cases
      case 1 then show ?thesis by (intro exI [of _ Workflow_Job]) (simp split: list.split)
    next
      case 2 then show ?thesis by (intro exI [of _ "Snooze_Turn undefined"]) (simp split: list.split)
    next
      case 3 then show ?thesis by (intro exI [of _ Workflow_Snooze]) (simp split: list.split)
    next
      case 4 then show ?thesis by (intro exI [of _ Publish_Take]) (simp split: list.split)
    next
      case 5 then show ?thesis by (intro exI [of _ Workflow_Publish]) (simp split: list.split)
    qed
  next
    case False
    have next_ok: "service_next pb js ch ops (Publish_Event pe) s \<noteq> None" if "publish_taken pe = []" for pe
      using that by (cases pe) (simp_all del: publish_turn.simps)
    show ?thesis
    proof (cases "in_flight (sv_publish s)")
      case Nil
      with False next_ok [of Flush_Tick] show ?thesis by (intro exI [of _ "Publish_Event Flush_Tick"]) simp
    next
      case (Cons x xs)
      show ?thesis
      proof (cases "snd x")
        case None
        with Cons next_ok [of "Attempt_Polled 0 0"] show ?thesis
          by (intro exI [of _ "Publish_Event (Attempt_Polled 0 0)"]) simp
      next
        case (Some u)
        with Cons next_ok [of "Attempt_Answered 0 True 0"] show ?thesis
          by (intro exI [of _ "Publish_Event (Attempt_Answered 0 True 0)"]) simp
      qed
    qed
  qed
  then show thesis using that by blast
qed

lemma idle_tracks_nothing:
  assumes ok: "pipe_ok view s" and idle: "effects_idle s"
  shows "sv_workflow s = []"
proof (rule ccontr)
  note wok = pipe_okD(1) [OF ok]
  have a: "awaiting 1 (sv_workflow s) = {#}" "awaiting 2 (sv_workflow s) = {#}"
    using pipe_okD(4,5) [OF ok] idle by (simp_all add: effects_idle_def publish_held_def)
  assume "sv_workflow s \<noteq> []"
  then obtain k tj w where w: "sv_workflow s = (k, tj) # w" by (cases "sv_workflow s") auto
  then have "hm_get (sv_workflow s) k = Some tj" by (simp add: hm_get_def)
  from workflow_okD(3) [OF wok this] w have
    "k \<in># awaiting 1 (sv_workflow s) \<or> k \<in># awaiting 2 (sv_workflow s)"
    by (auto simp: awaiting_def)
  with a show False by simp
qed

lemma stopped_service:
  assumes sl: "service_laws js ops view" and r: "reach (service_start ops) (service_step pb js ch ops) s"
    and stop: "\<nexists>t. rest_step pb js ch ops s t" and c: "id_counter (sv_coord s) \<noteq> - 1"
  shows "(\<exists>j q. sv_outcome_q s = Failed j # q \<and> retried (sv_coord s) j) \<or>
    pipe_jobs s = {#} \<and> (\<forall>k. hm_get (speculative_state (sv_coord s)) k = None)"
proof (rule reach_service_rel [OF sl r])
  fix m assume m: "cm_inv pb m" and ok: "pipe_ok view s" and sim: "simulates s m"
  have run: "sv_running s" "\<not> sv_panicked s"
    using m sim ok by (simp_all add: simulates_def cm_inv_def pipe_ok_def)
  have idle: "effects_idle s"
  proof (rule ccontr)
    assume "\<not> effects_idle s"
    then obtain ev t where "effect_event ev s" "service_next pb js ch ops ev s = Some t" by (rule effects_busy)
    with rest_effect [OF c run(2)] stop show False by blast
  qed
  have jobs: "pipe_jobs s = mset (outcome_jobs (sv_outcome_q s))"
    using idle idle_tracks_nothing [OF ok idle]
    by (simp add: pipe_jobs_def effects_idle_def tracked_jobs_def)
  show ?thesis
  proof (cases "sv_outcome_q s")
    case Nil
    then have "cm_jobs m = []" using sim jobs by (simp add: simulates_def)
    with m sim have "\<forall>k. hm_get (speculative_state (sv_coord s)) k = None"
      by (simp add: cm_inv_def inv_flight_def simulates_def)
    with Nil jobs show ?thesis by simp
  next
    case (Cons r q)
    then have "\<exists>t. service_next pb js ch ops (Coordinator_Turn 0 (On_Outcome r)) s = Some t"
      using run(1) by simp
    with rest_outcome [OF c run(2)] stop have "\<exists>j. r = Failed j \<and> retried (sv_coord s) j" by blast
    with Cons show ?thesis by blast
  qed
qed

lemma rest_run:
  assumes sl: "service_laws js ops view" and r: "reach (service_start ops) (service_step pb js ch ops) s"
  shows "(rest_step pb js ch ops ^^ n) s t \<Longrightarrow>
    reach (service_start ops) (service_step pb js ch ops) t \<and> n + service_left t \<le> service_left s"
proof (induction n arbitrary: t)
  case 0
  with r show ?case by simp
next
  case (Suc n)
  then obtain u where u: "(rest_step pb js ch ops ^^ n) s u" "rest_step pb js ch ops u t" by auto
  from Suc.IH [OF u(1)] have ru: "reach (service_start ops) (service_step pb js ch ops) u"
    and n: "n + service_left u \<le> service_left s" by simp_all
  from rest_step_left [OF sl ru u(2)] n have "Suc n + service_left t \<le> service_left s" by simp
  with reach_step [OF ru] rest_step_service [OF u(2)] show ?case by blast
qed

text \<open>
  C14: the service comes to rest. Without new input a run of the service has at most
  \<open>service_left\<close> turns, in whatever order the tasks take them, whatever the publisher answers and
  whatever the clocks say. When it cannot continue, the next outcome is the failure of
  an automated job that would be sent again, or no job is left in the service and no alarm
  has speculative state, so that every alarm's latest state is its confirmed one.
\<close>

theorem service_comes_to_rest:
  assumes "service_laws js ops view" and "reach (service_start ops) (service_step pb js ch ops) s"
    and "(rest_step pb js ch ops ^^ n) s t"
  shows "n \<le> service_left s \<and>
    ((\<exists>u. rest_step pb js ch ops t u) \<or> id_counter (sv_coord t) = - 1 \<or>
     (\<exists>j q. sv_outcome_q t = Failed j # q \<and> retried (sv_coord t) j) \<or>
     pipe_jobs t = {#} \<and> (\<forall>k. hm_get (speculative_state (sv_coord t)) k = None))"
  using rest_run [OF assms] stopped_service [OF assms(1), of pb ch t] by auto

definition sample_answered :: "(sample_queue, nat) service" where
  "sample_answered = the (service_next sample_proto sample_json sample_chrono sample_delay
     (Publish_Event (Attempt_Answered 0 True 5)) sample_service)"

lemma sample_answer_turn:
  "id_counter (sv_coord sample_service) \<noteq> - 1 \<and> \<not> sv_panicked sample_service \<and>
   effect_event (Publish_Event (Attempt_Answered 0 True 5)) sample_service"
  by code_simp

lemma sample_answered_out: "sv_publish_out sample_answered = [Single (Sym_Ok demo_key)]"
  by code_simp

lemma sample_rest_step:
  "rest_step sample_proto sample_json sample_chrono sample_delay sample_service sample_answered"
  using sample_answer_turn
  by (intro rest_effect [where ev = "Publish_Event (Attempt_Answered 0 True 5)"])
    (simp_all add: sample_answered_def del: publish_turn.simps)

theorem service_comes_to_rest_witness:
  "1 \<le> service_left sample_service \<and> sv_publish_out sample_answered = [Single (Sym_Ok demo_key)]"
proof -
  have "(rest_step sample_proto sample_json sample_chrono sample_delay ^^ 1) sample_service sample_answered"
    using sample_rest_step by (simp add: relcompp_apply)
  from service_comes_to_rest [OF sample_service_laws reach_sample_service this] sample_answered_out
  show ?thesis by blast
qed

end
