(* ===== verification/Alarm_Stale_Wake.thy ===== *)
theory Alarm_Stale_Wake
  imports Alarm_Liveness
begin

text \<open>
  Two ways in which a snoozed alarm of the running service never wakes although its wake time has
  passed. A failed command rolls the alarm back to its confirmed bypass; the job of the rollback
  carries the old wake time, and when that has passed meanwhile the snooze scheduler refuses it,
  the job fails, and the coordinator sends it again, for ever. And a snoozed alarm restored at
  startup has no timer. Both are shown by an invariant that every turn keeps which takes no
  message about the alarm, in whatever order the tasks take their turns.
\<close>

section \<open>No timer and no accepted command\<close>

text \<open>
  No timer is armed for the alarm, none has expired, and no job for it is past the scheduler:
  its commands have been and are refused.
\<close>

definition refused :: "('q \<Rightarrow> 'h \<Rightarrow> (alarm_key \<times> instant) option) \<Rightarrow> alarm_key \<Rightarrow> ('q, 'h) service \<Rightarrow> bool" where
  "refused view k s \<longleftrightarrow> deadline view (sv_snooze s) k = None \<and>
     Expired k \<notin> set (sv_snooze_out s) \<and> Accepted k \<notin> set (sv_snooze_out s) \<and>
     Wake k \<notin> set (sv_outcome_q s) \<and> (\<forall>j. Committed j \<in> set (sv_outcome_q s) \<longrightarrow> job_key j \<noteq> k) \<and>
     k \<notin># awaiting 2 (sv_workflow s)"

text \<open>The scheduler refuses the alarm's command at the head of its queue.\<close>

fun refuses :: "chrono_ops \<Rightarrow> alarm_key \<Rightarrow> service_event \<Rightarrow> ('q, 'h) service \<Rightarrow> bool" where
  "refuses ch k (Snooze_Turn clk) s =
     (case sv_snooze_q s of [] \<Rightarrow> True
      | i # q \<Rightarrow> si_key i = k \<longrightarrow>
          (case si_wake i of None \<Rightarrow> False | Some w \<Rightarrow> timestamp_secs_to_instant ch clk w = None))"
| "refuses ch k ev s = True"

text \<open>What \<open>refused\<close> says of the part of the state the turns of the tasks are described by.\<close>

lemma refused_part:
  "timer_part view s = (qs, out, dl, aw, oc) \<Longrightarrow>
   refused view k s \<longleftrightarrow> dl k = None \<and> Expired k \<notin> set out \<and> Accepted k \<notin> set out \<and> Wake k \<notin> set oc \<and>
     (\<forall>j. Committed j \<in> set oc \<longrightarrow> job_key j \<noteq> k) \<and> k \<notin># aw"
  by (auto simp: timer_part_def refused_def)

lemma refused_command:
  assumes "si_key i = k \<longrightarrow> (\<exists>w. si_wake i = Some w \<and> timestamp_secs_to_instant ch clk w = None)" "dl k = None"
  shows "deadline_after ch clk i dl k = None \<and> answer_to ch clk i \<noteq> Accepted k \<and> answer_to ch clk i \<noteq> Expired k"
  using assms by (auto simp: answer_to_def split: option.split)

lemma refused_task_turn:
  assumes sl: "service_laws js ops view" and inv: "cm_inv pb m" and ok: "pipe_ok view s" and sim: "simulates s m"
    and ev: "\<not> coordinator_turn ev" and nxt: "service_next pb js ch ops ev s = Some t"
    and ref: "refused view k s" and no: "refuses ch k ev s"
  shows "refused view k t \<and> (\<forall>i\<in>set (sv_snooze_q t). i \<in> set (sv_snooze_q s) \<or>
    (\<exists>j\<in>#pipe_jobs s. i = command_of j))"
proof -
  obtain qs out dl aw oc where part: "timer_part view s = (qs, out, dl, aw, oc)" by (metis prod_cases5)
  note R = ref [unfolded refused_part [OF part]]
  have q: "sv_snooze_q s = qs" using part by (simp add: timer_part_def)
  have q': "sv_snooze_q t = qs'" if "timer_part view t = (qs', x)" for qs' x
    using that by (simp add: timer_part_def)
  from sl inv ok sim nxt ev part show ?thesis
  proof (cases rule: task_turn_cases)
    case (job j)
    with R show ?thesis by (auto simp: refused_part [OF job(2)] q' [OF job(2)] q)
  next
    case (expired k' out')
    with R show ?thesis by (auto simp: refused_part [OF expired(2)] q' [OF expired(2)] q)
  next
    case (invalid k' j out')
    with R show ?thesis by (auto simp: refused_part [OF invalid(2)] q' [OF invalid(2)] q)
  next
    case (accepted k' out')
    with R show ?thesis by (auto simp: refused_part [OF accepted(2)] q' [OF accepted(2)] q)
  next
    case (results aw' rs)
    have "Wake k \<notin> set rs" using results(3) by (auto simp: filter_empty_conv)
    moreover have "k \<notin># aw'" using mset_subset_eqD [OF results(2)] R by blast
    moreover have "job_key j \<noteq> k" if "Committed j \<in> set rs" for j using results(4) [OF that] R by blast
    ultimately show ?thesis using R by (auto simp: refused_part [OF results(1)] q' [OF results(1)] q)
  next
    case (command clk i qs')
    have "si_key i = k \<longrightarrow> (\<exists>w. si_wake i = Some w \<and> timestamp_secs_to_instant ch clk w = None)"
      using no command(1,2) q by (auto split: option.splits)
    from refused_command [OF this, of dl] R show ?thesis
      by (simp add: refused_part [OF command(3)] q' [OF command(3)] q command(2) del: deadline_after.simps)
        (metis snooze_outcome.distinct(1) snooze_outcome.distinct(3))
  next
    case (fired k' u)
    with R show ?thesis by (auto simp: refused_part [OF fired(2)] q' [OF fired(2)] q)
  next
    case other
    with R show ?thesis by (auto simp: refused_part [OF other] q' [OF other] q)
  qed
qed

text \<open>Messages that leave the intent of a bypassed alarm alone.\<close>

fun spares_message :: "proto \<Rightarrow> alarm_key \<Rightarrow> domain_input \<Rightarrow> bool" where
  "spares_message pb k (SnapshotRequest x) = True"
| "spares_message pb k (UserUpdate k' action user cf) = (k' \<noteq> k)"
| "spares_message pb k (AutomatedUpdate st) =
     (key_from_status pb st \<noteq> k \<or> status_source pb st = Epics \<and> status_state pb st \<noteq> Unbypassed)"

fun spares :: "proto \<Rightarrow> alarm_key \<Rightarrow> i64 \<Rightarrow> coord_event \<Rightarrow> bool" where
  "spares pb k now (On_User msg) = spares_message pb k msg"
| "spares pb k now (On_Automated msg) = spares_message pb k msg"
| "spares pb k now (On_Outcome (Wake k')) = (key_from_status pb (wake_status pb now k') = k \<longrightarrow> k' = k)"
| "spares pb k now ev = True"

definition bypassed_now :: "proto \<Rightarrow> alarm_key \<Rightarrow> cmachine \<Rightarrow> bool" where
  "bypassed_now pb k m \<longleftrightarrow> is_bypassed pb (get_latest_status (cm_coord m) k)"

lemma record_other:
  "k' \<noteq> k \<Longrightarrow> spec (record_intent k' st cf m) k = spec m k \<and> conf (record_intent k' st cf m) k = conf m k \<and>
     set (cm_jobs m) \<subseteq> set (cm_jobs (record_intent k' st cf m))"
  by (auto simp: jobs_record)

lemma spared_message:
  fixes now :: i64
  assumes run: "cm_running m" and byp: "bypassed_now pb k m" and sp: "spares_message pb k msg"
    and ev: "ev = On_User msg \<or> ev = On_Automated msg"
  defines "m' \<equiv> cm_next pb now ev m"
  shows "spec m' k = spec m k \<and> conf m' k = conf m k \<and> set (cm_jobs m) \<subseteq> set (cm_jobs m')"
proof (cases msg)
  case (AutomatedUpdate st)
  then have m': "m' = automated_result pb st m" using ev run by (auto simp: m'_def cm_next_automated)
  show ?thesis
  proof (cases "key_from_status pb st = k")
    case True
    then have "automated_result pb st m = m"
      using sp byp AutomatedUpdate
      by (auto simp: automated_result_def should_publish_def bypassed_now_def)
    then show ?thesis by (simp add: m')
  next
    case False
    then show ?thesis using record_other [of "key_from_status pb st" k st None m]
      by (auto simp: m' automated_result_def Let_def)
  qed
next
  case (UserUpdate k' action user cf)
  then have "m' = user_result pb now k' action user cf m" using ev run by (auto simp: m'_def cm_next_user)
  then show ?thesis
    using sp UserUpdate record_other [of k' k "build_user_status pb now k' action user" "Some cf" m]
    by (auto simp: user_result_def answer_with_def)
next
  case (SnapshotRequest x)
  then show ?thesis using ev run by (auto simp: m'_def cm_next_snapshot)
qed

lemma other_outcome:
  fixes now :: i64
  assumes inv: "cm_inv pb m" and j: "j \<in> set (cm_jobs m)" "job_key j \<noteq> k"
    and ev: "ev = On_Outcome (Committed j) \<or> ev = On_Outcome (Failed j)"
  defines "m' \<equiv> cm_next pb now ev m"
  shows "spec m' k = spec m k \<and> conf m' k = conf m k \<and>
    {j'\<in>set (cm_jobs m). job_key j' = k} \<subseteq> set (cm_jobs m')"
proof -
  have run: "cm_running m" and d: "distinct (map job_key (cm_jobs m))"
    using inv by (simp_all add: cm_inv_def inv_flight_def)
  obtain st n where sp: "spec m (job_key j) = Some (st, n)" using flight_spec [OF inv j(1)] .
  obtain rst rn where rb: "rollback_entry pb m (job_key j) = (rst, rn)" by fastforce
  have keep: "{j'\<in>set (cm_jobs m). job_key j' = k} \<subseteq> set (remove1 j (cm_jobs m))"
    using flight_remove(1) [OF d j(1)] j(2) by auto
  from ev show ?thesis
  proof
    assume "ev = On_Outcome (Committed j)"
    then show ?thesis using keep j(2) sp
      by (auto simp: m'_def cm_next_committed [OF run] jobs_resend)
  next
    assume "ev = On_Outcome (Failed j)"
    then show ?thesis using keep j(2) sp rb
      by (auto simp: m'_def cm_next_failed [OF run sp] jobs_resend)
  qed
qed

lemma spared_wake:
  fixes now :: i64
  assumes "cm_running m" "key_from_status pb (wake_status pb now k') \<noteq> k"
  defines "m' \<equiv> cm_next pb now (On_Outcome (Wake k')) m"
  shows "spec m' k = spec m k \<and> conf m' k = conf m k \<and> set (cm_jobs m) \<subseteq> set (cm_jobs m')"
  using assms(1,2) record_other [OF assms(2), of "wake_status pb now k'" None m]
  by (auto simp: m'_def cm_next_automated automated_result_def Let_def)

text \<open>The failure of an automated job with the current intent sends the very same job again.\<close>

lemma retried_again:
  fixes now :: i64
  assumes inv: "cm_inv pb m" and j: "j \<in> set (cm_jobs m)" "\<not> job_user_initiated j"
    and sp: "spec m (job_key j) = Some (job_status j, job_id j)"
  defines "m' \<equiv> cm_next pb now (On_Outcome (Failed j)) m"
  shows "spec m' k = spec m k \<and> conf m' k = conf m k \<and> j \<in> set (cm_jobs m')"
proof -
  have run: "cm_running m" and "pend m (job_id j) = None"
    using inv j by (simp_all add: cm_inv_def inv_user_def)
  moreover have "j = \<lparr>job_id = job_id j, job_key = job_key j, job_status = job_status j, job_user_initiated = False\<rparr>"
    using j(2) by simp
  ultimately show ?thesis
    using j(2) sp by (simp add: m'_def cm_next_failed [OF run sp] jobs_resend)
qed

fun clock_is :: "(clocks \<Rightarrow> bool) \<Rightarrow> service_event \<Rightarrow> bool" where
  "clock_is P (Snooze_Turn clk) = P clk"
| "clock_is P ev = True"

fun event_spares :: "proto \<Rightarrow> alarm_key \<Rightarrow> service_event \<Rightarrow> bool" where
  "event_spares pb k (Coordinator_Turn now ev) = spares pb k now ev"
| "event_spares pb k ev = True"

text \<open>Turns of the service in which no message asks for a change of the alarm.\<close>

inductive spared_step ::
  "proto \<Rightarrow> serializer \<Rightarrow> chrono_ops \<Rightarrow> ('q, 'h) delay_ops \<Rightarrow> alarm_key \<Rightarrow> (clocks \<Rightarrow> bool) \<Rightarrow>
   ('q, 'h) service \<Rightarrow> ('q, 'h) service \<Rightarrow> bool"
  for pb js ch ops k P where
  spared_stepI: "id_counter (sv_coord s) \<noteq> - 1 \<Longrightarrow> \<not> sv_panicked s \<Longrightarrow> event_spares pb k ev \<Longrightarrow>
     clock_is P ev \<Longrightarrow> service_next pb js ch ops ev s = Some t \<Longrightarrow> spared_step pb js ch ops k P s t"

text \<open>The jobs of the alarm, if there are any, are automated ones for the current intent.\<close>

definition only_retries :: "alarm_key \<Rightarrow> cmachine \<Rightarrow> bool" where
  "only_retries k m \<longleftrightarrow> (\<forall>j\<in>set (cm_jobs m). job_key j = k \<longrightarrow>
     \<not> job_user_initiated j \<and> spec m k = Some (job_status j, job_id j))"

lemma spared_coord_turn:
  assumes inv: "cm_inv pb m" and ok: "pipe_ok view s" and sim: "simulates s m"
    and c: "id_counter (sv_coord s) \<noteq> - 1" and ref: "refused view k s"
    and byp: "bypassed_now pb k m" and retr: "only_retries k m" and sp: "spares pb k now ev"
    and nxt: "service_next pb js ch ops (Coordinator_Turn now ev) s = Some t"
  defines "m' \<equiv> cm_next pb now ev m"
  shows "spec m' k = spec m k \<and> conf m' k = conf m k \<and>
    {j\<in>set (cm_jobs m). job_key j = k} \<subseteq> set (cm_jobs m') \<and> simulates t m' \<and>
    refused view k t \<and> sv_snooze_q t = sv_snooze_q s"
proof -
  have run: "cm_running m" using inv by (simp add: cm_inv_def)
  have sim': "simulates t m'" unfolding m'_def using coord_turn_ok [OF ok sim c nxt] by blast
  have kept: "refused view k t" "sv_snooze_q t = sv_snooze_q s"
    and head: "\<And>r. ev = On_Outcome r \<Longrightarrow> r \<in> set (sv_outcome_q s)"
    using coord_keeps [OF nxt] ref by (auto simp: refused_def)
  have mem: "j \<in> set (cm_jobs m)" if "ev = On_Outcome (Committed j) \<or> ev = On_Outcome (Failed j)" for j
    using coord_enabled [OF sim nxt] that by auto
  have "spec m' k = spec m k \<and> conf m' k = conf m k \<and> {j\<in>set (cm_jobs m). job_key j = k} \<subseteq> set (cm_jobs m')"
  proof (cases ev)
    case (On_Outcome r)
    show ?thesis
    proof (cases r)
      case (Committed j)
      with head ref On_Outcome have other: "job_key j \<noteq> k" by (auto simp: refused_def)
      have ev: "ev = On_Outcome (Committed j) \<or> ev = On_Outcome (Failed j)"
        using On_Outcome Committed by simp
      show ?thesis unfolding m'_def by (rule other_outcome [OF inv mem [OF ev] other ev])
    next
      case (Failed j)
      show ?thesis
      proof (cases "job_key j = k")
        case True
        have j: "j \<in> set (cm_jobs m)" using mem On_Outcome Failed by blast
        have uniq: "{j'\<in>set (cm_jobs m). job_key j' = k} \<subseteq> {j}"
        proof
          fix j' assume j': "j' \<in> {j' \<in> set (cm_jobs m). job_key j' = k}"
          have "distinct (map job_key (cm_jobs m))" using inv by (simp add: cm_inv_def inv_flight_def)
          from flight_remove(4) [OF this j] j' True show "j' \<in> {j}" by simp
        qed
        from retr j True have "\<not> job_user_initiated j" "spec m (job_key j) = Some (job_status j, job_id j)"
          by (simp_all add: only_retries_def)
        from retried_again [OF inv j this, of now k] uniq On_Outcome Failed show ?thesis
          by (auto simp: m'_def)
      next
        case False
        have ev: "ev = On_Outcome (Committed j) \<or> ev = On_Outcome (Failed j)"
          using On_Outcome Failed by simp
        show ?thesis unfolding m'_def by (rule other_outcome [OF inv mem [OF ev] False ev])
      qed
    next
      case (Wake k')
      with head ref On_Outcome have "k' \<noteq> k" by (auto simp: refused_def)
      with sp On_Outcome Wake have "key_from_status pb (wake_status pb now k') \<noteq> k" by auto
      with spared_wake [OF run this] On_Outcome Wake show ?thesis by (auto simp: m'_def)
    qed
  next
    case (On_User msg)
    with spared_message [OF run byp, of msg ev now] sp show ?thesis by (auto simp: m'_def)
  next
    case (On_Automated msg)
    with spared_message [OF run byp, of msg ev now] sp show ?thesis by (auto simp: m'_def)
  qed (use nxt in \<open>simp_all split: if_splits\<close>)
  with sim' kept show ?thesis by blast
qed

text \<open>
  The alarm is bypassed with the entries \<open>e\<close> and \<open>c\<close> of the two caches, and no clock that
  \<open>P\<close> allows lets the scheduler accept one of its wake times.
\<close>

definition wake_refused :: "chrono_ops \<Rightarrow> (clocks \<Rightarrow> bool) \<Rightarrow> timestamp option \<Rightarrow> bool" where
  "wake_refused ch P wake \<longleftrightarrow> (\<exists>w. wake = Some w \<and> (\<forall>clk. P clk \<longrightarrow> timestamp_secs_to_instant ch clk w = None))"

definition held_bypass ::
  "proto \<Rightarrow> chrono_ops \<Rightarrow> ('q \<Rightarrow> 'h \<Rightarrow> (alarm_key \<times> instant) option) \<Rightarrow> alarm_key \<Rightarrow> (clocks \<Rightarrow> bool) \<Rightarrow>
   (status \<times> u64) option \<Rightarrow> (status \<times> u64) option \<Rightarrow> ('q, 'h) service \<Rightarrow> bool" where
  "held_bypass pb ch view k P e c s \<longleftrightarrow> refused view k s \<and>
     hm_get (speculative_state (sv_coord s)) k = e \<and> hm_get (confirmed_state (sv_coord s)) k = c \<and>
     is_bypassed pb (get_latest_status (sv_coord s) k) \<and>
     (\<forall>j\<in>#pipe_jobs s. job_key j = k \<longrightarrow> \<not> job_user_initiated j \<and> e = Some (job_status j, job_id j) \<and>
        wake_refused ch P (st_wake (job_status j))) \<and>
     (\<forall>i\<in>set (sv_snooze_q s). si_key i = k \<longrightarrow> wake_refused ch P (si_wake i))"

lemma held_refuses:
  assumes "held_bypass pb ch view k P e c s" "clock_is P ev"
  shows "refuses ch k ev s"
  using assms
  by (cases ev) (auto simp: held_bypass_def wake_refused_def split: list.splits option.splits)

lemma held_task_turn:
  assumes sl: "service_laws js ops view" and m: "cm_inv pb m" "pipe_ok view s" "simulates s m"
    and ev: "\<not> coordinator_turn ev" and nxt: "service_next pb js ch ops ev s = Some t"
    and held: "held_bypass pb ch view k P e c s" and clk: "clock_is P ev"
  shows "held_bypass pb ch view k P e c t"
proof -
  have ref: "refused view k s" using held by (simp add: held_bypass_def)
  note R = refused_task_turn [OF sl m ev nxt ref held_refuses [OF held clk]]
  have "simulates t m" using task_turn_ok [OF sl m ev nxt] by simp
  then have same: "sv_coord t = sv_coord s" "pipe_jobs t = pipe_jobs s"
    using m(3) by (simp_all add: simulates_def)
  have "wake_refused ch P (si_wake i)" if "i \<in> set (sv_snooze_q t)" "si_key i = k" for i
    using R that held by (auto simp: held_bypass_def command_of_def)
  with R held show ?thesis by (simp add: held_bypass_def same)
qed

lemma held_coord_turn:
  assumes m: "cm_inv pb m" "pipe_ok view s" "simulates s m" and c: "id_counter (sv_coord s) \<noteq> - 1"
    and nxt: "service_next pb js ch ops (Coordinator_Turn now ev) s = Some t"
    and held: "held_bypass pb ch view k P e cf s" and sp: "spares pb k now ev"
  shows "held_bypass pb ch view k P e cf t"
    and "{j \<in> set_mset (pipe_jobs s). job_key j = k} \<subseteq> set_mset (pipe_jobs t)"
proof -
  let ?m = "cm_next pb now ev m"
  have jobs: "set_mset (pipe_jobs s) = set (cm_jobs m)" and front: "cm_coord m = sv_coord s"
    using m(3) by (simp_all add: simulates_def flip: set_mset_mset)
  have "bypassed_now pb k m" "only_retries k m" "refused view k s"
    using held by (auto simp: held_bypass_def bypassed_now_def only_retries_def front jobs)
  from spared_coord_turn [OF m c this(3,1,2) sp nxt]
  have T: "spec ?m k = spec m k" "conf ?m k = conf m k" "{j\<in>set (cm_jobs m). job_key j = k} \<subseteq> set (cm_jobs ?m)"
    "simulates t ?m" "refused view k t" "sv_snooze_q t = sv_snooze_q s" by blast+
  have jobs': "set_mset (pipe_jobs t) = set (cm_jobs ?m)" and front': "cm_coord ?m = sv_coord t"
    using T(4) by (simp_all add: simulates_def flip: set_mset_mset)
  show "{j \<in> set_mset (pipe_jobs s). job_key j = k} \<subseteq> set_mset (pipe_jobs t)"
    using T(3) by (simp add: jobs jobs')
  have "cm_step pb m ?m" using coord_turn_ok [OF m(2,3) c nxt] by blast
  then have inv': "cm_inv pb ?m" by (rule coord.inv_step) (rule m(1))
  have old: "j \<in> set (cm_jobs m)" if j: "j \<in> set (cm_jobs ?m)" "job_key j = k" for j
  proof -
    obtain st n where "spec ?m (job_key j) = Some (st, n)" using flight_spec [OF inv' j(1)] .
    then have "spec m k \<noteq> None" using j(2) T(1) by simp
    moreover have "\<forall>k. spec m k = None \<longleftrightarrow> (\<forall>j\<in>set (cm_jobs m). job_key j \<noteq> k)"
      using m(1) unfolding cm_inv_def inv_flight_def by (elim conjE)
    ultimately obtain j0 where j0: "j0 \<in> set (cm_jobs m)" "job_key j0 = k" by metis
    with T(3) have "j0 \<in> set (cm_jobs ?m)" by blast
    then have "j0 = j" using flight_remove(4) [OF _ j(1), of j0] inv' j(2) j0(2)
      by (simp add: cm_inv_def inv_flight_def)
    with j0 show ?thesis by simp
  qed
  have "get_latest_status (sv_coord t) k = get_latest_status (sv_coord s) k"
    using T(1,2) by (simp add: get_latest_status_def front front' split: option.split)
  with held T old show "held_bypass pb ch view k P e cf t"
    unfolding held_bypass_def by (simp add: jobs jobs' front front')
qed

lemma held_steps:
  assumes sl: "service_laws js ops view" and r: "reach (service_start ops) (service_step pb js ch ops) s"
    and held: "held_bypass pb ch view k P e c s"
    and steps: "(spared_step pb js ch ops k P)\<^sup>*\<^sup>* s t"
  shows "reach (service_start ops) (service_step pb js ch ops) t \<and> held_bypass pb ch view k P e c t \<and>
    {j \<in> set_mset (pipe_jobs s). job_key j = k} \<subseteq> set_mset (pipe_jobs t)"
  using steps
proof (induction rule: rtranclp_induct)
  case base
  with r held show ?case by auto
next
  case (step t u)
  then have t: "reach (service_start ops) (service_step pb js ch ops) t" "held_bypass pb ch view k P e c t"
    "{j \<in> set_mset (pipe_jobs s). job_key j = k} \<subseteq> set_mset (pipe_jobs t)" by simp_all
  from step(2) obtain ev where c: "id_counter (sv_coord t) \<noteq> - 1" "\<not> sv_panicked t"
    and ev: "event_spares pb k ev" "clock_is P ev" and nxt: "service_next pb js ch ops ev t = Some u"
    by (rule spared_step.cases) blast
  have ru: "reach (service_start ops) (service_step pb js ch ops) u"
    by (rule reach_step [OF t(1) service_stepI [OF c nxt]])
  show ?case
  proof (rule reach_service_rel [OF sl t(1)])
    fix m assume m: "cm_inv pb m" "pipe_ok view t" "simulates t m"
    show ?thesis
    proof (cases "coordinator_turn ev")
      case True
      then obtain now cev where cev: "ev = Coordinator_Turn now cev" by (cases ev) auto
      with ev(1) have "spares pb k now cev" by simp
      from held_coord_turn [OF m c(1) nxt [unfolded cev] t(2) this] t(3) ru show ?thesis by blast
    next
      case False
      from task_turn_ok [OF sl m False nxt] m(3) have "pipe_jobs u = pipe_jobs t" by (simp add: simulates_def)
      with held_task_turn [OF sl m False nxt t(2) ev(2)] t(3) ru show ?thesis by simp
    qed
  qed
qed

text \<open>
  C23: a rollback to a bypass whose wake time has passed is retried for ever. The job of the
  rollback is automated and the scheduler refuses its wake time, so that it fails and is sent
  again. As long as the clocks stay past the wake time and no message asks for a change of the
  alarm, in every later state the job is still in the service, no timer is armed, and both
  caches keep the bypass.
\<close>

theorem stale_rollback_livelock:
  assumes "service_laws js ops view" and "reach (service_start ops) (service_step pb js ch ops) s"
    and "j \<in># pipe_jobs s" "\<not> job_user_initiated j" "status_state pb (job_status j) = Bypassed"
    and "st_wake (job_status j) = Some w"
    and "hm_get (speculative_state (sv_coord s)) (job_key j) = Some (job_status j, job_id j)"
    and "refused view (job_key j) s"
    and "\<forall>i\<in>set (sv_snooze_q s). si_key i = job_key j \<longrightarrow> si_wake i = Some w"
    and "(spared_step pb js ch ops (job_key j) (\<lambda>clk. timestamp_secs_to_instant ch clk w = None))\<^sup>*\<^sup>* s t"
  shows "j \<in># pipe_jobs t \<and> deadline view (sv_snooze t) (job_key j) = None \<and>
    hm_get (speculative_state (sv_coord t)) (job_key j) = Some (job_status j, job_id j) \<and>
    hm_get (confirmed_state (sv_coord t)) (job_key j) = hm_get (confirmed_state (sv_coord s)) (job_key j)"
proof -
  let ?P = "\<lambda>clk. timestamp_secs_to_instant ch clk w = None"
  have no: "wake_refused ch ?P (Some w)" by (simp add: wake_refused_def)
  have uniq: "j' = j" if "j' \<in># pipe_jobs s" "job_key j' = job_key j" for j'
    by (rule reach_service_rel [OF assms(1,2)]) (rule pipe_unique [OF _ _ that(1) assms(3) that(2)])
  have "\<forall>j'\<in>#pipe_jobs s. job_key j' = job_key j \<longrightarrow> \<not> job_user_initiated j' \<and>
      Some (job_status j, job_id j) = Some (job_status j', job_id j') \<and> wake_refused ch ?P (st_wake (job_status j'))"
  proof (intro ballI impI)
    fix j' assume "j' \<in># pipe_jobs s" "job_key j' = job_key j"
    then have "j' = j" by (rule uniq)
    then show "\<not> job_user_initiated j' \<and> Some (job_status j, job_id j) = Some (job_status j', job_id j') \<and>
        wake_refused ch ?P (st_wake (job_status j'))"
      using assms(4,6) no by simp
  qed
  then have "held_bypass pb ch view (job_key j) ?P (Some (job_status j, job_id j))
      (hm_get (confirmed_state (sv_coord s)) (job_key j)) s"
    using assms(5,7-9) no by (simp add: held_bypass_def get_latest_status_def is_bypassed_def)
  from held_steps [OF assms(1,2) this assms(10)] assms(3) show ?thesis
    by (auto simp: held_bypass_def refused_def)
qed

text \<open>
  C37: a hydrated bypass has no timer. A snoozed alarm that was restored at startup stays bypassed
  as long as no message asks for a change of it: its timer is never armed, no wake for it is sent,
  and its confirmed entry stays what it was, also when its wake time has passed.
\<close>

theorem hydrated_snooze_never_wakes:
  assumes "service_laws js ops view" and "hm_wf h" and "hm_get h k = Some st"
    and "status_state pb st = Bypassed"
    and "(spared_step pb js ch ops k (\<lambda>clk. True))\<^sup>*\<^sup>* (runtime_start ops h) t"
  shows "hm_get (confirmed_state (sv_coord t)) k = Some (st, DEFAULT_HYDRATED_ID) \<and>
    hm_get (speculative_state (sv_coord t)) k = None \<and> deadline view (sv_snooze t) k = None \<and>
    Wake k \<notin> set (sv_outcome_q t)"
proof -
  let ?s = "runtime_start ops h"
  have "service_start ops ?s" using assms(2) by (auto simp: service_start_def)
  note r = reach_init [where init = "service_start ops" and step = "service_step pb js ch ops", OF this]
  have "get_latest_status (sv_coord ?s) k = Some st"
    using assms(2,3) by (simp add: runtime_start_def get_latest_status_def coordinator_new_confirmed)
  moreover have "hm_get (speculative_state (coordinator_new h)) k = None" by (simp add: coordinator_new_def)
  ultimately have "held_bypass pb ch view k (\<lambda>clk. True) None (Some (st, DEFAULT_HYDRATED_ID)) ?s"
    using assms(2-4) deadline_new [of view ops]
    by (simp add: held_bypass_def refused_def runtime_start_def coordinator_new_confirmed is_bypassed_def
        workflow_ok_new pipe_jobs_def)
  from held_steps [OF assms(1) r this assms(5)] show ?thesis by (simp add: held_bypass_def refused_def)
qed

section \<open>A run into the retries\<close>

lemma spared_events:
  "service_events pb js ch ops evs s = Some t \<Longrightarrow> list_all (event_spares pb k) evs \<Longrightarrow>
     list_all (clock_is P) evs \<Longrightarrow> (spared_step pb js ch ops k P)\<^sup>*\<^sup>* s t"
proof (induction evs arbitrary: s)
  case (Cons ev evs)
  then obtain u where "spared_step pb js ch ops k P s u" "service_events pb js ch ops evs u = Some t"
    by (auto split: Option.bind_splits if_splits intro: spared_stepI)
  with Cons show ?case by (auto intro: converse_rtranclp_into_rtranclp)
qed simp

text \<open>
  An alarm is snoozed until second 1060. A user activates it, but the publisher refuses the
  message twice, and when the coordinator rolls back, the wake time has passed.
\<close>

definition snoozed_status :: status where
  "snoozed_status = build_user_status sample_proto 900 demo_key (Bypass (Some (sample_wake 1060))) ''op''"

definition snoozed_hydration :: hydrated_statuses where
  "snoozed_hydration = [(demo_key, snoozed_status)]"

definition rolled_back_run :: "service_event list" where
  "rolled_back_run = [Coordinator_Turn 1000 (On_User (UserUpdate demo_key Activate ''op'' 7)),
     Workflow_Job, Snooze_Turn sample_clocks, Workflow_Snooze, Publish_Take,
     Publish_Event (Attempt_Polled 0 1), Publish_Event (Attempt_Answered 0 False 2),
     Publish_Event (Attempt_Polled 0 3), Publish_Event (Attempt_Answered 0 False 4), Workflow_Publish,
     Coordinator_Turn 1061 (On_Outcome (Failed \<lparr>job_id = 1, job_key = demo_key,
       job_status = build_user_status sample_proto 1000 demo_key Activate ''op'', job_user_initiated = True\<rparr>))]"

definition rolled_back :: "(sample_queue, nat) service" where
  "rolled_back = the (service_events sample_proto sample_json sample_chrono sample_delay rolled_back_run
     (runtime_start sample_delay snoozed_hydration))"

definition stale_job :: job where
  "stale_job = \<lparr>job_id = 0, job_key = demo_key, job_status = snoozed_status, job_user_initiated = False\<rparr>"

definition late_clocks :: clocks where
  "late_clocks = \<lparr>utc_now = 1061 * 1000000000, instant_now = 68\<rparr>"

definition retry_round :: "service_event list" where
  "retry_round = [Workflow_Job, Snooze_Turn late_clocks, Workflow_Snooze,
     Coordinator_Turn 1061 (On_Outcome (Failed stale_job))]"

lemma rolled_back_evaluated:
  "case service_events sample_proto sample_json sample_chrono sample_delay rolled_back_run
     (runtime_start sample_delay snoozed_hydration) of
     None \<Rightarrow> False
   | Some s \<Rightarrow> sv_job_q s = [stale_job] \<and> sv_workflow s = [] \<and> sv_snooze_q s = [] \<and> sv_snooze_out s = [] \<and>
       sv_outcome_q s = [] \<and> registry (sv_snooze s) = [] \<and> id_counter (sv_coord s) = 2 \<and>
       hm_get (speculative_state (sv_coord s)) demo_key = Some (snoozed_status, 0)"
  by code_simp

lemma snoozed_hydration_simps:
  "hm_wf snoozed_hydration" "hm_get snoozed_hydration demo_key = Some snoozed_status"
  by (simp_all add: snoozed_hydration_def hm_wf_def hm_get_def)

lemma rolled_back_run_ok:
  "service_events sample_proto sample_json sample_chrono sample_delay rolled_back_run
     (runtime_start sample_delay snoozed_hydration) = Some rolled_back"
  using rolled_back_evaluated by (auto simp: rolled_back_def split: option.splits)

lemma rolled_back_simps:
  "sv_job_q rolled_back = [stale_job]" "sv_workflow rolled_back = []" "sv_snooze_q rolled_back = []"
  "sv_snooze_out rolled_back = []" "sv_outcome_q rolled_back = []" "registry (sv_snooze rolled_back) = []"
  "hm_get (speculative_state (sv_coord rolled_back)) demo_key = Some (snoozed_status, 0)"
  using rolled_back_evaluated unfolding rolled_back_run_ok by simp_all

lemma reach_rolled_back:
  "reach (service_start sample_delay) (service_step sample_proto sample_json sample_chrono sample_delay) rolled_back"
  by (rule reach_steps [OF reach_init service_events_steps [OF rolled_back_run_ok]])
    (use snoozed_hydration_simps in \<open>auto simp: service_start_def\<close>)

lemma rolled_back_refused: "refused hm_get demo_key rolled_back"
  by (simp add: refused_def rolled_back_simps deadline_def awaiting_def) (simp add: hm_get_def)

lemma late_clocks_refuse: "timestamp_secs_to_instant sample_chrono late_clocks (sample_wake 1060) = None"
  by (simp add: timestamp_secs_to_instant_def sample_chrono_def sample_wake_def sint_1060 late_clocks_def)

lemma retry_round_runs:
  "service_events sample_proto sample_json sample_chrono sample_delay retry_round rolled_back \<noteq> None"
  by code_simp

lemma snoozed_status_simps [simp]:
  "status_state sample_proto snoozed_status = Bypassed" "st_wake snoozed_status = Some (sample_wake 1060)"
  by (simp_all add: snoozed_status_def build_user_status_def status_state_def sample_proto_ok)

theorem stale_rollback_livelock_witness:
  "\<exists>t. service_events sample_proto sample_json sample_chrono sample_delay retry_round rolled_back = Some t \<and>
     stale_job \<in># pipe_jobs t \<and> hm_get (confirmed_state (sv_coord t)) demo_key =
       hm_get (confirmed_state (sv_coord rolled_back)) demo_key"
proof -
  obtain t where t: "service_events sample_proto sample_json sample_chrono sample_delay retry_round rolled_back = Some t"
    using retry_round_runs by blast
  have j: "stale_job \<in># pipe_jobs rolled_back" "\<not> job_user_initiated stale_job" "job_key stale_job = demo_key"
    "job_status stale_job = snoozed_status" "job_id stale_job = 0"
    by (simp_all add: pipe_jobs_def rolled_back_simps stale_job_def)
  have "(spared_step sample_proto sample_json sample_chrono sample_delay demo_key
      (\<lambda>clk. timestamp_secs_to_instant sample_chrono clk (sample_wake 1060) = None))\<^sup>*\<^sup>* rolled_back t"
    by (rule spared_events [OF t]) (simp_all add: retry_round_def late_clocks_refuse)
  with stale_rollback_livelock [OF sample_service_laws reach_rolled_back j(1,2), of "sample_wake 1060" t]
    t j rolled_back_refused show ?thesis by (auto simp: rolled_back_simps)
qed

theorem hydrated_snooze_never_wakes_witness:
  "\<exists>t. service_next sample_proto sample_json sample_chrono sample_delay (Timer_Poll 99000000000)
      (runtime_start sample_delay snoozed_hydration) = Some t \<and>
    hm_get (confirmed_state (sv_coord t)) demo_key = Some (snoozed_status, 0) \<and>
    deadline hm_get (sv_snooze t) demo_key = None"
proof -
  let ?s = "runtime_start sample_delay snoozed_hydration"
  obtain t where t: "service_next sample_proto sample_json sample_chrono sample_delay (Timer_Poll 99000000000) ?s = Some t"
    by simp
  have "id_counter (sv_coord ?s) \<noteq> - 1" "\<not> sv_panicked ?s"
    by (simp_all add: runtime_start_def coordinator_new_def INITIAL_PUBLISH_ID_def)
  with t have "(spared_step sample_proto sample_json sample_chrono sample_delay demo_key (\<lambda>clk. True))\<^sup>*\<^sup>* ?s t"
    by (intro r_into_rtranclp spared_stepI [where ev = "Timer_Poll 99000000000"]) simp_all
  from hydrated_snooze_never_wakes [OF sample_service_laws snoozed_hydration_simps _ this] t show ?thesis
    by (auto simp: DEFAULT_HYDRATED_ID_def)
qed

end
