(* ===== verification/Alarm_Timers.thy ===== *)
theory Alarm_Timers
  imports Alarm_Stale_Wake
begin

text \<open>
  The timers of the running service and the confirmed snoozes. A timer is armed on the way of a
  job to the publisher, before the coordinator knows whether the job is committed; when it is
  not, the job that follows must put the timer right. Two invariants follow the job through the
  service. No timer is left behind: once an alarm has no job, a timer it has is the one of its
  confirmed wake time. And no wake is lost: an alarm confirmed as snoozed in this run, with
  nothing newer on its way, has a timer or its wake is on its way to the coordinator. The
  statuses restored at startup are the exception that \<open>Alarm_Stale_Wake\<close> shows.

  What a timer is set to depends on the clocks at the moment its command was handled. The
  theory records them: the timed service is the service together with the log of the commands
  the snooze scheduler has handled, each with the clocks it read. A timer is then described by
  the last command the log has for its alarm.
\<close>

section \<open>The timed service\<close>

record ('q, 'h) timed =
  tm_service :: "('q, 'h) service"
  tm_log :: "(clocks \<times> snooze_input) list"

text \<open>The command a turn of the scheduler handles, with the clocks the turn reads.\<close>

fun handled_command :: "service_event \<Rightarrow> ('q, 'h) service \<Rightarrow> (clocks \<times> snooze_input) list" where
  "handled_command (Snooze_Turn clk) s = (case sv_snooze_q s of [] \<Rightarrow> [] | i # q \<Rightarrow> [(clk, i)])"
| "handled_command _ s = []"

definition timed_next ::
  "proto \<Rightarrow> serializer \<Rightarrow> chrono_ops \<Rightarrow> ('q, 'h) delay_ops \<Rightarrow> service_event \<Rightarrow> ('q, 'h) timed \<Rightarrow>
   ('q, 'h) timed option" where
  "timed_next pb js ch ops ev tm = map_option (\<lambda>t. \<lparr>tm_service = t,
     tm_log = tm_log tm @ handled_command ev (tm_service tm)\<rparr>) (service_next pb js ch ops ev (tm_service tm))"

inductive timed_step ::
  "proto \<Rightarrow> serializer \<Rightarrow> chrono_ops \<Rightarrow> ('q, 'h) delay_ops \<Rightarrow> ('q, 'h) timed \<Rightarrow> ('q, 'h) timed \<Rightarrow> bool"
  for pb js ch ops where
  timed_stepI: "id_counter (sv_coord (tm_service tm)) \<noteq> - 1 \<Longrightarrow> \<not> sv_panicked (tm_service tm) \<Longrightarrow>
     timed_next pb js ch ops ev tm = Some tm' \<Longrightarrow> timed_step pb js ch ops tm tm'"

inductive_cases timed_stepE: "timed_step pb js ch ops tm tm'"

definition timed_start :: "('q, 'h) delay_ops \<Rightarrow> ('q, 'h) timed \<Rightarrow> bool" where
  "timed_start ops tm \<longleftrightarrow> service_start ops (tm_service tm) \<and> tm_log tm = []"

lemma timed_next_Some:
  "timed_next pb js ch ops ev tm = Some tm' \<longleftrightarrow>
     service_next pb js ch ops ev (tm_service tm) = Some (tm_service tm') \<and>
     tm_log tm' = tm_log tm @ handled_command ev (tm_service tm)"
  by (cases tm') (auto simp: timed_next_def)

text \<open>The log changes nothing: both machines reach the same states of the service.\<close>

interpretation timed: stuttering_simulation "timed_start ops" "timed_step pb js ch ops"
    "service_start ops" "service_step pb js ch ops" "\<lambda>tm s. s = tm_service tm"
  for pb js ch ops
  by unfold_locales (auto simp: timed_start_def timed_next_Some elim!: timed_stepE intro!: service_stepI)

lemma reach_timed_service:
  "reach (timed_start ops) (timed_step pb js ch ops) tm \<Longrightarrow>
     reach (service_start ops) (service_step pb js ch ops) (tm_service tm)"
  using timed.reach_matched by blast

interpretation untimed: stuttering_simulation "service_start ops" "service_step pb js ch ops"
    "timed_start ops" "timed_step pb js ch ops" "\<lambda>s tm. s = tm_service tm"
  for pb js ch and ops :: "('q, 'h) delay_ops"
proof
  fix s :: "('q, 'h) service" assume "service_start ops s"
  then show "\<exists>tm. timed_start ops tm \<and> s = tm_service tm"
    by (intro exI [of _ "\<lparr>tm_service = s, tm_log = []\<rparr>"]) (simp add: timed_start_def)
next
  fix tm :: "('q, 'h) timed" and s t assume s: "s = tm_service tm" and "service_step pb js ch ops s t"
  then obtain ev where ev: "id_counter (sv_coord s) \<noteq> - 1" "\<not> sv_panicked s" "service_next pb js ch ops ev s = Some t"
    by (auto elim: service_stepE)
  let ?tm = "\<lparr>tm_service = t, tm_log = tm_log tm @ handled_command ev s\<rparr>"
  from ev have "timed_step pb js ch ops tm ?tm" unfolding s
    by (intro timed_stepI) (auto simp: timed_next_Some)
  then show "t = tm_service tm \<or> (\<exists>tm'. timed_step pb js ch ops tm tm' \<and> t = tm_service tm')" by force
qed

lemma service_is_timed:
  "reach (service_start ops) (service_step pb js ch ops) s \<Longrightarrow>
     \<exists>tm. reach (timed_start ops) (timed_step pb js ch ops) tm \<and> s = tm_service tm"
  by (rule untimed.reach_matched)

text \<open>The last command for an alarm, and what it says of the alarm's timer.\<close>

definition last_command :: "(clocks \<times> snooze_input) list \<Rightarrow> alarm_key \<Rightarrow> (clocks \<times> snooze_input) option" where
  "last_command log k = find (\<lambda>(clk, i). si_key i = k) (rev log)"

lemma last_command_Nil [simp]: "last_command [] k = None"
  by (simp add: last_command_def)

lemma last_command_append [simp]:
  "last_command (log @ [(clk, i)]) k = (if si_key i = k then Some (clk, i) else last_command log k)"
  by (simp add: last_command_def)

definition armed_by ::
  "chrono_ops \<Rightarrow> (clocks \<times> snooze_input) list \<Rightarrow> alarm_key \<Rightarrow> timestamp option \<Rightarrow> instant \<Rightarrow> bool" where
  "armed_by ch log k wake t \<longleftrightarrow> (\<exists>clk w. wake = Some w \<and>
     last_command log k = Some (clk, \<lparr>si_key = k, si_wake = Some w\<rparr>) \<and>
     timestamp_secs_to_instant ch clk w = Some t)"

section \<open>What the invariants speak of\<close>

text \<open>The snooze scheduler has accepted the command of the job.\<close>

definition past_scheduler :: "job \<Rightarrow> ('q, 'h) service \<Rightarrow> bool" where
  "past_scheduler j s \<longleftrightarrow> Accepted (job_key j) \<in> set (sv_snooze_out s) \<or>
     job_key j \<in># awaiting 2 (sv_workflow s) \<or> Committed j \<in> set (sv_outcome_q s)"

definition wake_due :: "('q \<Rightarrow> 'h \<Rightarrow> (alarm_key \<times> instant) option) \<Rightarrow> alarm_key \<Rightarrow> ('q, 'h) service \<Rightarrow> bool" where
  "wake_due view k s \<longleftrightarrow> deadline view (sv_snooze s) k \<noteq> None \<or>
     Expired k \<in> set (sv_snooze_out s) \<or> Wake k \<in> set (sv_outcome_q s)"

definition snoozed :: "proto \<Rightarrow> status \<Rightarrow> bool" where
  "snoozed pb st \<longleftrightarrow> status_state pb st = Bypassed \<and> st_wake st \<noteq> None"

definition commands_ok :: "('q, 'h) service \<Rightarrow> bool" where
  "commands_ok s \<longleftrightarrow> (\<forall>i\<in>set (sv_snooze_q s). \<exists>j\<in>#pipe_jobs s. i = command_of j)"

definition timers_ok ::
  "chrono_ops \<Rightarrow> ('q \<Rightarrow> 'h \<Rightarrow> (alarm_key \<times> instant) option) \<Rightarrow> (clocks \<times> snooze_input) list \<Rightarrow>
   ('q, 'h) service \<Rightarrow> alarm_key \<Rightarrow> bool" where
  "timers_ok ch view log s k \<longleftrightarrow> (\<forall>u. deadline view (sv_snooze s) k = Some u \<longrightarrow>
     (\<forall>j\<in>#pipe_jobs s. job_key j = k \<and> past_scheduler j s \<longrightarrow> armed_by ch log k (st_wake (job_status j)) u) \<and>
     (hm_get (speculative_state (sv_coord s)) k = None \<longrightarrow>
        (\<exists>st n. hm_get (confirmed_state (sv_coord s)) k = Some (st, n) \<and> armed_by ch log k (st_wake st) u)))"

definition snoozes_ok ::
  "proto \<Rightarrow> ('q \<Rightarrow> 'h \<Rightarrow> (alarm_key \<times> instant) option) \<Rightarrow> ('q, 'h) service \<Rightarrow> alarm_key \<Rightarrow> bool" where
  "snoozes_ok pb view s k \<longleftrightarrow>
     (\<forall>j\<in>#pipe_jobs s. job_key j = k \<and> past_scheduler j s \<and> snoozed pb (job_status j) \<and>
        (\<exists>st. hm_get (speculative_state (sv_coord s)) k = Some (st, job_id j)) \<longrightarrow> wake_due view k s) \<and>
     (\<forall>st n. hm_get (speculative_state (sv_coord s)) k = None \<and>
        hm_get (confirmed_state (sv_coord s)) k = Some (st, n) \<and> n \<noteq> DEFAULT_HYDRATED_ID \<and> snoozed pb st \<longrightarrow>
        wake_due view k s)"

lemma past_part:
  "timer_part view s = (qs, out, dl, aw, oc) \<Longrightarrow>
   past_scheduler j s \<longleftrightarrow> Accepted (job_key j) \<in> set out \<or> job_key j \<in># aw \<or> Committed j \<in> set oc"
  by (auto simp: timer_part_def past_scheduler_def)

lemma due_part:
  "timer_part view s = (qs, out, dl, aw, oc) \<Longrightarrow>
   wake_due view k s \<longleftrightarrow> dl k \<noteq> None \<or> Expired k \<in> set out \<or> Wake k \<in> set oc"
  by (auto simp: timer_part_def wake_due_def)

lemma deadline_part: "timer_part view s = (qs, out, dl, aw, oc) \<Longrightarrow> deadline view (sv_snooze s) = dl"
  by (simp add: timer_part_def)

lemma queue_part: "timer_part view s = (qs, out, dl, aw, oc) \<Longrightarrow> sv_snooze_q s = qs"
  by (simp add: timer_part_def)

lemmas part_simps = past_part due_part deadline_part queue_part

section \<open>Turns of the tasks\<close>

text \<open>
  For one alarm a turn of a task other than the coordinator either keeps the timer and the
  wakes and takes no job of the alarm past the scheduler, or handles the alarm's command.
\<close>

definition key_kept :: "('q \<Rightarrow> 'h \<Rightarrow> (alarm_key \<times> instant) option) \<Rightarrow> alarm_key \<Rightarrow>
   ('q, 'h) service \<Rightarrow> ('q, 'h) service \<Rightarrow> bool" where
  "key_kept view k s t \<longleftrightarrow>
     (\<forall>j. job_key j = k \<and> past_scheduler j t \<longrightarrow> past_scheduler j s) \<and>
     (\<forall>u. deadline view (sv_snooze t) k = Some u \<longrightarrow> deadline view (sv_snooze s) k = Some u) \<and>
     (wake_due view k s \<longrightarrow> wake_due view k t)"

lemma command_kept:
  assumes "si_key i = k \<longrightarrow> (\<exists>w. si_wake i = Some w \<and> timestamp_secs_to_instant ch clk w = None)"
    and s: "timer_part view s = (qs, out, dl, aw, oc)"
    and t: "timer_part view t = (qs', out @ [answer_to ch clk i], deadline_after ch clk i dl, aw, oc)"
  shows "key_kept view k s t"
proof -
  have "deadline_after ch clk i dl k = dl k" "answer_to ch clk i \<noteq> Accepted k"
    using assms(1) by (auto simp: answer_to_def split: option.split)
  then show ?thesis
    by (auto simp: key_kept_def part_simps [OF s] part_simps [OF t] simp del: deadline_after.simps)
qed

lemma key_turn:
  assumes sl: "service_laws js ops view" and m: "cm_inv pb m" "pipe_ok view s" "simulates s m"
    and ev: "\<not> coordinator_turn ev" and nxt: "service_next pb js ch ops ev s = Some t"
  obtains (kept) "key_kept view k s t" "last_command (log @ handled_command ev s) k = last_command log k"
    | (refused) i where "key_kept view k s t" "i \<in> set (sv_snooze_q s)" "si_key i = k"
    | (cleared) i where "i \<in> set (sv_snooze_q s)" "si_key i = k" "si_wake i = None"
        "deadline view (sv_snooze t) k = None"
    | (armed) i u where "i \<in> set (sv_snooze_q s)" "si_key i = k"
        "armed_by ch (log @ handled_command ev s) k (si_wake i) u" "deadline view (sv_snooze t) k = Some u"
proof -
  obtain qs out dl aw oc where part: "timer_part view s = (qs, out, dl, aw, oc)" by (metis prod_cases5)
  note S = part_simps [OF part]
  show thesis
  proof (cases "\<exists>clk. ev = Snooze_Turn clk")
    case True
    then obtain clk where ev: "ev = Snooze_Turn clk" ..
    from sl have laws: "delay_laws ops view" by (simp add: service_laws_def)
    obtain i qs' where q: "qs = i # qs'"
      and t: "timer_part view t = (qs', out @ [answer_to ch clk i], deadline_after ch clk i dl, aw, oc)"
      using command_turn_part [OF laws m(2) nxt [unfolded ev] part] .
    note T = part_simps [OF t]
    have log: "log @ handled_command ev s = log @ [(clk, i)]" by (simp add: ev S q)
    show thesis
    proof (cases "si_key i = k")
      case False
      then show thesis using command_kept [OF _ part t, of k] kept by (simp add: log)
    next
      case key: True
      show thesis
      proof (cases "si_wake i")
        case None
        then show thesis using cleared [of i] key q by (simp add: S T)
      next
        case (Some w)
        then have i: "i = \<lparr>si_key = k, si_wake = Some w\<rparr>" using key by (cases i) simp
        show thesis
        proof (cases "timestamp_secs_to_instant ch clk w")
          case None
          with Some show thesis using command_kept [OF _ part t, of k] refused [of i] key q by (simp add: S)
        next
          case inst: (Some u)
          have "armed_by ch (log @ handled_command ev s) k (si_wake i) u"
            unfolding log using inst i by (simp add: armed_by_def)
          then show thesis using armed [of i u] Some inst key q by (simp add: S T)
        qed
      qed
    qed
  next
    case False
    then have log: "last_command (log @ handled_command ev s) k = last_command log k" by (cases ev) auto
    note kept = kept [OF _ log]
    from sl m nxt ev part show thesis
    proof (cases rule: task_turn_cases)
      case (job j)
      then show ?thesis by (intro kept) (auto simp: key_kept_def S part_simps [OF job(2)])
    next
      case (expired k' out')
      then show ?thesis by (intro kept) (auto simp: key_kept_def S part_simps [OF expired(2)])
    next
      case (invalid k' j out')
      then show ?thesis by (intro kept) (auto simp: key_kept_def S part_simps [OF invalid(2)])
    next
      case (accepted k' out')
      then show ?thesis by (intro kept) (auto simp: key_kept_def S part_simps [OF accepted(2)])
    next
      case (results aw' rs)
      have "x \<in># aw" if "x \<in># aw'" for x using mset_subset_eqD [OF results(2) that] .
      with results(4) show ?thesis
        by (intro kept) (auto simp: key_kept_def S part_simps [OF results(1)])
    next
      case (command clk i qs')
      with False show ?thesis by blast
    next
      case (fired k' u)
      then show ?thesis by (intro kept) (auto simp: key_kept_def S part_simps [OF fired(2)])
    next
      case other
      then show ?thesis by (intro kept) (auto simp: key_kept_def S part_simps [OF other])
    qed
  qed
qed

text \<open>While the command of a job is queued, the scheduler has not answered it.\<close>

lemma queued_not_past:
  assumes m: "cm_inv pb m" "pipe_ok view s" "simulates s m"
    and i: "i \<in> set (sv_snooze_q s)" and j: "job_key j = si_key i"
  shows "\<not> past_scheduler j s"
proof
  assume past: "past_scheduler j s"
  note A = pipe_okD(4) [OF m(2)]
  have keys: "distinct (map job_key (cm_jobs m))" using m(1) by (simp add: cm_inv_def inv_flight_def)
  have "si_key i \<in># awaiting 1 (sv_workflow s)" unfolding A using i by simp
  then obtain j' where get: "hm_get (sv_workflow s) (si_key i) = Some \<lparr>tj_job = j', tj_step = 1\<rparr>"
    and key: "job_key j' = si_key i" by (rule awaiting_get [OF pipe_okD(1) [OF m(2)]])
  from past [unfolded past_scheduler_def] show False
  proof (elim disjE)
    assume "Accepted (job_key j) \<in> set (sv_snooze_out s)"
    then have "si_key i \<in># keys_of snooze_answered (sv_snooze_out s)" using j by (force simp: keys_of_def)
    moreover have "si_key i \<in># mset (map si_key (sv_snooze_q s))" using i by simp
    ultimately have "2 \<le> count (awaiting 1 (sv_workflow s)) (si_key i)"
      unfolding A count_union by (simp only: count_greater_zero_iff [symmetric])
    moreover have "count (awaiting 1 (sv_workflow s)) (si_key i) \<le> 1"
      by (rule awaiting_once [OF pipe_okD(1) [OF m(2)]])
    ultimately show False by simp
  next
    assume "job_key j \<in># awaiting 2 (sv_workflow s)"
    then obtain j2 where "hm_get (sv_workflow s) (job_key j) = Some \<lparr>tj_job = j2, tj_step = 2\<rparr>"
      by (rule awaiting_get [OF pipe_okD(1) [OF m(2)]])
    with get j show False by simp
  next
    assume "Committed j \<in> set (sv_outcome_q s)"
    then have "j \<in> set (outcome_jobs (sv_outcome_q s))" by (force simp: outcome_jobs_def)
    then obtain M where M: "mset (outcome_jobs (sv_outcome_q s)) = add_mset j M"
      by (metis multi_member_split set_mset_mset)
    from get have "j' \<in># tracked_jobs (sv_workflow s)" using get_tracked by force
    then obtain N where N: "tracked_jobs (sv_workflow s) = add_mset j' N" by (metis multi_member_split)
    have "mset (cm_jobs m) = add_mset j (add_mset j' (mset (sv_job_q s) + N + M))"
      using m(3) by (simp add: simulates_def pipe_jobs_def M N)
    from distinct_keys_apart [OF keys this] j key show False by simp
  qed
qed

lemma commands_task_turn:
  assumes sl: "service_laws js ops view" and m: "cm_inv pb m" "pipe_ok view s" "simulates s m"
    and ev: "\<not> coordinator_turn ev" and nxt: "service_next pb js ch ops ev s = Some t"
    and ok: "commands_ok s"
  shows "commands_ok t"
proof -
  have same: "pipe_jobs t = pipe_jobs s"
    using task_turn_ok [OF sl m ev nxt] m(3) by (simp add: simulates_def)
  obtain qs out dl aw oc where part: "timer_part view s = (qs, out, dl, aw, oc)" by (metis prod_cases5)
  from sl m nxt ev part have "\<forall>i\<in>set (sv_snooze_q t). i \<in> set (sv_snooze_q s) \<or> (\<exists>j\<in>#pipe_jobs s. i = command_of j)"
    by (cases rule: task_turn_cases) (auto simp: part_simps [OF part] dest!: queue_part)
  with ok same show ?thesis unfolding commands_ok_def by metis
qed

lemma timers_task_turn:
  assumes sl: "service_laws js ops view" and m: "cm_inv pb m" "pipe_ok view s" "simulates s m"
    and ev: "\<not> coordinator_turn ev" and nxt: "service_next pb js ch ops ev s = Some t"
    and ok: "commands_ok s"
  shows "timers_ok ch view log s k \<Longrightarrow> timers_ok ch view (log @ handled_command ev s) t k" (is "?timers \<Longrightarrow> ?timers'")
    and "snoozes_ok pb view s k \<Longrightarrow> snoozes_ok pb view t k" (is "?snoozes s \<Longrightarrow> _")
proof -
  have same: "pipe_jobs t = pipe_jobs s" "sv_coord t = sv_coord s"
    using task_turn_ok [OF sl m ev nxt] m(3) by (simp_all add: simulates_def)
  have owner: "\<exists>j\<in>#pipe_jobs s. i = command_of j \<and> job_key j = k \<and>
      hm_get (speculative_state (sv_coord s)) k \<noteq> None \<and> (\<forall>j'\<in>#pipe_jobs s. job_key j' = k \<longrightarrow> j' = j)"
    if i: "i \<in> set (sv_snooze_q s)" "si_key i = k" for i
  proof -
    from ok(1) i(1) obtain j where j: "j \<in># pipe_jobs s" "i = command_of j" by (auto simp: commands_ok_def)
    with i(2) have "job_key j = k" by (simp add: command_of_def)
    with j pipe_unique [OF m(1,3)] pipe_spec [OF m(1,3) j(1)] show ?thesis by metis
  qed
  have "(?timers \<longrightarrow> ?timers') \<and> (?snoozes s \<longrightarrow> ?snoozes t)"
    using sl m ev nxt
  proof (cases rule: key_turn [where k = k and log = log])
    case kept
    then show ?thesis by (auto simp: key_kept_def timers_ok_def snoozes_ok_def armed_by_def same)
  next
    case (refused i)
    from owner [OF refused(2,3)] have busy: "hm_get (speculative_state (sv_coord s)) k \<noteq> None" by blast
    have "\<not> past_scheduler j t" if "job_key j = k" for j
      using queued_not_past [OF m refused(2)] refused(1,3) that by (auto simp: key_kept_def)
    with busy refused(1) show ?thesis by (auto simp: key_kept_def timers_ok_def snoozes_ok_def same)
  next
    case (cleared i)
    from owner [OF cleared(1,2)] obtain j where
      j: "i = command_of j" "hm_get (speculative_state (sv_coord s)) k \<noteq> None"
      "\<forall>j'\<in>#pipe_jobs s. job_key j' = k \<longrightarrow> j' = j" by blast
    have "\<not> snoozed pb (job_status j)" using cleared(3) j(1) by (simp add: command_of_def snoozed_def)
    with cleared(4) j(2,3) show ?thesis by (auto simp: timers_ok_def snoozes_ok_def same)
  next
    case (armed i u)
    from owner [OF armed(1,2)] obtain j where
      j: "i = command_of j" "hm_get (speculative_state (sv_coord s)) k \<noteq> None"
      "\<forall>j'\<in>#pipe_jobs s. job_key j' = k \<longrightarrow> j' = j" by blast
    have "wake_due view k t" using armed(4) by (simp add: wake_due_def)
    moreover have "armed_by ch (log @ handled_command ev s) k (st_wake (job_status j)) u"
      using armed(3) j(1) by (simp add: command_of_def)
    ultimately show ?thesis using armed(4) j(2,3) by (auto simp: timers_ok_def snoozes_ok_def same)
  qed
  then show "?timers \<Longrightarrow> ?timers'" "?snoozes s \<Longrightarrow> ?snoozes t" by blast+
qed

section \<open>Turns of the coordinator\<close>

lemma coord_key:
  fixes now :: i64
  assumes inv: "cm_inv pb m" and en: "cm_enabled ev m"
  defines "m' \<equiv> cm_next pb now ev m"
  obtains (committed) j where "ev = On_Outcome (Committed j)" "job_key j = k"
      "conf m' k = Some (job_status j, job_id j)" "spec m' k = None \<Longrightarrow> \<exists>st. spec m k = Some (st, job_id j)"
    | (failed) j where "ev = On_Outcome (Failed j)" "job_key j = k" "spec m' k \<noteq> None"
        "conf m' k = conf m k"
    | (other) "\<And>j. ev = On_Outcome (Committed j) \<or> ev = On_Outcome (Failed j) \<Longrightarrow> job_key j \<noteq> k"
        "conf m' k = conf m k" "spec m' k = spec m k \<or> (\<exists>st. spec m' k = Some (st, counter m))"
proof -
  have run: "cm_running m" using inv by (simp add: cm_inv_def)
  have message: "conf m' k = conf m k \<and> (spec m' k = spec m k \<or> (\<exists>st. spec m' k = Some (st, counter m)))"
    if "ev = On_User msg \<or> ev = On_Automated msg" for msg
    using that run
    by (cases msg) (auto simp: m'_def cm_next_automated cm_next_user cm_next_snapshot automated_result_def
        user_result_def answer_with_def Let_def)
  show thesis
  proof (cases ev)
    case (On_Outcome r)
    show ?thesis
    proof (cases r)
      case (Committed j)
      with On_Outcome en have ev: "ev = On_Outcome (Committed j)" "j \<in> set (cm_jobs m)" by auto
      obtain st n where sp: "spec m (job_key j) = Some (st, n)" using flight_spec [OF inv ev(2)] .
      show ?thesis
      proof (cases "job_key j = k")
        case True
        with sp show ?thesis
          by (intro committed [OF ev(1) True]) (auto simp: m'_def ev(1) cm_next_committed [OF run] split: if_splits)
      next
        case False
        with other_outcome [OF inv ev(2) False, of ev now] ev(1) show ?thesis
          by (intro other) (auto simp: m'_def)
      qed
    next
      case (Failed j)
      with On_Outcome en have ev: "ev = On_Outcome (Failed j)" "j \<in> set (cm_jobs m)" by auto
      obtain st n where sp: "spec m (job_key j) = Some (st, n)" using flight_spec [OF inv ev(2)] .
      show ?thesis
      proof (cases "job_key j = k")
        case True
        with sp show ?thesis
          by (intro failed [OF ev(1) True]) (auto simp: m'_def ev(1) cm_next_failed [OF run sp])
      next
        case False
        with other_outcome [OF inv ev(2) False, of ev now] ev(1) show ?thesis
          by (intro other) (auto simp: m'_def)
      qed
    next
      case (Wake k')
      with On_Outcome show ?thesis
        by (intro other) (auto simp: m'_def cm_next_automated [OF run] automated_result_def Let_def)
    qed
  next
    case (On_User msg)
    with message [of msg] show ?thesis by (intro other) auto
  next
    case (On_Automated msg)
    with message [of msg] show ?thesis by (intro other) auto
  next
    case Blocked
    with cm_next_snapshot [OF run, of pb now] show ?thesis by (intro other) (auto simp: m'_def)
  qed (use en in auto)
qed

lemma coord_keeps_wake:
  assumes "service_next pb js ch ops (Coordinator_Turn now ev) s = Some t"
  shows "deadline view (sv_snooze t) = deadline view (sv_snooze s)"
    and "wake_due view k s \<Longrightarrow> ev = On_Outcome (Wake k) \<or> wake_due view k t"
    and "ev = On_Outcome r \<Longrightarrow> r \<in> set (sv_outcome_q s)"
  using coord_keeps [OF assms] by (auto simp: wake_due_def)

text \<open>A job that is past the scheduler after a turn was so before it, and its outcome was not taken.\<close>

lemma past_coord_turn:
  assumes m: "cm_inv pb m" "pipe_ok view s" "simulates s m" and m': "cm_inv pb m'" "simulates t m'" "pipe_ok view t"
    and nxt: "service_next pb js ch ops (Coordinator_Turn now ev) s = Some t"
    and j: "j \<in># pipe_jobs t" "past_scheduler j t"
  shows "j \<in># pipe_jobs s \<and> past_scheduler j s \<and>
    (\<forall>r. ev = On_Outcome (Committed r) \<or> ev = On_Outcome (Failed r) \<longrightarrow> job_key r \<noteq> job_key j)"
proof -
  let ?late = "tracked_jobs (sv_workflow t) + mset (outcome_jobs (sv_outcome_q t))"
  note K = coord_keeps [OF nxt]
  have same: "sv_workflow t = sv_workflow s" "set (sv_outcome_q t) \<subseteq> set (sv_outcome_q s)" using K(4,5) by auto
  have late: "j \<in># ?late"
  proof -
    have tracked: "j \<in># ?late" if n: "job_key j \<in># awaiting n (sv_workflow t)" for n
    proof -
      obtain j' where j': "j' \<in># tracked_jobs (sv_workflow t)" "job_key j' = job_key j"
        by (rule waiting_job [OF m'(3) n])
      then have "j = j'" by (intro pipe_unique [OF m'(1,2) j(1)]) (simp_all add: pipe_jobs_def)
      with j'(1) show ?thesis by simp
    qed
    from j(2) consider "Accepted (job_key j) \<in> set (sv_snooze_out t)" | "job_key j \<in># awaiting 2 (sv_workflow t)"
      | "Committed j \<in> set (sv_outcome_q t)" by (auto simp: past_scheduler_def)
    then show ?thesis
    proof cases
      case 1
      then have "job_key j \<in># keys_of snooze_answered (sv_snooze_out t)" by (force simp: keys_of_def)
      then have "job_key j \<in># awaiting 1 (sv_workflow t)" unfolding pipe_okD(4) [OF m'(3)] by simp
      then show ?thesis by (rule tracked)
    next
      case 2
      then show ?thesis by (rule tracked)
    next
      case 3
      then have "j \<in> set (outcome_jobs (sv_outcome_q t))" by (force simp: outcome_jobs_def)
      then show ?thesis by simp
    qed
  qed
  have "job_key r \<noteq> job_key j" if r: "ev = On_Outcome (Committed r) \<or> ev = On_Outcome (Failed r)" for r
  proof -
    from multi_member_split [OF late] obtain M where M: "?late = add_mset j M" by blast
    have "outcome_jobs (sv_outcome_q s) = r # outcome_jobs (sv_outcome_q t)" using r K(5) by auto
    then have "mset (cm_jobs m) = add_mset r (mset (sv_job_q s) + ?late)"
      using m(3) by (simp add: simulates_def pipe_jobs_def same(1))
    then have "mset (cm_jobs m) = add_mset r (add_mset j (mset (sv_job_q s) + M))" by (simp add: M)
    moreover have "distinct (map job_key (cm_jobs m))" using m(1) by (simp add: cm_inv_def inv_flight_def)
    ultimately show ?thesis by (rule distinct_keys_apart [rotated])
  qed
  moreover have "j \<in># pipe_jobs s"
    using late same by (auto simp: pipe_jobs_def outcome_jobs_def)
  moreover have "past_scheduler j s" using j(2) same K(3) by (auto simp: past_scheduler_def)
  ultimately show ?thesis by blast
qed

lemma wake_taken:
  fixes now :: i64
  assumes "cm_inv pb m" "proto_ok pb" "normal_device (key_device k)"
    and "get_latest_status (cm_coord m) k = Some st" "snoozed pb st"
  shows "\<exists>ws. spec (cm_next pb now (On_Outcome (Wake k)) m) k = Some (ws, counter m)"
  using assms bypassed_wake [of m pb k st now] by (auto simp: snoozed_def cm_inv_def)

lemma timers_coord_turn:
  assumes m: "cm_inv pb m" "pipe_ok view s" "simulates s m" and c: "id_counter (sv_coord s) \<noteq> - 1"
    and nxt: "service_next pb js ch ops (Coordinator_Turn now ev) s = Some t"
    and ok: "timers_ok ch view log s k"
  shows "timers_ok ch view log t k"
proof -
  define m' where "m' = cm_next pb now ev m"
  note K = coord_keeps_wake [OF nxt]
  have T: "pipe_ok view t" "simulates t m'" "cm_inv pb m'"
    using coord_turn_ok [OF m(2,3) c nxt] coord.inv_step m(1) unfolding m'_def by blast+
  note past = past_coord_turn [OF m T(3,2,1) nxt]
  have front: "cm_coord m = sv_coord s" "cm_coord m' = sv_coord t" using m(3) T(2) by (simp_all add: simulates_def)
  have "armed_by ch log k (st_wake (job_status j)) u"
    if "deadline view (sv_snooze t) k = Some u" "j \<in># pipe_jobs t" "job_key j = k" "past_scheduler j t" for j u
    using that past ok K(1) by (auto simp: timers_ok_def)
  moreover have "\<exists>st n. conf m' k = Some (st, n) \<and> armed_by ch log k (st_wake st) u"
    if u: "deadline view (sv_snooze t) k = Some u" and free: "spec m' k = None" for u
    using m(1) coord_enabled [OF m(3) nxt]
  proof (cases rule: coord_key [where k = k and now = now])
    case (committed j)
    then have "j \<in># pipe_jobs s" "past_scheduler j s"
      using K(3) by (force simp: pipe_jobs_def outcome_jobs_def past_scheduler_def)+
    with committed u ok K(1) show ?thesis by (auto simp: timers_ok_def m'_def)
  next
    case failed
    with free show ?thesis by (simp add: m'_def)
  next
    case other
    then have "spec m k = None" "conf m k = conf m' k" using free by (auto simp: m'_def)
    with u ok K(1) front show ?thesis by (auto simp: timers_ok_def)
  qed
  ultimately show ?thesis by (simp add: timers_ok_def front)
qed

lemma snoozes_coord_turn:
  assumes pb: "proto_ok pb" "normal_device (key_device k)"
    and m: "cm_inv pb m" "pipe_ok view s" "simulates s m" and c: "id_counter (sv_coord s) \<noteq> - 1"
    and nxt: "service_next pb js ch ops (Coordinator_Turn now ev) s = Some t"
    and ok: "snoozes_ok pb view s k"
  shows "snoozes_ok pb view t k"
proof -
  define m' where "m' = cm_next pb now ev m"
  note K = coord_keeps_wake [OF nxt]
  have T: "pipe_ok view t" "simulates t m'" "cm_inv pb m'"
    using coord_turn_ok [OF m(2,3) c nxt] coord.inv_step m(1) unfolding m'_def by blast+
  note past = past_coord_turn [OF m T(3,2,1) nxt]
  have front: "cm_coord m = sv_coord s" "cm_coord m' = sv_coord t" using m(3) T(2) by (simp_all add: simulates_def)
  have due: "wake_due view k t" if "wake_due view k s"
    "get_latest_status (cm_coord m) k = Some st" "snoozed pb st" "\<nexists>ws. spec m' k = Some (ws, counter m)" for st
    using K(2) [OF that(1)] wake_taken [OF m(1) pb that(2,3), of now] that(4) by (auto simp: m'_def)
  have "wake_due view k t"
    if j: "j \<in># pipe_jobs t" "job_key j = k" "past_scheduler j t" "snoozed pb (job_status j)"
      and spec: "spec m' k = Some (st, job_id j)" for j st
  proof -
    note P = past [OF j(1,3)]
    have mem: "j \<in> set (cm_jobs m)" using P m(3) by (simp add: simulates_def flip: set_mset_mset)
    have "entry m k (job_id j) (job_status j)" using mem j(2) by (auto simp: entry_def)
    then have fresh: "job_id j < counter m" using m(1) by (auto simp: cm_inv_def inv_ids_def)
    from m(1) coord_enabled [OF m(3) nxt] have sp: "spec m k = Some (st, job_id j)"
    proof (cases rule: coord_key [where k = k and now = now])
      case other
      with spec fresh show ?thesis by (auto simp: m'_def)
    qed (use P j(2) in auto)
    then have "st = job_status j"
      using flight_spec [OF m(1) mem] j(2) by force
    with sp have "get_latest_status (cm_coord m) k = Some (job_status j)" by (simp add: get_latest_status_def)
    moreover have "wake_due view k s" using ok P j(2,4) sp front by (auto simp: snoozes_ok_def)
    ultimately show ?thesis using due j(4) spec fresh by force
  qed
  moreover have "wake_due view k t"
    if free: "spec m' k = None" and conf: "conf m' k = Some (st, n)" "n \<noteq> DEFAULT_HYDRATED_ID" "snoozed pb st" for st n
    using m(1) coord_enabled [OF m(3) nxt]
  proof (cases rule: coord_key [where k = k and now = now])
    case (committed j)
    then have j: "j \<in># pipe_jobs s" "past_scheduler j s" "st = job_status j"
      using K(3) conf by (force simp: pipe_jobs_def outcome_jobs_def past_scheduler_def m'_def)+
    obtain st' where "spec m k = Some (st', job_id j)" using committed(4) free by (auto simp: m'_def)
    with ok committed(2) j conf(3) front have "wake_due view k s" by (auto simp: snoozes_ok_def)
    with K(2) committed(1) show ?thesis by auto
  next
    case failed
    with free show ?thesis by (simp add: m'_def)
  next
    case other
    then have prev: "spec m k = None" "conf m k = Some (st, n)" using free conf by (auto simp: m'_def)
    then have "get_latest_status (cm_coord m) k = Some st" by (simp add: get_latest_status_def)
    moreover have "wake_due view k s" using ok prev conf front by (auto simp: snoozes_ok_def)
    ultimately show ?thesis using due conf(3) free by force
  qed
  ultimately show ?thesis by (auto simp: snoozes_ok_def front)
qed

text \<open>The commands stay those of jobs in the service: the job of a command is tracked.\<close>

lemma commands_coord_turn:
  assumes m: "cm_inv pb m" "pipe_ok view s" "simulates s m"
    and nxt: "service_next pb js ch ops (Coordinator_Turn now ev) s = Some t"
    and ok: "commands_ok s"
  shows "commands_ok t"
  unfolding commands_ok_def
proof
  fix i assume "i \<in> set (sv_snooze_q t)"
  then have i: "i \<in> set (sv_snooze_q s)" by (simp add: coord_keeps(2) [OF nxt])
  then obtain j where j: "j \<in># pipe_jobs s" "i = command_of j" using ok by (auto simp: commands_ok_def)
  have "si_key i \<in># awaiting 1 (sv_workflow s)" unfolding pipe_okD(4) [OF m(2)] using i by simp
  then obtain j' where j': "j' \<in># tracked_jobs (sv_workflow s)" "job_key j' = si_key i"
    by (rule waiting_job [OF m(2)])
  then have "j' = j"
    using j by (intro pipe_unique [OF m(1,3)]) (simp_all add: pipe_jobs_def command_of_def)
  then have "j \<in># pipe_jobs t" using j'(1) by (simp add: pipe_jobs_def coord_keeps(4) [OF nxt])
  with j(2) show "\<exists>j\<in>#pipe_jobs t. i = command_of j" by blast
qed

section \<open>The invariant\<close>

lemma jobless_spec:
  assumes "cm_inv pb m" "simulates s m" "\<forall>j\<in>#pipe_jobs s. job_key j \<noteq> k"
  shows "hm_get (speculative_state (sv_coord s)) k = None"
proof -
  have "set_mset (pipe_jobs s) = set (cm_jobs m)" using assms(2) by (simp add: simulates_def flip: set_mset_mset)
  with assms show ?thesis by (auto simp: cm_inv_def inv_flight_def simulates_def)
qed

definition wakes_ok ::
  "proto \<Rightarrow> chrono_ops \<Rightarrow> ('q \<Rightarrow> 'h \<Rightarrow> (alarm_key \<times> instant) option) \<Rightarrow> ('q, 'h) timed \<Rightarrow> bool" where
  "wakes_ok pb ch view tm \<longleftrightarrow> commands_ok (tm_service tm) \<and>
     (\<forall>k. timers_ok ch view (tm_log tm) (tm_service tm) k \<and>
       (proto_ok pb \<and> normal_device (key_device k) \<longrightarrow> snoozes_ok pb view (tm_service tm) k))"

lemma wakes_start:
  assumes "service_laws js ops view" "timed_start ops tm"
  shows "wakes_ok pb ch view tm"
proof -
  from assms(2) obtain h where h: "hm_wf h" "tm_service tm = runtime_start ops h"
    by (auto simp: timed_start_def service_start_def)
  have "deadline view (scheduler_new ops) = Map.empty"
    using assms(1) by (simp add: service_laws_def scheduler_new_def deadline_def fun_eq_iff)
  with h show ?thesis
    by (auto simp: wakes_ok_def commands_ok_def timers_ok_def snoozes_ok_def runtime_start_def pipe_jobs_def
        tracked_jobs_def coordinator_new_confirmed)
qed

lemma wakes_turn:
  assumes sl: "service_laws js ops view" and m: "cm_inv pb m" "pipe_ok view s" "simulates s m"
    and c: "id_counter (sv_coord s) \<noteq> - 1" and nxt: "service_next pb js ch ops ev s = Some t"
    and tm: "tm_service tm = s" "tm_service tm' = t" "tm_log tm' = tm_log tm @ handled_command ev s"
    and ok: "wakes_ok pb ch view tm"
  shows "wakes_ok pb ch view tm'"
proof (cases "coordinator_turn ev")
  case True
  then obtain now cev where ev: "ev = Coordinator_Turn now cev" by (cases ev) auto
  note nxt = nxt [unfolded ev]
  from ok show ?thesis
    using commands_coord_turn [OF m nxt] timers_coord_turn [OF m c nxt] snoozes_coord_turn [OF _ _ m c nxt] ev
    unfolding wakes_ok_def tm by simp
next
  case False
  from ok have cmd: "commands_ok s" by (simp add: wakes_ok_def tm)
  from ok show ?thesis
    using commands_task_turn [OF sl m False nxt cmd] timers_task_turn [OF sl m False nxt cmd]
    unfolding wakes_ok_def tm by blast
qed

lemma reach_wakes:
  assumes "service_laws js ops view" and "reach (timed_start ops) (timed_step pb js ch ops) tm"
  shows "wakes_ok pb ch view tm"
  using assms(2)
proof (induction rule: reach.induct)
  case (reach_init tm)
  then show ?case by (rule wakes_start [OF assms(1)])
next
  case (reach_step tm tm')
  from reach_service_rel [OF assms(1) reach_timed_service [OF reach_step(1)]] obtain m where
    m: "cm_inv pb m" "pipe_ok view (tm_service tm)" "simulates (tm_service tm) m" by blast
  from reach_step(2) obtain ev where ev: "id_counter (sv_coord (tm_service tm)) \<noteq> - 1"
    "service_next pb js ch ops ev (tm_service tm) = Some (tm_service tm')"
    "tm_log tm' = tm_log tm @ handled_command ev (tm_service tm)"
    by (auto simp: timed_next_Some elim!: timed_stepE)
  from wakes_turn [OF assms(1) m ev(1,2) refl refl ev(3) reach_step.IH] show ?case .
qed

text \<open>
  C22: no timer outlives its reason. In every state the running service can reach, an alarm that
  has a timer but no job anywhere in the service has a confirmed status with a wake time, the
  last command the snooze scheduler handled for the alarm was to set that wake time, and the
  timer is set to the instant that wake time gave by the clocks of that turn (as many
  nanoseconds ahead as it was ahead of the clock, one year at most, when the date library keeps
  its laws). So a timer armed for a command that was then superseded, rejected by
  the publisher or rolled back never stays behind: the job that follows it has moved or
  cancelled it.
\<close>

theorem no_stale_timer:
  assumes "service_laws js ops view" and "reach (timed_start ops) (timed_step pb js ch ops) tm"
    and "deadline view (sv_snooze (tm_service tm)) k = Some u" and "\<forall>j\<in>#pipe_jobs (tm_service tm). job_key j \<noteq> k"
  shows "\<exists>st n w clk. hm_get (confirmed_state (sv_coord (tm_service tm))) k = Some (st, n) \<and> st_wake st = Some w \<and>
    last_command (tm_log tm) k = Some (clk, \<lparr>si_key = k, si_wake = Some w\<rparr>) \<and>
    timestamp_secs_to_instant ch clk w = Some u \<and> (chrono_laws ch \<longrightarrow> due_at ch clk w = Some u)"
proof -
  from reach_service_rel [OF assms(1) reach_timed_service [OF assms(2)]] obtain m where
    m: "cm_inv pb m" "simulates (tm_service tm) m" by blast
  have "timers_ok ch view (tm_log tm) (tm_service tm) k" using reach_wakes [OF assms(1,2)] by (simp add: wakes_ok_def)
  with assms(3) jobless_spec [OF m assms(4)] obtain st n where
    st: "hm_get (confirmed_state (sv_coord (tm_service tm))) k = Some (st, n)"
    and "armed_by ch (tm_log tm) k (st_wake st) u" by (auto simp: timers_ok_def)
  then obtain clk w where armed: "st_wake st = Some w"
    "last_command (tm_log tm) k = Some (clk, \<lparr>si_key = k, si_wake = Some w\<rparr>)"
    "timestamp_secs_to_instant ch clk w = Some u" by (auto simp: armed_by_def)
  have "due_at ch clk w = Some u" if "chrono_laws ch" using wake_instant [OF that] armed(3) by metis
  with st armed show ?thesis by blast
qed

text \<open>
  C21: no committed snooze loses its wake. In every state the running service can reach, an alarm
  that was confirmed as bypassed with a wake time in this run, and for which no job is anywhere
  in the service, has a timer set for that wake time by the clocks of the turn that handled the
  alarm's last command, or its timer has expired and the wake is on its way to the coordinator.
  Statuses restored at startup are excluded.
\<close>

theorem committed_snooze_guarded:
  assumes "service_laws js ops view" and "reach (timed_start ops) (timed_step pb js ch ops) tm"
    and "proto_ok pb" and "normal_device (key_device k)"
    and "\<forall>j\<in>#pipe_jobs (tm_service tm). job_key j \<noteq> k"
    and "hm_get (confirmed_state (sv_coord (tm_service tm))) k = Some (st, n)" and "n \<noteq> DEFAULT_HYDRATED_ID"
    and "status_state pb st = Bypassed" and "st_wake st = Some w"
  shows "(\<exists>u clk. deadline view (sv_snooze (tm_service tm)) k = Some u \<and>
      last_command (tm_log tm) k = Some (clk, \<lparr>si_key = k, si_wake = Some w\<rparr>) \<and>
      timestamp_secs_to_instant ch clk w = Some u \<and> (chrono_laws ch \<longrightarrow> due_at ch clk w = Some u)) \<or>
    Expired k \<in> set (sv_snooze_out (tm_service tm)) \<or> Wake k \<in> set (sv_outcome_q (tm_service tm))"
proof -
  from reach_service_rel [OF assms(1) reach_timed_service [OF assms(2)]] obtain m where
    m: "cm_inv pb m" "simulates (tm_service tm) m" by blast
  note none = jobless_spec [OF m assms(5)]
  have "timers_ok ch view (tm_log tm) (tm_service tm) k" "snoozes_ok pb view (tm_service tm) k"
    using reach_wakes [OF assms(1,2)] assms(3,4) by (simp_all add: wakes_ok_def)
  with none assms(6-9) have "wake_due view k (tm_service tm)"
    and armed: "\<And>u. deadline view (sv_snooze (tm_service tm)) k = Some u \<Longrightarrow> armed_by ch (tm_log tm) k (Some w) u"
    by (auto simp: timers_ok_def snoozes_ok_def snoozed_def)
  then consider u where "deadline view (sv_snooze (tm_service tm)) k = Some u"
    | "Expired k \<in> set (sv_snooze_out (tm_service tm)) \<or> Wake k \<in> set (sv_outcome_q (tm_service tm))"
    by (auto simp: wake_due_def)
  then show ?thesis
  proof cases
    case (1 u)
    from armed [OF 1] obtain clk where
      "last_command (tm_log tm) k = Some (clk, \<lparr>si_key = k, si_wake = Some w\<rparr>)"
      "timestamp_secs_to_instant ch clk w = Some u" by (auto simp: armed_by_def)
    moreover from this(2) have "due_at ch clk w = Some u" if "chrono_laws ch" using wake_instant [OF that] by metis
    ultimately show ?thesis using 1 by blast
  qed simp
qed

section \<open>A committed snooze\<close>

text \<open>Evaluation compares the delay with its cap as an integer.\<close>

lemma timestamp_secs_to_instant_code [code]:
  "timestamp_secs_to_instant ch clk wake =
     (case from_timestamp_secs ch (ts_seconds wake) of
        None \<Rightarrow> None
      | Some target_time \<Rightarrow>
          (case to_std ch (signed_duration_since ch target_time (utc_now clk)) of
             None \<Rightarrow> None
           | Some d \<Rightarrow> Some (instant_now clk + nat (min (int d) (365 * 24 * 3600 * 1000000000)))))"
proof -
  have "min d MAX_DELAY = nat (min (int d) (365 * 24 * 3600 * 1000000000))" for d
    by (simp add: MAX_DELAY_def min_def)
  then show ?thesis by (simp add: timestamp_secs_to_instant_def cong: option.case_cong)
qed
definition near_clocks :: clocks where
  "near_clocks = \<lparr>utc_now = 1060 * 1000000000 - 5, instant_now = 7\<rparr>"

definition snooze_status :: status where
  "snooze_status = build_user_status sample_proto 1000 demo_key (Bypass (Some (sample_wake 1060))) ''op''"

text \<open>A user snoozes an alarm, the publisher accepts the message, and the job is committed.\<close>

definition committed_run :: "service_event list" where
  "committed_run = [Coordinator_Turn 1000 (On_User (UserUpdate demo_key (Bypass (Some (sample_wake 1060))) ''op'' 7)),
     Workflow_Job, Snooze_Turn near_clocks, Workflow_Snooze, Publish_Take,
     Publish_Event (Attempt_Polled 0 1), Publish_Event (Attempt_Answered 0 True 2), Workflow_Publish,
     Coordinator_Turn 1060 (On_Outcome (Committed \<lparr>job_id = 1, job_key = demo_key,
       job_status = snooze_status, job_user_initiated = True\<rparr>))]"

fun timed_events ::
  "proto \<Rightarrow> serializer \<Rightarrow> chrono_ops \<Rightarrow> ('q, 'h) delay_ops \<Rightarrow> service_event list \<Rightarrow> ('q, 'h) timed \<Rightarrow>
   ('q, 'h) timed option" where
  "timed_events pb js ch ops [] tm = Some tm"
| "timed_events pb js ch ops (ev # evs) tm =
     (if id_counter (sv_coord (tm_service tm)) = - 1 \<or> sv_panicked (tm_service tm) then None
      else Option.bind (timed_next pb js ch ops ev tm) (timed_events pb js ch ops evs))"

lemma timed_events_steps:
  "timed_events pb js ch ops evs tm = Some tm' \<Longrightarrow> (timed_step pb js ch ops)\<^sup>*\<^sup>* tm tm'"
proof (induction evs arbitrary: tm)
  case (Cons ev evs)
  then obtain tm1 where "timed_step pb js ch ops tm tm1" "timed_events pb js ch ops evs tm1 = Some tm'"
    by (auto split: Option.bind_splits if_splits intro: timed_stepI)
  with Cons.IH show ?case by (meson converse_rtranclp_into_rtranclp)
qed simp

definition timed_empty :: "(sample_queue, nat) timed" where
  "timed_empty = \<lparr>tm_service = runtime_start sample_delay hm_new, tm_log = []\<rparr>"

definition snoozed_timed :: "(sample_queue, nat) timed" where
  "snoozed_timed = the (timed_events sample_proto sample_json sample_chrono sample_delay committed_run timed_empty)"

lemma committed_run_evaluated:
  "case timed_events sample_proto sample_json sample_chrono sample_delay committed_run timed_empty of
     None \<Rightarrow> False
   | Some tm \<Rightarrow> let s = tm_service tm in
       sv_job_q s = [] \<and> sv_workflow s = [] \<and> sv_outcome_q s = [] \<and> sv_snooze_out s = [] \<and>
       deadline hm_get (sv_snooze s) demo_key = Some 12 \<and>
       hm_get (confirmed_state (sv_coord s)) demo_key = Some (snooze_status, 1)"
  by code_simp

lemma committed_run_ok:
  "timed_events sample_proto sample_json sample_chrono sample_delay committed_run timed_empty = Some snoozed_timed"
  using committed_run_evaluated by (auto simp: snoozed_timed_def split: option.splits)

lemma snoozed_timed_simps:
  "pipe_jobs (tm_service snoozed_timed) = {#}" "sv_snooze_out (tm_service snoozed_timed) = []"
  "sv_outcome_q (tm_service snoozed_timed) = []"
  "deadline hm_get (sv_snooze (tm_service snoozed_timed)) demo_key = Some 12"
  "hm_get (confirmed_state (sv_coord (tm_service snoozed_timed))) demo_key = Some (snooze_status, 1)"
  using committed_run_evaluated unfolding committed_run_ok by (simp_all add: pipe_jobs_def tracked_jobs_def Let_def)

lemma reach_snoozed_timed:
  "reach (timed_start sample_delay) (timed_step sample_proto sample_json sample_chrono sample_delay) snoozed_timed"
  by (rule reach_steps [OF reach_init timed_events_steps [OF committed_run_ok]])
    (auto simp: timed_start_def timed_empty_def service_start_def)

theorem no_stale_timer_witness:
  "\<exists>clk. last_command (tm_log snoozed_timed) demo_key =
       Some (clk, \<lparr>si_key = demo_key, si_wake = Some (sample_wake 1060)\<rparr>) \<and>
     due_at sample_chrono clk (sample_wake 1060) = Some 12"
  using no_stale_timer [OF sample_service_laws reach_snoozed_timed snoozed_timed_simps(4)] sample_chrono_laws
  by (auto simp: snoozed_timed_simps snooze_status_def build_user_status_def)

theorem committed_snooze_guarded_witness:
  "\<exists>u clk. deadline hm_get (sv_snooze (tm_service snoozed_timed)) demo_key = Some u \<and>
     last_command (tm_log snoozed_timed) demo_key =
       Some (clk, \<lparr>si_key = demo_key, si_wake = Some (sample_wake 1060)\<rparr>) \<and>
     due_at sample_chrono clk (sample_wake 1060) = Some u"
proof -
  have "status_state sample_proto snooze_status = Bypassed" "st_wake snooze_status = Some (sample_wake 1060)"
    by (simp_all add: snooze_status_def build_user_status_def status_state_def sample_proto_ok)
  moreover have "normal_device (key_device demo_key)"
    by (simp add: demo_key_def normal_device_def eval_key_text)
  ultimately show ?thesis
    using committed_snooze_guarded [OF sample_service_laws reach_snoozed_timed sample_proto_ok,
        of demo_key snooze_status 1 "sample_wake 1060"] sample_chrono_laws
    by (auto simp: snoozed_timed_simps DEFAULT_HYDRATED_ID_def)
qed

end
