(* ===== verification/Alarm_Topic.thy ===== *)
theory Alarm_Topic
  imports Alarm_Timers
begin

text \<open>
  The service together with what it has done to the outside: the statuses the publisher has
  accepted, in order, which is what the Kafka topic holds of this run, and the commands users
  have sent. The theory ties the coordinator's state and its answers to the topic: an alarm with
  no job in the service is confirmed with the last status the topic holds for it, a user who is
  told that a command succeeded has the change on the topic, and a service that starts again
  from the topic restores the bypasses of the EPICS alarms. A publisher that returns an error
  is taken at its word: the message is not on the topic.
\<close>

section \<open>The log of accepted statuses\<close>

fun publish_accepted :: "publish_event \<Rightarrow> publish_engine \<Rightarrow> (alarm_key \<times> status) list" where
  "publish_accepted (Attempt_Answered n True now) e =
     (if n < length (in_flight e) then
        (case in_flight e ! n of
           (attempt, Some started_at) \<Rightarrow> (let details = attempt_details_ref attempt in [(pd_key details, pd_status details)])
         | (attempt, None) \<Rightarrow> [])
      else [])"
| "publish_accepted _ e = []"

fun accepted_by :: "service_event \<Rightarrow> ('q, 'h) service \<Rightarrow> (alarm_key \<times> status) list" where
  "accepted_by (Publish_Event ev) s = publish_accepted ev (sv_publish s)"
| "accepted_by _ s = []"

fun command_in :: "proto \<Rightarrow> i64 \<Rightarrow> domain_input \<Rightarrow> (confirmation \<times> alarm_key \<times> status) list" where
  "command_in pb now (UserUpdate k action user cf) = [(cf, k, build_user_status pb now k action user)]"
| "command_in pb now _ = []"

fun commands_by :: "proto \<Rightarrow> service_event \<Rightarrow> (confirmation \<times> alarm_key \<times> status) list" where
  "commands_by pb (Coordinator_Turn now (On_User msg)) = command_in pb now msg"
| "commands_by pb (Coordinator_Turn now (On_Automated msg)) = command_in pb now msg"
| "commands_by pb _ = []"

record ('q, 'h) observed =
  ob_service :: "('q, 'h) service"
  ob_topic :: "(alarm_key \<times> status) list"
  ob_commands :: "(confirmation \<times> alarm_key \<times> status) list"

definition observed_start_state :: "('q, 'h) delay_ops \<Rightarrow> hydrated_statuses \<Rightarrow> ('q, 'h) observed" where
  "observed_start_state ops h = \<lparr>ob_service = runtime_start ops h, ob_topic = [], ob_commands = []\<rparr>"

definition observed_next ::
  "proto \<Rightarrow> serializer \<Rightarrow> chrono_ops \<Rightarrow> ('q, 'h) delay_ops \<Rightarrow> service_event \<Rightarrow> ('q, 'h) observed \<Rightarrow>
   ('q, 'h) observed option" where
  "observed_next pb js ch ops ev ob = map_option (\<lambda>t. \<lparr>ob_service = t,
       ob_topic = ob_topic ob @ accepted_by ev (ob_service ob),
       ob_commands = ob_commands ob @ commands_by pb ev\<rparr>)
     (service_next pb js ch ops ev (ob_service ob))"

inductive observed_step ::
  "proto \<Rightarrow> serializer \<Rightarrow> chrono_ops \<Rightarrow> ('q, 'h) delay_ops \<Rightarrow> ('q, 'h) observed \<Rightarrow> ('q, 'h) observed \<Rightarrow> bool"
  for pb js ch ops where
  observed_stepI: "id_counter (sv_coord (ob_service ob)) \<noteq> - 1 \<Longrightarrow> \<not> sv_panicked (ob_service ob) \<Longrightarrow>
     observed_next pb js ch ops ev ob = Some ob' \<Longrightarrow> observed_step pb js ch ops ob ob'"

inductive_cases observed_stepE: "observed_step pb js ch ops ob ob'"

definition observed_start :: "('q, 'h) delay_ops \<Rightarrow> hydrated_statuses \<Rightarrow> ('q, 'h) observed \<Rightarrow> bool" where
  "observed_start ops h ob \<longleftrightarrow> hm_wf h \<and> ob = observed_start_state ops h"

lemma observed_next_Some:
  "observed_next pb js ch ops ev ob = Some ob' \<longleftrightarrow>
     (\<exists>t. service_next pb js ch ops ev (ob_service ob) = Some t \<and> ob' = \<lparr>ob_service = t,
       ob_topic = ob_topic ob @ accepted_by ev (ob_service ob), ob_commands = ob_commands ob @ commands_by pb ev\<rparr>)"
  by (auto simp: observed_next_def)

interpretation observed: stuttering_simulation "observed_start ops h" "observed_step pb js ch ops"
    "service_start ops" "service_step pb js ch ops" "\<lambda>ob s. s = ob_service ob" for pb js ch ops h
  by unfold_locales
    (auto simp: observed_start_def observed_start_state_def service_start_def observed_next_Some
      elim!: observed_stepE intro!: service_stepI)

lemma reach_observed_service:
  "reach (observed_start ops h) (observed_step pb js ch ops) ob \<Longrightarrow>
     reach (service_start ops) (service_step pb js ch ops) (ob_service ob)"
  using observed.reach_matched by blast

definition last_on :: "(alarm_key \<times> status) list \<Rightarrow> alarm_key \<Rightarrow> status option" where
  "last_on topic = map_of (rev topic)"

lemma last_on_simps [simp]:
  "last_on [] k = None"
  "last_on (topic @ [(k', st)]) k = (if k = k' then Some st else last_on topic k)"
  by (simp_all add: last_on_def)

section \<open>What the publish engine accepts\<close>

definition engine_requests :: "publish_engine \<Rightarrow> publish set" where
  "engine_requests e = set (map (pa_request \<circ> fst) (in_flight e))"

definition reported :: "publish_outcome list \<Rightarrow> publish_result set" where
  "reported rs = set (List.concat (map outcome_results rs))"

lemma reported_simps [simp]:
  "reported [] = {}" "reported (r # rs) = set (outcome_results r) \<union> reported rs"
  "reported (rs @ qs) = reported rs \<union> reported qs"
  by (auto simp: reported_def)

text \<open>
  The requests the engine works on are those it took, and it reports success for a key exactly
  when the publisher has accepted an attempt for it.
\<close>

lemma completed_accepts:
  assumes "handle_completed_work True r batch = (batch', es)"
  shows "set batch' \<union> reported (sent_outcomes es) =
    insert (sym_map (\<lambda>a. attempt_key a) r) (set batch)"
  using assms
  by (cases r) (auto simp: handle_completed_work_def flush_completed_batch_def port_send_def Let_def
      attempt_key_def request_key_def split: if_splits)

lemma answered_effect:
  assumes "publish_turn js True (Attempt_Answered n acc now) e = Some (e', es)"
  shows "engine_requests e' \<subseteq> engine_requests e \<and>
    (\<forall>k. Sym_Ok k \<in> set (completed_batch e') \<union> reported (sent_outcomes es) \<longleftrightarrow>
       Sym_Ok k \<in> set (completed_batch e) \<or> k \<in> fst ` set (publish_accepted (Attempt_Answered n acc now) e))"
proof (cases "n < length (in_flight e) \<and> snd (in_flight e ! n) \<noteq> None")
  case False
  then have "publish_accepted (Attempt_Answered n acc now) e = []"
    by (cases acc; cases "in_flight e ! n") auto
  moreover have "e' = e \<and> es = []" using False assms by (auto split: if_splits prod.splits option.splits)
  ultimately show ?thesis by simp
next
  case True
  then obtain a u where a: "in_flight e ! n = (a, Some u)" "n < length (in_flight e)"
    by (cases "in_flight e ! n") auto
  have mem: "pa_request a \<in> engine_requests e"
    using a nth_mem [OF a(2)] by (force simp: engine_requests_def)
  have rest: "(pa_request \<circ> fst) ` set (drop_nth n (in_flight e)) \<subseteq> engine_requests e"
    using set_drop_nth [of n "in_flight e"] by (auto simp: engine_requests_def)
  obtain batch es' where work: "handle_completed_work True (if acc then Sym_Ok a else Sym_Err a) (completed_batch e) = (batch, es')"
    by fastforce
  note C = completed_accepts [OF work]
  show ?thesis
  proof (cases acc)
    case True
    then have "e' = e\<lparr>in_flight := drop_nth n (in_flight e), completed_batch := batch\<rparr>"
      "sent_outcomes es = sent_outcomes es'" "publish_accepted (Attempt_Answered n acc now) e = [(attempt_key a, pd_status (attempt_details_ref a))]"
      using assms a work
      by (auto simp: deliver_finish_def attempt_done_def attempt_key_def request_key_def attempt_details_ref_def Let_def)
    with C True rest show ?thesis by (auto simp: engine_requests_def)
  next
    case False
    then have acc: "publish_accepted (Attempt_Answered n acc now) e = []" by simp
    show ?thesis
    proof (cases "pa_attempt_count a < MAX_DELIVERY_ATTEMPTS")
      case True
      then have "e' = e\<lparr>in_flight := drop_nth n (in_flight e) @ [(increment_attempt a, None)]\<rparr>" "sent_outcomes es = []"
        using assms a False by (auto simp: deliver_finish_def attempt_done_def)
      moreover have "engine_requests (e\<lparr>in_flight := drop_nth n (in_flight e) @ [(increment_attempt a, None)]\<rparr>) \<subseteq>
          engine_requests e"
        using rest mem by (simp add: engine_requests_def)
      ultimately show ?thesis using acc by simp
    next
      case retry: False
      then have "e' = e\<lparr>in_flight := drop_nth n (in_flight e), completed_batch := batch\<rparr>"
        "sent_outcomes es = sent_outcomes es'"
        using assms a work False by (auto simp: deliver_finish_def attempt_done_def)
      with C False acc rest show ?thesis by (auto simp: engine_requests_def)
    qed
  qed
qed

fun requested :: "publish_event \<Rightarrow> publish set" where
  "requested (Got_Request p) = {p}"
| "requested _ = {}"

lemma publish_turn_effect:
  assumes "publish_turn js True ev e = Some (e', es)"
  shows "engine_requests e' \<subseteq> engine_requests e \<union> requested ev \<and>
    (\<forall>k. Sym_Ok k \<in> set (completed_batch e') \<union> reported (sent_outcomes es) \<longleftrightarrow>
       Sym_Ok k \<in> set (completed_batch e) \<or> k \<in> fst ` set (publish_accepted ev e))"
proof (cases ev)
  case (Attempt_Answered n acc now)
  with answered_effect assms show ?thesis by auto
next
  case (Attempt_Polled n now)
  have "engine_requests (e\<lparr>in_flight := (in_flight e)[n := (a, Some now)]\<rparr>) = engine_requests e"
    if "n < length (in_flight e)" "in_flight e ! n = (a, None)" for a
    using that map_update_same [of n "in_flight e" "pa_request \<circ> fst" "(a, Some now)"]
    by (simp add: engine_requests_def)
  with assms Attempt_Polled show ?thesis
    by (auto simp: deliver_start_def Let_def split: if_splits prod.splits option.splits)
next
  case Flush_Tick
  with assms show ?thesis
    by (auto simp: flush_completed_batch_def port_send_def engine_requests_def split: if_splits)
next
  case (Got_Request p)
  with assms have "map (pa_request \<circ> fst) (in_flight e') = map (pa_request \<circ> fst) (in_flight e) @ [p]"
    "completed_batch e' = completed_batch e" "es = []" by (auto simp: attempt_new_def)
  with Got_Request show ?thesis by (simp add: engine_requests_def)
qed

section \<open>What the workflow handler commits\<close>

lemma batch_commits:
  "workflow_ok w \<Longrightarrow> mset (map sym_into_inner rs) \<subseteq># awaiting 2 w \<Longrightarrow>
   dispatch_batch all_open w rs = Some (w', es) \<Longrightarrow>
     (\<forall>j. Committed j \<in> set (outcomes_of es) \<longrightarrow>
        Sym_Ok (job_key j) \<in> set rs \<and> hm_get w (job_key j) = Some \<lparr>tj_job = j, tj_step = 2\<rparr>) \<and>
     (\<forall>k. Sym_Ok k \<in> set rs \<longrightarrow> (\<exists>j. job_key j = k \<and> Committed j \<in> set (outcomes_of es))) \<and>
     (\<forall>k tj. hm_get w' k = Some tj \<longrightarrow> hm_get w k = Some tj)"
proof (induction rs arbitrary: w es)
  case (Cons r rs)
  let ?k = "sym_into_inner r"
  from Cons.prems(2) have mem: "?k \<in># awaiting 2 w" by (simp add: insert_subset_eq_iff)
  obtain j0 where get: "hm_get w ?k = Some \<lparr>tj_job = j0, tj_step = 2\<rparr>" and key: "job_key j0 = ?k"
    using awaiting_get [OF Cons.prems(1) mem] .
  let ?w = "hm_remove w ?k"
  note T = track_remove [OF Cons.prems(1) get]
  from Cons.prems(3) result_turn [OF get] obtain es2 where
    2: "dispatch_batch all_open ?w rs = Some (w', es2)"
    and es: "outcomes_of es = (if sym_is_ok r then Committed j0 else Failed j0) # outcomes_of es2"
    by (auto split: option.splits)
  have "mset (map sym_into_inner rs) \<subseteq># awaiting 2 ?w" using Cons.prems(2) T(3) by simp
  note IH = Cons.IH [OF T(1) this 2]
  have head: "Sym_Ok ?k = r" if "sym_is_ok r" using that by (cases r) auto
  have ok: "Sym_Ok (job_key j) \<in> set (r # rs) \<and> hm_get w (job_key j) = Some \<lparr>tj_job = j, tj_step = 2\<rparr>"
    if "Committed j \<in> set (outcomes_of es)" for j
    using that IH es head get key by (auto split: if_splits)
  have "\<exists>j. job_key j = k \<and> Committed j \<in> set (outcomes_of es)" if "Sym_Ok k \<in> set (r # rs)" for k
    using that IH es key by (cases "r = Sym_Ok k") auto
  moreover have "hm_get w k = Some tj" if "hm_get w' k = Some tj" for k tj
  proof -
    have "hm_get ?w k = Some tj" using that IH by blast
    then show ?thesis by (simp split: if_splits)
  qed
  ultimately show ?case using ok by blast
qed simp

section \<open>The topic and the confirmed state\<close>

definition success_results :: "('q, 'h) service \<Rightarrow> alarm_key set" where
  "success_results s = {k. Sym_Ok k \<in> set (completed_batch (sv_publish s)) \<union> reported (sv_publish_out s)}"

definition requests_open :: "('q, 'h) service \<Rightarrow> publish set" where
  "requests_open s = set (sv_publish_q s) \<union> engine_requests (sv_publish s)"

text \<open>The publisher has accepted the alarm's job, and the coordinator does not know yet.\<close>

definition commit_pending :: "alarm_key \<Rightarrow> ('q, 'h) service \<Rightarrow> bool" where
  "commit_pending k s \<longleftrightarrow> k \<in> success_results s \<or> (\<exists>j. job_key j = k \<and> Committed j \<in> set (sv_outcome_q s))"

definition requests_ok :: "('q, 'h) service \<Rightarrow> bool" where
  "requests_ok s \<longleftrightarrow> (\<forall>p\<in>requests_open s. \<forall>j.
     hm_get (sv_workflow s) (request_key p) = Some \<lparr>tj_job = j, tj_step = 2\<rparr> \<longrightarrow>
     pd_status (publish_details_ref p) = job_status j)"

definition results_ok :: "(alarm_key \<times> status) list \<Rightarrow> ('q, 'h) service \<Rightarrow> bool" where
  "results_ok topic s \<longleftrightarrow>
     (\<forall>k\<in>success_results s. \<forall>j. hm_get (sv_workflow s) k = Some \<lparr>tj_job = j, tj_step = 2\<rparr> \<longrightarrow>
        last_on topic k = Some (job_status j)) \<and>
     (\<forall>j. Committed j \<in> set (sv_outcome_q s) \<longrightarrow> last_on topic (job_key j) = Some (job_status j))"

definition confirmed_ok :: "hydrated_statuses \<Rightarrow> (alarm_key \<times> status) list \<Rightarrow> ('q, 'h) service \<Rightarrow> bool" where
  "confirmed_ok h topic s \<longleftrightarrow> (\<forall>k. \<not> commit_pending k s \<longrightarrow>
     map_option fst (hm_get (confirmed_state (sv_coord s)) k) =
       (case last_on topic k of Some st \<Rightarrow> Some st | None \<Rightarrow> hm_get h k))"

definition topic_ok :: "hydrated_statuses \<Rightarrow> (alarm_key \<times> status) list \<Rightarrow> ('q, 'h) service \<Rightarrow> bool" where
  "topic_ok h topic s \<longleftrightarrow> requests_ok s \<and> results_ok topic s \<and> confirmed_ok h topic s"

lemma topic_start: "hm_wf h \<Longrightarrow> topic_ok h [] (runtime_start ops h)"
  by (auto simp: topic_ok_def requests_ok_def results_ok_def confirmed_ok_def requests_open_def success_results_def
      commit_pending_def engine_requests_def runtime_start_def engine_new_def coordinator_new_confirmed option.map_comp
      comp_def option.map_ident)

text \<open>Turns that touch neither requests nor results.\<close>

definition same_publishing :: "('q, 'h) service \<Rightarrow> ('q, 'h) service \<Rightarrow> bool" where
  "same_publishing s t \<longleftrightarrow> sv_publish_q t = sv_publish_q s \<and> sv_publish t = sv_publish s \<and>
     sv_publish_out t = sv_publish_out s \<and>
     {j. Committed j \<in> set (sv_outcome_q t)} = {j. Committed j \<in> set (sv_outcome_q s)} \<and>
     sv_coord t = sv_coord s \<and>
     (\<forall>k j. hm_get (sv_workflow t) k = Some \<lparr>tj_job = j, tj_step = 2\<rparr> \<longrightarrow>
        hm_get (sv_workflow s) k = Some \<lparr>tj_job = j, tj_step = 2\<rparr>)"

lemma topic_same:
  assumes "same_publishing s t" "topic_ok h topic s"
  shows "topic_ok h topic t"
proof -
  have same: "requests_open t = requests_open s" "success_results t = success_results s"
    "\<And>k. commit_pending k t = commit_pending k s"
    using assms(1) by (auto simp: same_publishing_def requests_open_def success_results_def commit_pending_def)
  have "requests_ok t" using assms same(1) unfolding topic_ok_def requests_ok_def same_publishing_def by blast
  moreover have "results_ok topic t" using assms same(2) unfolding topic_ok_def results_ok_def same_publishing_def by blast
  moreover have "confirmed_ok h topic t" using assms same(3) by (simp add: topic_ok_def confirmed_ok_def same_publishing_def)
  ultimately show ?thesis by (simp add: topic_ok_def)
qed

section \<open>Turns of the workers\<close>

lemma topic_job:
  assumes m: "cm_inv pb m" "pipe_ok view s" "simulates s m"
    and nxt: "service_next pb js ch ops Workflow_Job s = Some t" and ok: "topic_ok h topic s"
  shows "topic_ok h topic t"
proof -
  from nxt obtain j q where q: "sv_job_q s = j # q" by (auto split: list.splits)
  have "same_publishing s t"
    using nxt q new_job_turn [of "sv_workflow s" j]
    by (auto simp: after_workflow_def same_publishing_def add_work_def split: if_splits)
  with ok show ?thesis by (rule topic_same [rotated])
qed

lemma open_awaiting: "pipe_ok view s \<Longrightarrow> p \<in> requests_open s \<Longrightarrow> request_key p \<in># awaiting 2 (sv_workflow s)"
  by (auto simp: pipe_okD(5) requests_open_def engine_requests_def publish_held_def attempt_key_def)

lemma success_awaiting:
  assumes "pipe_ok view s" "k \<in> success_results s"
  shows "k \<in># awaiting 2 (sv_workflow s)"
proof -
  have "k \<in> sym_into_inner ` (set (completed_batch (sv_publish s)) \<union> reported (sv_publish_out s))"
    using assms(2) by (force simp: success_results_def intro: rev_image_eqI)
  then show ?thesis
    by (auto simp: pipe_okD(5) [OF assms(1)] publish_held_def results_keys_def reported_def)
qed

lemma topic_accepted:
  assumes ok: "pipe_ok view s" and get: "hm_get (sv_workflow s) k = Some \<lparr>tj_job = j, tj_step = 1\<rparr>" "job_key j = k"
    and t: "t = s\<lparr>sv_snooze_out := q, sv_workflow := hm_insert (sv_workflow s) k \<lparr>tj_job = j, tj_step = 2\<rparr>,
      sv_publish_q := sv_publish_q s @ [publish_of j]\<rparr>"
    and top: "topic_ok h topic s"
  shows "topic_ok h topic t"
proof -
  have none: "k \<notin># awaiting 2 (sv_workflow s)"
  proof
    assume "k \<in># awaiting 2 (sv_workflow s)"
    then obtain j' where "hm_get (sv_workflow s) k = Some \<lparr>tj_job = j', tj_step = 2\<rparr>"
      by (rule awaiting_get [OF pipe_okD(1) [OF ok]])
    with get(1) show False by simp
  qed
  then have fresh: "\<forall>p\<in>requests_open s. request_key p \<noteq> k" "k \<notin> success_results s"
    using open_awaiting [OF ok] success_awaiting [OF ok] by blast+
  have "pd_status (publish_details_ref (publish_of j)) = job_status j" "request_key (publish_of j) = k"
    using get(2) by (simp_all add: publish_of_def details_from_job_def request_key_def)
  moreover have "requests_open t = insert (publish_of j) (requests_open s)"
    by (auto simp: requests_open_def t)
  moreover have same: "success_results t = success_results s" by (simp add: success_results_def t)
  ultimately have "requests_ok t" "results_ok topic t"
    using top fresh by (auto simp: topic_ok_def requests_ok_def results_ok_def t)
  moreover have "confirmed_ok h topic t"
    using top same by (simp add: topic_ok_def confirmed_ok_def commit_pending_def t)
  ultimately show ?thesis by (simp add: topic_ok_def)
qed

lemma topic_snooze_result:
  assumes ok: "pipe_ok view s" and nxt: "service_next pb js ch ops Workflow_Snooze s = Some t"
    and top: "topic_ok h topic s"
  shows "topic_ok h topic t"
proof -
  note wok = pipe_okD(1) [OF ok]
  from nxt obtain r q where q: "sv_snooze_out s = r # q" by (auto split: list.splits)
  have await: "\<exists>j. hm_get (sv_workflow s) k = Some \<lparr>tj_job = j, tj_step = 1\<rparr> \<and> job_key j = k"
    if "snooze_answered r = [k]" for k
    using that q pipe_okD(4) [OF ok] awaiting_get [OF wok, of k 1] by auto
  show ?thesis
  proof (cases r)
    case (Expired k)
    with nxt q have "same_publishing s t" by (auto simp: after_workflow_def same_publishing_def)
    with top show ?thesis by (rule topic_same [rotated])
  next
    case (InvalidWake k)
    with await obtain j where get: "hm_get (sv_workflow s) k = Some \<lparr>tj_job = j, tj_step = 1\<rparr>" by auto
    from nxt q InvalidWake invalid_turn [OF get] have "same_publishing s t"
      by (auto simp: after_workflow_def same_publishing_def split: if_splits)
    with top show ?thesis by (rule topic_same [rotated])
  next
    case (Accepted k)
    with await obtain j where get: "hm_get (sv_workflow s) k = Some \<lparr>tj_job = j, tj_step = 1\<rparr>" "job_key j = k"
      by auto
    from nxt q Accepted accepted_turn [OF get] show ?thesis
      by (intro topic_accepted [OF ok get _ top, of _ q]) (auto simp: after_workflow_def)
  qed
qed

lemma topic_publish_result:
  assumes ok: "pipe_ok view s" and nxt: "service_next pb js ch ops Workflow_Publish s = Some t"
    and top: "topic_ok h topic s"
  shows "topic_ok h topic t"
proof -
  note wok = pipe_okD(1) [OF ok]
  from nxt obtain r q where q: "sv_publish_out s = r # q"
    and t: "t = after_workflow (dispatch_batch all_open (sv_workflow s) (outcome_results r)) (s\<lparr>sv_publish_out := q\<rparr>)"
    by (auto simp: publish_result_turn simp del: workflow_turn.simps split: list.splits)
  have sub: "mset (map sym_into_inner (outcome_results r)) \<subseteq># awaiting 2 (sv_workflow s)"
    using pipe_okD(5) [OF ok] q by simp
  from batch_step [OF wok sub] obtain w es where
    out: "dispatch_batch all_open (sv_workflow s) (outcome_results r) = Some (w, es)"
    and none: "publishes_of es = []" by blast
  note B = batch_commits [OF wok sub out]
  have results: "success_results s = {k. Sym_Ok k \<in> set (outcome_results r)} \<union> success_results t"
    using q by (auto simp: success_results_def t out after_workflow_def)
  have open_same: "requests_open t = requests_open s" by (simp add: requests_open_def t out after_workflow_def none)
  have oc: "sv_outcome_q t = sv_outcome_q s @ outcomes_of es" "sv_coord t = sv_coord s" "sv_workflow t = w"
    by (simp_all add: t out after_workflow_def)
  have "requests_ok t" using top B open_same unfolding topic_ok_def requests_ok_def oc by blast
  moreover have "last_on topic (job_key j) = Some (job_status j)" if "Committed j \<in> set (outcomes_of es)" for j
    using that B top results unfolding topic_ok_def results_ok_def by blast
  then have "results_ok topic t"
    using top B results unfolding topic_ok_def results_ok_def oc by auto
  moreover have "commit_pending k t" if "commit_pending k s" for k
    using that B results unfolding commit_pending_def oc by auto
  then have "confirmed_ok h topic t" using top unfolding topic_ok_def confirmed_ok_def oc by blast
  ultimately show ?thesis by (simp add: topic_ok_def)
qed

text \<open>The publisher accepts an attempt: it is for the tracked job, and no commit of its alarm is pending.\<close>

lemma publish_accepted_cases:
  obtains "publish_accepted ev e = []"
    | n now a u where "ev = Attempt_Answered n True now" "n < length (in_flight e)" "in_flight e ! n = (a, Some u)"
        "publish_accepted ev e = [(attempt_key a, pd_status (attempt_details_ref a))]"
proof (cases "\<exists>n now a u. ev = Attempt_Answered n True now \<and> n < length (in_flight e) \<and> in_flight e ! n = (a, Some u)")
  case True
  then show ?thesis using that(2)
    by (auto simp: attempt_key_def request_key_def attempt_details_ref_def Let_def)
next
  case False
  have "publish_accepted ev e = []"
  proof (cases ev)
    case (Attempt_Answered n acc now)
    with False show ?thesis by (cases acc; cases "in_flight e ! n"; cases "snd (in_flight e ! n)") auto
  qed simp_all
  then show ?thesis by (rule that(1))
qed

lemma accepted_request:
  assumes "(k, st) \<in> set (publish_accepted ev e)"
  shows "publish_accepted ev e = [(k, st)] \<and>
    (\<exists>p\<in>engine_requests e. request_key p = k \<and> pd_status (publish_details_ref p) = st)"
proof (rule publish_accepted_cases [of ev e])
  fix n now a u assume a: "n < length (in_flight e)" "in_flight e ! n = (a, Some u)"
    "publish_accepted ev e = [(attempt_key a, pd_status (attempt_details_ref a))]"
  have "pa_request a \<in> engine_requests e" using nth_mem [OF a(1)] a(2) by (force simp: engine_requests_def)
  with a(3) assms show ?thesis by (auto simp: attempt_key_def attempt_details_ref_def)
qed (use assms in simp)

lemma tracked_not_committed:
  assumes m: "cm_inv pb m" "pipe_ok view s" "simulates s m"
    and k: "job_key j \<in># awaiting n (sv_workflow s)" and c: "Committed j \<in> set (sv_outcome_q s)"
  shows False
proof -
  obtain j' where j': "j' \<in># tracked_jobs (sv_workflow s)" "job_key j' = job_key j"
    by (rule waiting_job [OF m(2) k])
  have c': "j \<in># mset (outcome_jobs (sv_outcome_q s))" using c by (force simp: outcome_jobs_def)
  from multi_member_split [OF j'(1)] multi_member_split [OF c'] obtain M N where
    "tracked_jobs (sv_workflow s) = add_mset j' M" "mset (outcome_jobs (sv_outcome_q s)) = add_mset j N" by blast
  then have "mset (cm_jobs m) = add_mset j' (add_mset j (mset (sv_job_q s) + M + N))"
    using m(3) by (simp add: simulates_def pipe_jobs_def)
  moreover have "distinct (map job_key (cm_jobs m))" using m(1) by (simp add: cm_inv_def inv_flight_def)
  ultimately show False using distinct_keys_apart j'(2) by metis
qed

lemma topic_publish:
  assumes m: "cm_inv pb m" "pipe_ok view s" "simulates s m"
    and ev: "publish_turn js True ev (sv_publish s) = Some (e', es)"
    and q: "set (sv_publish_q s) = requested ev \<union> set q"
    and top: "topic_ok h topic s"
  shows "topic_ok h (topic @ publish_accepted ev (sv_publish s)) (after_publish (Some (e', es)) (s\<lparr>sv_publish_q := q\<rparr>))"
    (is "topic_ok h ?topic ?t")
proof -
  note E = publish_turn_effect [OF ev]
  have t: "sv_publish ?t = e'" "sv_publish_q ?t = q" "sv_publish_out ?t = sv_publish_out s @ sent_outcomes es"
    "sv_workflow ?t = sv_workflow s" "sv_outcome_q ?t = sv_outcome_q s" "sv_coord ?t = sv_coord s"
    by (simp_all add: after_publish_def)
  have open_sub: "requests_open ?t \<subseteq> requests_open s" using E q by (auto simp: requests_open_def t)
  have results: "success_results ?t = success_results s \<union> fst ` set (publish_accepted ev (sv_publish s))"
    using E by (auto simp: success_results_def t)
  have acc: "last_on ?topic k = Some (job_status j)"
    if k: "k \<in> fst ` set (publish_accepted ev (sv_publish s))"
      and get: "hm_get (sv_workflow s) k = Some \<lparr>tj_job = j, tj_step = 2\<rparr>" for k j
  proof -
    obtain st where st: "publish_accepted ev (sv_publish s) = [(k, st)]"
      using k accepted_request by fastforce
    then obtain p where "p \<in> engine_requests (sv_publish s)" "request_key p = k" "pd_status (publish_details_ref p) = st"
      using accepted_request [of k st ev "sv_publish s"] by auto
    with top get st show ?thesis by (auto simp: topic_ok_def requests_ok_def requests_open_def)
  qed
  have keep: "last_on ?topic k = last_on topic k" if "k \<notin> fst ` set (publish_accepted ev (sv_publish s))" for k
    using that by (rule_tac publish_accepted_cases [of ev "sv_publish s"]) auto
  have fresh: "job_key j \<notin> fst ` set (publish_accepted ev (sv_publish s))" if "Committed j \<in> set (sv_outcome_q s)" for j
  proof
    assume "job_key j \<in> fst ` set (publish_accepted ev (sv_publish s))"
    then obtain p where "p \<in> engine_requests (sv_publish s)" "request_key p = job_key j"
      using accepted_request by force
    then have "job_key j \<in># awaiting 2 (sv_workflow s)"
      using open_awaiting [OF m(2), of p] by (simp add: requests_open_def)
    from tracked_not_committed [OF m this that] show False .
  qed
  have "requests_ok ?t" using top open_sub unfolding topic_ok_def requests_ok_def t by blast
  moreover have "last_on ?topic k = Some (job_status j)"
    if "k \<in> success_results ?t" "hm_get (sv_workflow s) k = Some \<lparr>tj_job = j, tj_step = 2\<rparr>" for k j
    using that acc keep [of k] top results unfolding topic_ok_def results_ok_def by (metis UnE)
  then have "results_ok ?topic ?t"
    using fresh keep top unfolding topic_ok_def results_ok_def t by metis
  moreover have "map_option fst (hm_get (confirmed_state (sv_coord s)) k) =
      (case last_on ?topic k of Some st \<Rightarrow> Some st | None \<Rightarrow> hm_get h k)" if "\<not> commit_pending k ?t" for k
  proof -
    have "\<not> commit_pending k s" "k \<notin> fst ` set (publish_accepted ev (sv_publish s))"
      using that results by (auto simp: commit_pending_def t)
    then show ?thesis using keep [of k] top by (simp add: topic_ok_def confirmed_ok_def)
  qed
  then have "confirmed_ok h ?topic ?t" unfolding confirmed_ok_def t by blast
  ultimately show ?thesis by (simp add: topic_ok_def)
qed

section \<open>Turns of the coordinator\<close>

lemma topic_coord:
  assumes m: "cm_inv pb m" "pipe_ok view s" "simulates s m" and c: "id_counter (sv_coord s) \<noteq> - 1"
    and nxt: "service_next pb js ch ops (Coordinator_Turn now ev) s = Some t"
    and top: "topic_ok h topic s"
  shows "topic_ok h topic t"
proof -
  define m' where "m' = cm_next pb now ev m"
  note K = coord_keeps [OF nxt]
  have T: "simulates t m'" using coord_turn_ok [OF m(2,3) c nxt] by (simp add: m'_def)
  have front: "cm_coord m = sv_coord s" "cm_coord m' = sv_coord t" using m(3) T by (simp_all add: simulates_def)
  have oc: "set (sv_outcome_q t) \<subseteq> set (sv_outcome_q s)" using K(5) by auto
  have same: "requests_open t = requests_open s" "success_results t = success_results s"
    by (simp_all add: requests_open_def success_results_def K)
  have "requests_ok t" "results_ok topic t"
    using top oc by (auto simp: topic_ok_def requests_ok_def results_ok_def same K(4))
  moreover have "map_option fst (conf m' k) = (case last_on topic k of Some st \<Rightarrow> Some st | None \<Rightarrow> hm_get h k)"
    if free: "\<not> commit_pending k t" for k
  proof -
    have rest: ?thesis if "\<not> commit_pending k s" "conf m' k = conf m k"
      using that top front by (simp add: topic_ok_def confirmed_ok_def)
    have pending: "\<exists>j. job_key j = k \<and> ev = On_Outcome (Committed j)" if "commit_pending k s"
      using that free K(5) same(2) by (auto simp: commit_pending_def)
    from m(1) coord_enabled [OF m(3) nxt] show ?thesis
    proof (cases rule: coord_key [where k = k and now = now])
      case (committed j)
      then have "Committed j \<in> set (sv_outcome_q s)" using K(5) by auto
      then have "last_on topic k = Some (job_status j)"
        using top committed(2) by (auto simp: topic_ok_def results_ok_def)
      with committed(3) show ?thesis by (simp add: m'_def)
    next
      case (failed j)
      with rest pending show ?thesis by (auto simp: m'_def)
    next
      case other
      with rest pending show ?thesis by (auto simp: m'_def)
    qed
  qed
  then have "confirmed_ok h topic t" by (simp add: confirmed_ok_def front)
  ultimately show ?thesis by (simp add: topic_ok_def)
qed

section \<open>The invariant\<close>

lemma topic_turn:
  assumes sl: "service_laws js ops view" and m: "cm_inv pb m" "pipe_ok view s" "simulates s m"
    and c: "id_counter (sv_coord s) \<noteq> - 1" and nxt: "service_next pb js ch ops ev s = Some t"
    and top: "topic_ok h topic s"
  shows "topic_ok h (topic @ accepted_by ev s) t"
proof (cases ev)
  case (Coordinator_Turn now cev)
  with topic_coord [OF m c nxt [unfolded Coordinator_Turn] top] show ?thesis by simp
next
  case Workflow_Publish
  with topic_publish_result [OF m(2) nxt [unfolded Workflow_Publish] top] show ?thesis by simp
next
  case Workflow_Snooze
  with topic_snooze_result [OF m(2) nxt [unfolded Workflow_Snooze] top] show ?thesis by simp
next
  case Workflow_Job
  with topic_job [OF m nxt [unfolded Workflow_Job] top] show ?thesis by simp
next
  case (Snooze_Turn clk)
  with nxt have "same_publishing s t"
    by (auto simp: after_snooze_def same_publishing_def split: list.splits option.splits)
  with top Snooze_Turn show ?thesis by (simp add: topic_same)
next
  case (Timer_Poll now)
  with nxt have "same_publishing s t" by (auto simp: after_snooze_def same_publishing_def split: option.splits)
  with top Timer_Poll show ?thesis by (simp add: topic_same)
next
  case Publish_Take
  with nxt obtain p q where q: "sv_publish_q s = p # q" by (auto split: list.splits)
  obtain e es where ev: "publish_turn js True (Got_Request p) (sv_publish s) = Some (e, es)"
    using publish_turn_total sl unfolding service_laws_def by blast
  from topic_publish [OF m ev _ top, of q] nxt q ev Publish_Take show ?thesis
    by (simp del: publish_turn.simps)
next
  case (Publish_Event pe)
  obtain e es where ev: "publish_turn js True pe (sv_publish s) = Some (e, es)"
    using publish_turn_total sl unfolding service_laws_def by blast
  have "requested pe = {}" "t = after_publish (Some (e, es)) s"
    using nxt ev Publish_Event by (cases pe; simp del: publish_turn.simps)+
  with topic_publish [OF m ev _ top, of "sv_publish_q s"] Publish_Event show ?thesis by simp
qed

lemma observed_induct [consumes 2, case_names start turn]:
  assumes sl: "service_laws js ops view" and r: "reach (observed_start ops h) (observed_step pb js ch ops) ob"
    and start: "hm_wf h \<Longrightarrow> P (observed_start_state ops h)"
    and turn: "\<And>m s topic commands ev t. cm_inv pb m \<Longrightarrow> pipe_ok view s \<Longrightarrow> simulates s m \<Longrightarrow>
      id_counter (sv_coord s) \<noteq> - 1 \<Longrightarrow> service_next pb js ch ops ev s = Some t \<Longrightarrow>
      reach (observed_start ops h) (observed_step pb js ch ops)
        \<lparr>ob_service = s, ob_topic = topic, ob_commands = commands\<rparr> \<Longrightarrow>
      P \<lparr>ob_service = s, ob_topic = topic, ob_commands = commands\<rparr> \<Longrightarrow>
      P \<lparr>ob_service = t, ob_topic = topic @ accepted_by ev s, ob_commands = commands @ commands_by pb ev\<rparr>"
  shows "P ob"
  using r
proof (induction rule: reach.induct)
  case (reach_init ob)
  then show ?case using start by (simp add: observed_start_def)
next
  case (reach_step ob ob')
  obtain s topic commands where ob: "ob = \<lparr>ob_service = s, ob_topic = topic, ob_commands = commands\<rparr>"
    by (cases ob) auto
  from reach_service_rel [OF sl reach_observed_service [OF reach_step(1)]] ob obtain m where
    m: "cm_inv pb m" "pipe_ok view s" "simulates s m" by auto
  from reach_step(2) ob obtain ev t where "id_counter (sv_coord s) \<noteq> - 1" "service_next pb js ch ops ev s = Some t"
    "ob' = \<lparr>ob_service = t, ob_topic = topic @ accepted_by ev s, ob_commands = commands @ commands_by pb ev\<rparr>"
    by (auto simp: observed_next_Some elim!: observed_stepE)
  with turn [OF m] reach_step.IH reach_step(1) ob show ?case by simp
qed

lemma reach_topic_ok:
  assumes "service_laws js ops view" and "reach (observed_start ops h) (observed_step pb js ch ops) ob"
  shows "topic_ok h (ob_topic ob) (ob_service ob)"
  using assms
proof (induction rule: observed_induct)
  case start
  then show ?case by (simp add: observed_start_state_def topic_start)
next
  case (turn m s topic commands ev t)
  from topic_turn [OF assms(1) turn(1-5)] turn(7) show ?case by simp
qed

section \<open>Commands and their answers\<close>

definition pending_ok :: "(confirmation \<times> alarm_key \<times> status) list \<Rightarrow> cmachine \<Rightarrow> bool" where
  "pending_ok commands m \<longleftrightarrow> (\<forall>n cf. pend m n = Some cf \<longrightarrow>
     (\<exists>k st. (cf, k, st) \<in> set commands \<and> (\<forall>k' st'. entry m k' n st' \<longrightarrow> k' = k \<and> st' = st)))"

lemma pending_subset:
  assumes "pending_ok commands m" "cm_inv pb m"
    and "\<And>n cf. pend t n = Some cf \<Longrightarrow> pend m n = Some cf"
    and "\<And>k n st. entry t k n st \<Longrightarrow> entry m k n st \<or> n = 0"
  shows "pending_ok commands t"
  unfolding pending_ok_def
proof (intro allI impI)
  fix n cf assume "pend t n = Some cf"
  then have p: "pend m n = Some cf" by (rule assms(3))
  then have "n \<noteq> 0" using assms(2) by (auto simp: cm_inv_def inv_ids_def)
  with assms(1,4) p show "\<exists>k st. (cf, k, st) \<in> set commands \<and> (\<forall>k' st'. entry t k' n st' \<longrightarrow> k' = k \<and> st' = st)"
    unfolding pending_ok_def by blast
qed

lemma pending_record:
  assumes "pending_ok commands m" "cm_inv pb m" "\<And>x. cf = Some x \<Longrightarrow> (x, k, st) \<in> set commands"
  shows "pending_ok commands (record_intent k st cf m)"
  unfolding pending_ok_def
proof (intro allI impI)
  fix n x assume p: "pend (record_intent k st cf m) n = Some x"
  have old: "\<not> entry m k' (counter m) st'" "pend m (counter m) = None" for k' st'
    using assms(2) by (auto simp: cm_inv_def inv_ids_def)
  show "\<exists>k' st'. (x, k', st') \<in> set commands \<and>
      (\<forall>k'' st''. entry (record_intent k st cf m) k'' n st'' \<longrightarrow> k'' = k' \<and> st'' = st')"
  proof (cases "n = counter m")
    case True
    then have "cf = Some x" using p old(2) by (auto split: option.splits)
    with assms(3) True old(1) entry_record [of k st cf m] show ?thesis by blast
  next
    case False
    then have "pend m n = Some x" using p by (auto split: option.splits)
    with assms(1) False entry_record [of k st cf m] show ?thesis unfolding pending_ok_def by blast
  qed
qed

lemma pending_mono: "pending_ok commands m \<Longrightarrow> pending_ok (commands @ news) m"
  unfolding pending_ok_def by fastforce

lemma pending_message:
  assumes inv: "cm_inv pb m" and ok: "pending_ok commands m" and ev: "ev = On_User msg \<or> ev = On_Automated msg"
  shows "pending_ok (commands @ commands_by pb (Coordinator_Turn now ev)) (cm_next pb now ev m)"
proof -
  have run: "cm_running m" using inv by (simp add: cm_inv_def)
  note mono = pending_mono [OF ok]
  show ?thesis
  proof (cases msg)
    case (UserUpdate k action user cf)
    let ?C = "commands @ [(cf, k, build_user_status pb now k action user)]"
    have "pending_ok ?C (record_intent k (build_user_status pb now k action user) (Some cf) m)"
      by (rule pending_record [OF mono inv]) simp
    moreover have "pending_ok ?C (answer_with as m)" for as
      by (rule pending_subset [OF mono inv]) (auto simp: entry_def)
    ultimately show ?thesis
      using ev UserUpdate by (auto simp: cm_next_user [OF run] user_result_def)
  next
    case (AutomatedUpdate st)
    have "pending_ok commands (record_intent k st None m)" for k
      by (rule pending_record [OF ok inv]) simp
    with ev AutomatedUpdate ok show ?thesis
      by (auto simp: cm_next_automated [OF run] automated_result_def Let_def)
  next
    case (SnapshotRequest x)
    with ev ok show ?thesis by (auto simp: cm_next_snapshot [OF run])
  qed
qed

lemma pending_next:
  fixes now :: i64
  assumes inv: "cm_inv pb m" and en: "cm_enabled ev m" and ok: "pending_ok commands m"
  shows "pending_ok (commands @ commands_by pb (Coordinator_Turn now ev)) (cm_next pb now ev m)"
proof -
  have run: "cm_running m" using inv by (simp add: cm_inv_def)
  show ?thesis
  proof (cases ev)
    case (On_Outcome r)
    have "pending_ok commands (cm_next pb now ev m)"
    proof (cases r)
      case (Committed j)
      with On_Outcome en have j: "j \<in> set (cm_jobs m)" by simp
      obtain st n where sp: "spec m (job_key j) = Some (st, n)" using flight_spec [OF inv j] .
      show ?thesis unfolding On_Outcome Committed
        by (rule pending_subset [OF ok inv])
          (use committed_entries [OF inv j, of now] sp in \<open>auto simp: cm_next_committed [OF run] split: if_splits\<close>)
    next
      case (Failed j)
      with On_Outcome en have j: "j \<in> set (cm_jobs m)" by simp
      obtain st n where sp: "spec m (job_key j) = Some (st, n)" using flight_spec [OF inv j] .
      show ?thesis unfolding On_Outcome Failed
        by (rule pending_subset [OF ok inv])
          (use failed_entries [OF inv j, of now] sp in \<open>auto simp: cm_next_failed [OF run sp] split: if_splits\<close>)
    next
      case (Wake k)
      have "pending_ok commands (record_intent k' st None m)" for k' st
        by (rule pending_record [OF ok inv]) simp
      with ok On_Outcome Wake show ?thesis
        by (auto simp: cm_next_automated [OF run] automated_result_def Let_def)
    qed
    with On_Outcome show ?thesis by simp
  next
    case (On_User msg)
    with pending_message [OF inv ok] show ?thesis by blast
  next
    case (On_Automated msg)
    with pending_message [OF inv ok] show ?thesis by blast
  next
    case Blocked
    with ok show ?thesis by (simp add: cm_next_snapshot [OF run])
  qed (use en in simp)
qed

lemma success_answers:
  fixes now :: i64
  assumes inv: "cm_inv pb m" and en: "cm_enabled ev m" and a: "(cf, Inr ()) \<in> set (cm_answers (cm_next pb now ev m))"
  shows "(cf, Inr ()) \<in> set (cm_answers m) \<or> (\<exists>j. ev = On_Outcome (Committed j) \<and> pend m (job_id j) = Some cf)"
proof -
  have run: "cm_running m" using inv by (simp add: cm_inv_def)
  have message: "(cf, Inr ()) \<in> set (cm_answers m)" if "ev = On_User msg \<or> ev = On_Automated msg" for msg
    using that a run
    by (cases msg) (auto simp: cm_next_automated cm_next_user cm_next_snapshot automated_result_def
        user_result_def Let_def split: if_splits)
  show ?thesis
  proof (cases ev)
    case (On_Outcome r)
    show ?thesis
    proof (cases r)
      case (Committed j)
      with On_Outcome en have j: "j \<in> set (cm_jobs m)" by simp
      obtain st n where "spec m (job_key j) = Some (st, n)" using flight_spec [OF inv j] .
      with a On_Outcome Committed show ?thesis
        by (auto simp: cm_next_committed [OF run] split: if_splits option.splits)
    next
      case (Failed j)
      with On_Outcome en have j: "j \<in> set (cm_jobs m)" by simp
      obtain st n where sp: "spec m (job_key j) = Some (st, n)" using flight_spec [OF inv j] .
      with a On_Outcome Failed show ?thesis
        by (auto simp: cm_next_failed [OF run sp] split: if_splits option.splits)
    next
      case (Wake k)
      with a On_Outcome show ?thesis
        by (auto simp: cm_next_automated [OF run] automated_result_def Let_def split: if_splits)
    qed
  next
    case Blocked
    with a show ?thesis by (simp add: cm_next_snapshot [OF run])
  qed (use message en in auto)
qed

lemma entry_same:
  assumes "simulates s m" "simulates s m'"
  shows "entry m k n st \<longleftrightarrow> entry m' k n st"
proof -
  have "set_mset (mset (cm_jobs m)) = set_mset (mset (cm_jobs m'))" using assms by (simp add: simulates_def)
  then show ?thesis using assms by (simp add: entry_def simulates_def)
qed

definition commands_pending :: "proto \<Rightarrow> ('q, 'h) observed \<Rightarrow> bool" where
  "commands_pending pb ob \<longleftrightarrow>
     (\<forall>m. cm_inv pb m \<and> simulates (ob_service ob) m \<longrightarrow> pending_ok (ob_commands ob) m)"

definition answers_ok :: "('q, 'h) observed \<Rightarrow> bool" where
  "answers_ok ob \<longleftrightarrow> (\<forall>cf. (cf, Inr ()) \<in> set (sv_answers (ob_service ob)) \<longrightarrow>
     (\<exists>k st. (cf, k, st) \<in> set (ob_commands ob) \<and> (k, st) \<in> set (ob_topic ob)))"

lemma pending_same:
  assumes "simulates s m" "simulates s m'"
  shows "pending_ok commands m = pending_ok commands m'"
proof -
  have "pend m = pend m'" using assms by (simp add: simulates_def)
  with entry_same [OF assms] show ?thesis by (simp add: pending_ok_def)
qed

lemma last_on_mem: "last_on topic k = Some st \<Longrightarrow> (k, st) \<in> set topic"
  using map_of_SomeD [of "rev topic"] by (simp add: last_on_def)

lemma commands_turn:
  assumes sl: "service_laws js ops view" and m: "cm_inv pb m" "pipe_ok view s" "simulates s m"
    and c: "id_counter (sv_coord s) \<noteq> - 1" and nxt: "service_next pb js ch ops ev s = Some t"
    and top: "topic_ok h topic s"
    and ok: "commands_pending pb \<lparr>ob_service = s, ob_topic = topic, ob_commands = commands\<rparr>"
      "answers_ok \<lparr>ob_service = s, ob_topic = topic, ob_commands = commands\<rparr>"
  defines "ob' \<equiv> \<lparr>ob_service = t, ob_topic = topic @ accepted_by ev s, ob_commands = commands @ commands_by pb ev\<rparr>"
  shows "commands_pending pb ob' \<and> answers_ok ob'"
proof (cases "coordinator_turn ev")
  case False
  then have none: "commands_by pb ev = []" by (cases ev) auto
  have t: "simulates t m" using task_turn_ok [OF sl m False nxt] by simp
  have "pending_ok commands m" using ok(1) m by (simp add: commands_pending_def)
  then have "commands_pending pb ob'"
    using pending_same [OF t] by (auto simp: commands_pending_def ob'_def none)
  moreover have "sv_answers t = sv_answers s" using m(3) t by (simp add: simulates_def)
  then have "answers_ok ob'" using ok(2) unfolding answers_ok_def ob'_def none by fastforce
  ultimately show ?thesis by simp
next
  case True
  then obtain now cev where ev: "ev = Coordinator_Turn now cev" by (cases ev) auto
  define m' where "m' = cm_next pb now cev m"
  have t: "simulates t m'" using coord_turn_ok [OF m(2,3) c nxt [unfolded ev]] by (simp add: m'_def)
  note en = coord_enabled [OF m(3) nxt [unfolded ev]]
  have pend: "pending_ok commands m" using ok(1) m by (simp add: commands_pending_def)
  have "pending_ok (commands @ commands_by pb ev) m'"
    unfolding m'_def ev by (rule pending_next [OF m(1) en pend])
  then have "commands_pending pb ob'" using pending_same [OF t] by (auto simp: commands_pending_def ob'_def)
  moreover have "\<exists>k st. (cf, k, st) \<in> set commands \<and> (k, st) \<in> set topic"
    if a: "(cf, Inr ()) \<in> set (sv_answers t)" for cf
  proof -
    have "(cf, Inr ()) \<in> set (cm_answers (cm_next pb now cev m))" using a t by (simp add: simulates_def m'_def)
    from success_answers [OF m(1) en this] show ?thesis
    proof
      assume "(cf, Inr ()) \<in> set (cm_answers m)"
      with ok(2) m(3) show ?thesis by (auto simp: answers_ok_def simulates_def)
    next
      assume "\<exists>j. cev = On_Outcome (Committed j) \<and> pend m (job_id j) = Some cf"
      then obtain j where j: "cev = On_Outcome (Committed j)" "pend m (job_id j) = Some cf" by blast
      then have "Committed j \<in> set (sv_outcome_q s)" using coord_keeps(5) [OF nxt [unfolded ev]] by auto
      then have top_j: "(job_key j, job_status j) \<in> set topic"
        using top by (auto simp: topic_ok_def results_ok_def intro: last_on_mem)
      have "entry m (job_key j) (job_id j) (job_status j)" using en j(1) by (auto simp: entry_def)
      with pend j(2) have "(cf, job_key j, job_status j) \<in> set commands" unfolding pending_ok_def by blast
      with top_j show ?thesis by blast
    qed
  qed
  then have "answers_ok ob'" unfolding answers_ok_def ob'_def ev by fastforce
  ultimately show ?thesis by simp
qed

lemma reach_answers_ok:
  assumes "service_laws js ops view" and "reach (observed_start ops h) (observed_step pb js ch ops) ob"
  shows "commands_pending pb ob \<and> answers_ok ob"
  using assms
proof (induction rule: observed_induct)
  case start
  then show ?case
    by (auto simp: commands_pending_def answers_ok_def observed_start_state_def runtime_start_def pending_ok_def
        simulates_def)
next
  case (turn m s topic commands ev t)
  from reach_topic_ok [OF assms(1) turn(6)] have "topic_ok h topic s" by simp
  from commands_turn [OF assms(1) turn(1-5) this] turn(7) show ?case by blast
qed

text \<open>A job of the alarm is in the service as long as its commit is pending.\<close>

lemma pending_job:
  assumes "pipe_ok view s" "commit_pending k s"
  shows "\<exists>j\<in>#pipe_jobs s. job_key j = k"
proof (cases "k \<in> success_results s")
  case True
  obtain j where "j \<in># tracked_jobs (sv_workflow s)" "job_key j = k"
    by (rule waiting_job [OF assms(1) success_awaiting [OF assms(1) True]])
  then show ?thesis by (auto simp: pipe_jobs_def)
next
  case False
  then obtain j where "job_key j = k" "Committed j \<in> set (sv_outcome_q s)" using assms(2) by (auto simp: commit_pending_def)
  moreover from this have "j \<in> set (outcome_jobs (sv_outcome_q s))" by (force simp: outcome_jobs_def)
  ultimately show ?thesis by (auto simp: pipe_jobs_def)
qed

lemma confirmed_without_job:
  assumes "service_laws js ops view" and "reach (observed_start ops h) (observed_step pb js ch ops) ob"
    and "\<forall>j\<in>#pipe_jobs (ob_service ob). job_key j \<noteq> k"
  shows "map_option fst (hm_get (confirmed_state (sv_coord (ob_service ob))) k) =
    (case last_on (ob_topic ob) k of Some st \<Rightarrow> Some st | None \<Rightarrow> hm_get h k)"
proof -
  from reach_service_rel [OF assms(1) reach_observed_service [OF assms(2)]] obtain m where
    "pipe_ok view (ob_service ob)" by blast
  with pending_job [of view "ob_service ob" k] assms(3) have "\<not> commit_pending k (ob_service ob)" by blast
  with reach_topic_ok [OF assms(1,2)] show ?thesis by (simp add: topic_ok_def confirmed_ok_def)
qed

text \<open>
  C4: the coordinator knows what is on the topic. In every state the running service can reach,
  an alarm without a job in the service is confirmed with the last status the publisher has
  accepted for it in this run, and if there is none, with what was restored at startup. So the
  snapshot that operators see agrees with the topic, whatever failed, was retried, superseded
  or rolled back.
\<close>

theorem confirmed_is_last_on_topic:
  assumes "service_laws js ops view" and "reach (observed_start ops h) (observed_step pb js ch ops) ob"
    and "\<forall>j\<in>#pipe_jobs (ob_service ob). job_key j \<noteq> k"
  shows "map_option fst (hm_get (confirmed_state (sv_coord (ob_service ob))) k) =
    (case last_on (ob_topic ob) k of Some st \<Rightarrow> Some st | None \<Rightarrow> hm_get h k)"
  using confirmed_without_job [OF assms] .

text \<open>
  An operator is told the truth. When the service has answered a command with success, the
  very status that this command asked for, for its alarm, was accepted by the publisher.
\<close>

theorem success_is_on_topic:
  assumes "service_laws js ops view" and "reach (observed_start ops h) (observed_step pb js ch ops) ob"
    and "(cf, Inr ()) \<in> set (sv_answers (ob_service ob))"
  shows "\<exists>k st. (cf, k, st) \<in> set (ob_commands ob) \<and> (k, st) \<in> set (ob_topic ob)"
  using reach_answers_ok [OF assms(1,2)] assms(3) by (simp add: answers_ok_def)

section \<open>A committed command\<close>

fun observed_events ::
  "proto \<Rightarrow> serializer \<Rightarrow> chrono_ops \<Rightarrow> ('q, 'h) delay_ops \<Rightarrow> service_event list \<Rightarrow> ('q, 'h) observed \<Rightarrow>
   ('q, 'h) observed option" where
  "observed_events pb js ch ops [] ob = Some ob"
| "observed_events pb js ch ops (ev # evs) ob =
     (if id_counter (sv_coord (ob_service ob)) = - 1 \<or> sv_panicked (ob_service ob) then None
      else Option.bind (observed_next pb js ch ops ev ob) (observed_events pb js ch ops evs))"

lemma observed_events_steps:
  "observed_events pb js ch ops evs ob = Some ob' \<Longrightarrow> (observed_step pb js ch ops)\<^sup>*\<^sup>* ob ob'"
proof (induction evs arbitrary: ob)
  case (Cons ev evs)
  then obtain ob1 where "observed_step pb js ch ops ob ob1" "observed_events pb js ch ops evs ob1 = Some ob'"
    by (auto split: Option.bind_splits if_splits intro: observed_stepI)
  with Cons.IH [of ob1] show ?case by (meson converse_rtranclp_into_rtranclp)
qed simp

text \<open>The run \<open>committed_run\<close> of \<open>Alarm_Timers\<close>, observed from the outside.\<close>

definition observed_commit :: "(sample_queue, nat) observed" where
  "observed_commit = the (observed_events sample_proto sample_json sample_chrono sample_delay committed_run
     (observed_start_state sample_delay hm_new))"

lemma committed_run_observed:
  "case observed_events sample_proto sample_json sample_chrono sample_delay committed_run
     (observed_start_state sample_delay hm_new) of
     None \<Rightarrow> False
   | Some ob \<Rightarrow> sv_job_q (ob_service ob) = [] \<and> sv_workflow (ob_service ob) = [] \<and> sv_outcome_q (ob_service ob) = [] \<and>
       sv_answers (ob_service ob) = [(7, Inr ())] \<and> ob_topic ob = [(demo_key, snooze_status)] \<and>
       ob_commands ob = [(7, demo_key, snooze_status)] \<and>
       hm_get (confirmed_state (sv_coord (ob_service ob))) demo_key = Some (snooze_status, 1)"
  by code_simp

lemma observed_commit_ok:
  "observed_events sample_proto sample_json sample_chrono sample_delay committed_run
     (observed_start_state sample_delay hm_new) = Some observed_commit"
  using committed_run_observed by (auto simp: observed_commit_def split: option.splits)

lemma observed_commit_simps:
  "pipe_jobs (ob_service observed_commit) = {#}" "sv_answers (ob_service observed_commit) = [(7, Inr ())]"
  "ob_topic observed_commit = [(demo_key, snooze_status)]" "ob_commands observed_commit = [(7, demo_key, snooze_status)]"
  "hm_get (confirmed_state (sv_coord (ob_service observed_commit))) demo_key = Some (snooze_status, 1)"
  using committed_run_observed unfolding observed_commit_ok by (simp_all add: pipe_jobs_def tracked_jobs_def)

lemma reach_observed_commit:
  "reach (observed_start sample_delay hm_new) (observed_step sample_proto sample_json sample_chrono sample_delay)
     observed_commit"
  by (rule reach_steps [OF reach_init observed_events_steps [OF observed_commit_ok]]) (simp add: observed_start_def)

theorem confirmed_is_last_on_topic_witness:
  "map_option fst (hm_get (confirmed_state (sv_coord (ob_service observed_commit))) demo_key) =
     (case last_on (ob_topic observed_commit) demo_key of Some st \<Rightarrow> Some st | None \<Rightarrow> None) \<and>
   last_on (ob_topic observed_commit) demo_key = Some snooze_status"
  using confirmed_is_last_on_topic [OF sample_service_laws reach_observed_commit, of demo_key]
  by (simp add: observed_commit_simps last_on_def hm_get_def)

theorem success_is_on_topic_witness:
  "\<exists>k st. (7, k, st) \<in> set (ob_commands observed_commit) \<and> (k, st) \<in> set (ob_topic observed_commit)"
  using success_is_on_topic [OF sample_service_laws reach_observed_commit, of 7]
  by (simp add: observed_commit_simps)

end
