(* ===== verification/Alarm_Backpressure.thy ===== *)
theory Alarm_Backpressure
  imports Alarm_System
begin

text \<open>
  The service with its bounded channels (\<open>src/runtime.rs\<close>). The channels between the tasks
  have the configured capacities, and a task whose send finds the channel full waits, in the
  middle of its turn, until the receiver has taken a message. A turn therefore leaves its
  messages in an outbox; the task sends them one by one, and takes its next event only when the
  outbox is empty. What a handler changes after a send is seen by no other task, so that the
  turn itself is one step.

  The bounded service refines the unbounded one of \<open>Alarm_System\<close>, which carries the
  safety theorems over. It can however stop: the coordinator waits for room in the job channel
  while the workflow handler waits for room in the outcome channel, which only the coordinator
  empties. This cannot happen while the jobs in the service fit into the job channel.
\<close>

section \<open>Outboxes\<close>

record ('q, 'h) bounded =
  b_service :: "('q, 'h) service"
  b_coord_out :: "job list"
  b_workflow_out :: "workflow_effect list"
  b_snooze_out :: "snooze_outcome list"
  b_publish_out :: "publish_outcome list"

datatype bounded_event =
  Take service_event
| Send_Job
| Send_Workflow
| Send_Snooze
| Send_Publish

definition bounded_start_state :: "('q, 'h) delay_ops \<Rightarrow> hydrated_statuses \<Rightarrow> ('q, 'h) bounded" where
  "bounded_start_state ops h = \<lparr>b_service = runtime_start ops h, b_coord_out = [], b_workflow_out = [],
     b_snooze_out = [], b_publish_out = []\<rparr>"

fun is_metric :: "workflow_effect \<Rightarrow> bool" where
  "is_metric (Workflow_Metric e) = True"
| "is_metric _ = False"

definition take_workflow ::
  "workflow_out \<Rightarrow> ('q, 'h) service \<Rightarrow> ('q, 'h) bounded \<Rightarrow> ('q, 'h) bounded" where
  "take_workflow out s b = (case out of
     None \<Rightarrow> b\<lparr>b_service := s\<lparr>sv_panicked := True\<rparr>\<rparr>
   | Some (w, es) \<Rightarrow> b\<lparr>b_service := s\<lparr>sv_workflow := w\<rparr>,
       b_workflow_out := filter (\<lambda>e. \<not> is_metric e) es\<rparr>)"

definition take_snooze ::
  "(('q, 'h) scheduler \<times> snooze_outcome list) option \<Rightarrow> ('q, 'h) service \<Rightarrow> ('q, 'h) bounded \<Rightarrow>
   ('q, 'h) bounded" where
  "take_snooze out s b = (case out of
     None \<Rightarrow> b\<lparr>b_service := s\<lparr>sv_panicked := True\<rparr>\<rparr>
   | Some (sc, rs) \<Rightarrow> b\<lparr>b_service := s\<lparr>sv_snooze := sc\<rparr>, b_snooze_out := rs\<rparr>)"

definition take_publish ::
  "(publish_engine \<times> publish_effect list) option \<Rightarrow> ('q, 'h) service \<Rightarrow> ('q, 'h) bounded \<Rightarrow>
   ('q, 'h) bounded" where
  "take_publish out s b = (case out of
     None \<Rightarrow> b\<lparr>b_service := s\<lparr>sv_panicked := True\<rparr>\<rparr>
   | Some (e, es) \<Rightarrow> b\<lparr>b_service := s\<lparr>sv_publish := e\<rparr>, b_publish_out := sent_outcomes es\<rparr>)"

definition take_coord ::
  "coordinator \<times> coord_effect list \<times> bool \<Rightarrow> ('q, 'h) service \<Rightarrow> ('q, 'h) bounded \<Rightarrow> ('q, 'h) bounded" where
  "take_coord out s b = (case out of (c, es, running) \<Rightarrow>
     b\<lparr>b_service := s\<lparr>sv_coord := c, sv_running := running,
         sv_answers := sv_answers s @ sent_answers es\<rparr>,
       b_coord_out := sent_jobs es\<rparr>)"

text \<open>A task takes its next event when it has sent everything of its last turn.\<close>

fun bounded_take ::
  "proto \<Rightarrow> serializer \<Rightarrow> chrono_ops \<Rightarrow> ('q, 'h) delay_ops \<Rightarrow> service_event \<Rightarrow> ('q, 'h) bounded \<Rightarrow>
   ('q, 'h) bounded option" where
  "bounded_take pb js ch ops (Coordinator_Turn now ev) b =
     (let s = b_service b in
      if sv_running s \<and> b_coord_out b = [] then
        map_option (\<lambda>s1. take_coord (coord_turn pb now True (sv_coord s) ev) s1 b) (coord_takes ev s)
      else None)"
| "bounded_take pb js ch ops Workflow_Publish b =
     (let s = b_service b in
      if b_workflow_out b \<noteq> [] then None
      else case sv_publish_out s of
        [] \<Rightarrow> None
      | r # q \<Rightarrow> Some (take_workflow (workflow_turn all_open (sv_workflow s) (Got_Publish r))
                       (s\<lparr>sv_publish_out := q\<rparr>) b))"
| "bounded_take pb js ch ops Workflow_Snooze b =
     (let s = b_service b in
      if b_workflow_out b \<noteq> [] then None
      else case sv_snooze_out s of
        [] \<Rightarrow> None
      | r # q \<Rightarrow> Some (take_workflow (workflow_turn all_open (sv_workflow s) (Got_Snooze r))
                       (s\<lparr>sv_snooze_out := q\<rparr>) b))"
| "bounded_take pb js ch ops Workflow_Job b =
     (let s = b_service b in
      if b_workflow_out b \<noteq> [] then None
      else case sv_job_q s of
        [] \<Rightarrow> None
      | j # q \<Rightarrow> Some (take_workflow (workflow_turn all_open (sv_workflow s) (Got_Job j))
                       (s\<lparr>sv_job_q := q\<rparr>) b))"
| "bounded_take pb js ch ops (Snooze_Turn clk) b =
     (let s = b_service b in
      if b_snooze_out b \<noteq> [] then None
      else case sv_snooze_q s of
        [] \<Rightarrow> None
      | i # q \<Rightarrow> Some (take_snooze (snooze_replies ch ops (Snooze_Command clk i) (sv_snooze s))
                       (s\<lparr>sv_snooze_q := q\<rparr>) b))"
| "bounded_take pb js ch ops (Timer_Poll now) b =
     (let s = b_service b in
      if b_snooze_out b \<noteq> [] then None
      else Some (take_snooze (snooze_replies ch ops (Queue_Polled now) (sv_snooze s)) s b))"
| "bounded_take pb js ch ops Publish_Take b =
     (let s = b_service b in
      if b_publish_out b \<noteq> [] then None
      else case sv_publish_q s of
        [] \<Rightarrow> None
      | p # q \<Rightarrow> Some (take_publish (publish_turn js True (Got_Request p) (sv_publish s))
                       (s\<lparr>sv_publish_q := q\<rparr>) b))"
| "bounded_take pb js ch ops (Publish_Event ev) b =
     (let s = b_service b in
      if b_publish_out b \<noteq> [] then None
      else case ev of
        Got_Request p \<Rightarrow> None
      | _ \<Rightarrow> Some (take_publish (publish_turn js True ev (sv_publish s)) s b))"

text \<open>A send completes when its channel has room.\<close>

definition room :: "usize \<Rightarrow> 'a list \<Rightarrow> bool" where
  "room cap q \<longleftrightarrow> length q < unat cap"

fun bounded_send_step :: "queue_capacity_config \<Rightarrow> bounded_event \<Rightarrow> ('q, 'h) bounded \<Rightarrow> ('q, 'h) bounded option" where
  "bounded_send_step cfg Send_Job b =
     (let s = b_service b in
      case b_coord_out b of
        [] \<Rightarrow> None
      | j # js \<Rightarrow> if room (cap_job cfg) (sv_job_q s)
          then Some (b\<lparr>b_service := s\<lparr>sv_job_q := sv_job_q s @ [j]\<rparr>, b_coord_out := js\<rparr>) else None)"
| "bounded_send_step cfg Send_Workflow b =
     (let s = b_service b in
      case b_workflow_out b of
        [] \<Rightarrow> None
      | To_Coordinator r # es \<Rightarrow> if room (cap_job cfg) (sv_outcome_q s)
          then Some (b\<lparr>b_service := s\<lparr>sv_outcome_q := sv_outcome_q s @ [r]\<rparr>, b_workflow_out := es\<rparr>) else None
      | To_Snooze i # es \<Rightarrow> if room (cap_snooze cfg) (sv_snooze_q s)
          then Some (b\<lparr>b_service := s\<lparr>sv_snooze_q := sv_snooze_q s @ [i]\<rparr>, b_workflow_out := es\<rparr>) else None
      | To_Publish p # es \<Rightarrow> if room (cap_publish cfg) (sv_publish_q s)
          then Some (b\<lparr>b_service := s\<lparr>sv_publish_q := sv_publish_q s @ [p]\<rparr>, b_workflow_out := es\<rparr>) else None
      | Workflow_Metric _ # es \<Rightarrow> Some (b\<lparr>b_workflow_out := es\<rparr>))"
| "bounded_send_step cfg Send_Snooze b =
     (let s = b_service b in
      case b_snooze_out b of
        [] \<Rightarrow> None
      | r # rs \<Rightarrow> if room (cap_snooze cfg) (sv_snooze_out s)
          then Some (b\<lparr>b_service := s\<lparr>sv_snooze_out := sv_snooze_out s @ [r]\<rparr>, b_snooze_out := rs\<rparr>) else None)"
| "bounded_send_step cfg Send_Publish b =
     (let s = b_service b in
      case b_publish_out b of
        [] \<Rightarrow> None
      | r # rs \<Rightarrow> if room (cap_publish cfg) (sv_publish_out s)
          then Some (b\<lparr>b_service := s\<lparr>sv_publish_out := sv_publish_out s @ [r]\<rparr>, b_publish_out := rs\<rparr>) else None)"
| "bounded_send_step cfg (Take ev) b = None"

fun bounded_next ::
  "proto \<Rightarrow> serializer \<Rightarrow> chrono_ops \<Rightarrow> ('q, 'h) delay_ops \<Rightarrow> queue_capacity_config \<Rightarrow> bounded_event \<Rightarrow>
   ('q, 'h) bounded \<Rightarrow> ('q, 'h) bounded option" where
  "bounded_next pb js ch ops cfg (Take ev) b = bounded_take pb js ch ops ev b"
| "bounded_next pb js ch ops cfg ev b = bounded_send_step cfg ev b"

inductive bounded_step ::
  "proto \<Rightarrow> serializer \<Rightarrow> chrono_ops \<Rightarrow> ('q, 'h) delay_ops \<Rightarrow> queue_capacity_config \<Rightarrow>
   ('q, 'h) bounded \<Rightarrow> ('q, 'h) bounded \<Rightarrow> bool"
  for pb js ch ops cfg where
  bounded_stepI: "id_counter (sv_coord (b_service b)) \<noteq> - 1 \<Longrightarrow> \<not> sv_panicked (b_service b) \<Longrightarrow>
     bounded_next pb js ch ops cfg ev b = Some b' \<Longrightarrow> bounded_step pb js ch ops cfg b b'"

inductive_cases bounded_stepE: "bounded_step pb js ch ops cfg b b'"

definition bounded_start :: "('q, 'h) delay_ops \<Rightarrow> ('q, 'h) bounded \<Rightarrow> bool" where
  "bounded_start ops b \<longleftrightarrow> (\<exists>h. hm_wf h \<and> b = bounded_start_state ops h)"

section \<open>The bounded service refines the unbounded one\<close>

text \<open>Each outbox is the end of the queue it will be sent to.\<close>

definition unbound :: "('q, 'h) bounded \<Rightarrow> ('q, 'h) service" where
  "unbound b = (let s = b_service b in s\<lparr>
     sv_job_q := sv_job_q s @ b_coord_out b,
     sv_outcome_q := sv_outcome_q s @ outcomes_of (b_workflow_out b),
     sv_snooze_q := sv_snooze_q s @ snoozes_of (b_workflow_out b),
     sv_publish_q := sv_publish_q s @ publishes_of (b_workflow_out b),
     sv_snooze_out := sv_snooze_out s @ b_snooze_out b,
     sv_publish_out := sv_publish_out s @ b_publish_out b\<rparr>)"

lemma sent_no_metric [simp]:
  "outcomes_of (filter (\<lambda>e. \<not> is_metric e) es) = outcomes_of es"
  "snoozes_of (filter (\<lambda>e. \<not> is_metric e) es) = snoozes_of es"
  "publishes_of (filter (\<lambda>e. \<not> is_metric e) es) = publishes_of es"
proof -
  have "outcomes_of (filter (\<lambda>e. \<not> is_metric e) es) = outcomes_of es \<and>
    snoozes_of (filter (\<lambda>e. \<not> is_metric e) es) = snoozes_of es \<and>
    publishes_of (filter (\<lambda>e. \<not> is_metric e) es) = publishes_of es"
  proof (induction es)
    case (Cons e es)
    then show ?case by (cases e) simp_all
  qed simp
  then show "outcomes_of (filter (\<lambda>e. \<not> is_metric e) es) = outcomes_of es"
    "snoozes_of (filter (\<lambda>e. \<not> is_metric e) es) = snoozes_of es"
    "publishes_of (filter (\<lambda>e. \<not> is_metric e) es) = publishes_of es" by simp_all
qed

lemma unbound_simps [simp]:
  "sv_coord (unbound b) = sv_coord (b_service b)" "sv_running (unbound b) = sv_running (b_service b)"
  "sv_panicked (unbound b) = sv_panicked (b_service b)" "sv_answers (unbound b) = sv_answers (b_service b)"
  "sv_workflow (unbound b) = sv_workflow (b_service b)" "sv_snooze (unbound b) = sv_snooze (b_service b)"
  "sv_publish (unbound b) = sv_publish (b_service b)"
  "sv_job_q (unbound b) = sv_job_q (b_service b) @ b_coord_out b"
  "sv_outcome_q (unbound b) = sv_outcome_q (b_service b) @ outcomes_of (b_workflow_out b)"
  "sv_snooze_q (unbound b) = sv_snooze_q (b_service b) @ snoozes_of (b_workflow_out b)"
  "sv_publish_q (unbound b) = sv_publish_q (b_service b) @ publishes_of (b_workflow_out b)"
  "sv_snooze_out (unbound b) = sv_snooze_out (b_service b) @ b_snooze_out b"
  "sv_publish_out (unbound b) = sv_publish_out (b_service b) @ b_publish_out b"
  by (simp_all add: unbound_def Let_def)

lemma send_stutters: "bounded_send_step cfg ev b = Some b' \<Longrightarrow> unbound b' = unbound b"
  by (cases ev) (auto simp: unbound_def Let_def split: list.splits if_splits workflow_effect.splits)

lemma take_coordinator_simulates:
  assumes "bounded_take pb js ch ops (Coordinator_Turn now ev) b = Some b'"
  shows "service_next pb js ch ops (Coordinator_Turn now ev) (unbound b) = Some (unbound b')"
proof -
  obtain c es r where turn: "coord_turn pb now True (sv_coord (b_service b)) ev = (c, es, r)"
    by (metis prod_cases3)
  show ?thesis
    using assms turn
    by (cases ev) (auto simp: Let_def take_coord_def after_coord_def unbound_def
        split: if_splits list.splits)
qed

lemma take_simulates:
  assumes "bounded_take pb js ch ops ev b = Some b'"
  shows "service_next pb js ch ops ev (unbound b) = Some (unbound b')"
proof (cases ev)
  case (Coordinator_Turn now cev)
  with assms take_coordinator_simulates show ?thesis by blast
next
  case (Publish_Event pe)
  with assms show ?thesis
    by (cases pe) (auto simp: Let_def take_publish_def after_publish_def unbound_def
        simp del: publish_turn.simps split: if_splits list.splits option.splits)
qed (use assms in \<open>auto simp: Let_def take_workflow_def after_workflow_def take_snooze_def after_snooze_def
    take_publish_def after_publish_def unbound_def simp del: publish_turn.simps workflow_turn.simps
    split: if_splits list.splits option.splits\<close>)

lemma bounded_simulates:
  assumes "bounded_step pb js ch ops cfg b b'"
  shows "unbound b' = unbound b \<or> service_step pb js ch ops (unbound b) (unbound b')"
  using assms
proof (rule bounded_stepE)
  fix ev assume run: "id_counter (sv_coord (b_service b)) \<noteq> - 1" "\<not> sv_panicked (b_service b)"
    and nxt: "bounded_next pb js ch ops cfg ev b = Some b'"
  show ?thesis
  proof (cases "\<exists>e. ev = Take e")
    case True
    then obtain e where "ev = Take e" by blast
    with nxt take_simulates [of pb js ch ops e b b'] run show ?thesis
      by (auto intro!: service_stepI)
  next
    case False
    then have "bounded_send_step cfg ev b = Some b'" using nxt by (cases ev) auto
    from send_stutters [OF this] show ?thesis by simp
  qed
qed

interpretation bounded: stuttering_simulation "bounded_start ops" "bounded_step pb js ch ops cfg"
    "service_start ops" "service_step pb js ch ops" "\<lambda>b s. s = unbound b" for pb js ch ops cfg
proof (unfold_locales, goal_cases)
  case (1 b)
  then obtain h where "hm_wf h" "b = bounded_start_state ops h" by (auto simp: bounded_start_def)
  then have "service_start ops (unbound b)"
    by (auto simp: service_start_def bounded_start_state_def unbound_def runtime_start_def)
  then show ?case by blast
next
  case (2 s b b')
  then show ?case using bounded_simulates [of pb js ch ops cfg b b'] by auto
qed

lemma reach_bounded_service:
  "reach (bounded_start ops) (bounded_step pb js ch ops cfg) b \<Longrightarrow>
     reach (service_start ops) (service_step pb js ch ops) (unbound b)"
  using bounded.reach_matched by blast

text \<open>
  C16: waiting for room changes no outcome. Every reachable state of the service with bounded
  channels is a reachable state of the unbounded service once the messages that wait to be sent
  are put behind those in their channel; so no task panics with bounded channels either, and the
  coordinator's caches and the answers given to users are those of a run without waiting.
\<close>

theorem bounded_refines_service:
  assumes "service_laws js ops view" and "reach (bounded_start ops) (bounded_step pb js ch ops cfg) b"
  shows "reach (service_start ops) (service_step pb js ch ops) (unbound b) \<and>
    \<not> sv_panicked (b_service b) \<and> sv_running (b_service b) \<and>
    (\<exists>m. reach cm_start (cm_step pb) m \<and> cm_coord m = sv_coord (b_service b) \<and>
       cm_answers m = sv_answers (b_service b))"
proof -
  note r = reach_bounded_service [OF assms(2)]
  show ?thesis
  proof (rule reach_service_rel [OF assms(1) r])
    fix m assume m: "reach cm_start (cm_step pb) m" "cm_inv pb m" "pipe_ok view (unbound b)" "simulates (unbound b) m"
    then have "\<not> sv_panicked (b_service b)" "sv_running (b_service b)"
      by (simp_all add: pipe_ok_def simulates_def cm_inv_def)
    with r m(1,4) show ?thesis by (auto simp: simulates_def)
  qed
qed

section \<open>Deadlock\<close>

text \<open>
  The coordinator waits for the job channel, the workflow handler for the outcome channel.
\<close>

definition deadlocked :: "queue_capacity_config \<Rightarrow> ('q, 'h) bounded \<Rightarrow> bool" where
  "deadlocked cfg b \<longleftrightarrow>
     b_coord_out b \<noteq> [] \<and> \<not> room (cap_job cfg) (sv_job_q (b_service b)) \<and>
     (case b_workflow_out b of To_Coordinator r # es \<Rightarrow> True | _ \<Rightarrow> False) \<and>
     \<not> room (cap_job cfg) (sv_outcome_q (b_service b))"

definition stuck_part :: "('q, 'h) bounded \<Rightarrow>
    coordinator \<times> (confirmation \<times> (update_error + unit)) list \<times> workflow_handler \<times> job list \<times>
    job_outcome list \<times> job list \<times> workflow_effect list" where
  "stuck_part b = (let s = b_service b in
     (sv_coord s, sv_answers s, sv_workflow s, sv_job_q s, sv_outcome_q s, b_coord_out b, b_workflow_out b))"

lemma deadlock_step:
  assumes "deadlocked cfg b" and "bounded_next pb js ch ops cfg ev b = Some b'"
  shows "stuck_part b' = stuck_part b"
proof (cases ev)
  case (Take e)
  then show ?thesis
    using assms
    by (cases e) (auto simp: deadlocked_def stuck_part_def Let_def take_snooze_def take_publish_def
        simp del: publish_turn.simps
        split: list.splits if_splits option.splits publish_event.splits)
qed (use assms in \<open>auto simp: deadlocked_def stuck_part_def Let_def
    split: list.splits if_splits workflow_effect.splits\<close>)

lemma deadlocked_stuck: "stuck_part b' = stuck_part b \<Longrightarrow> deadlocked cfg b' = deadlocked cfg b"
  by (simp add: stuck_part_def deadlocked_def Let_def)

text \<open>
  C24: a deadlock of the bounded channels is permanent. When the coordinator waits to send a job
  into the full job channel and the workflow handler waits to send an outcome into the full
  outcome channel, then in every later state both still wait: the coordinator takes no input, no
  user is answered, and no job is finished again.
\<close>

theorem deadlock_forever:
  assumes "deadlocked cfg b" and "(bounded_step pb js ch ops cfg)\<^sup>*\<^sup>* b b'"
  shows "deadlocked cfg b' \<and> sv_coord (b_service b') = sv_coord (b_service b) \<and>
    sv_answers (b_service b') = sv_answers (b_service b) \<and>
    sv_workflow (b_service b') = sv_workflow (b_service b) \<and>
    bounded_next pb js ch ops cfg Send_Job b' = None \<and>
    bounded_next pb js ch ops cfg Send_Workflow b' = None \<and>
    (\<forall>now ev. bounded_next pb js ch ops cfg (Take (Coordinator_Turn now ev)) b' = None)"
proof -
  from assms(2) have "stuck_part b' = stuck_part b \<and> deadlocked cfg b'"
  proof (induction rule: rtranclp_induct)
    case base
    then show ?case using assms(1) by simp
  next
    case (step y z)
    from step(2) obtain ev where "bounded_next pb js ch ops cfg ev y = Some z"
      by (auto elim: bounded_stepE)
    from deadlock_step [OF _ this] step(3) have "stuck_part z = stuck_part y" by blast
    with step(3) deadlocked_stuck [OF this] show ?case by simp
  qed
  then show ?thesis
    by (auto simp: stuck_part_def Let_def deadlocked_def split: list.splits workflow_effect.splits)
qed

text \<open>
  The coordinator never waits for good while the alarms are few. If the jobs in the service
  are for at most as many alarms as the job channel has places, a coordinator with a job
  to send can send it, so that the deadlock cannot occur.
\<close>

theorem few_alarms_no_deadlock:
  assumes laws: "service_laws js ops view"
    and r: "reach (bounded_start ops) (bounded_step pb js ch ops cfg) b"
    and keys: "finite K" "job_key ` set_mset (pipe_jobs (unbound b)) \<subseteq> K" "card K \<le> unat (cap_job cfg)"
  shows "(b_coord_out b \<noteq> [] \<longrightarrow> (\<exists>b'. bounded_next pb js ch ops cfg Send_Job b = Some b')) \<and> \<not> deadlocked cfg b"
proof (rule reach_service_rel [OF laws reach_bounded_service [OF r]])
  fix m assume m: "cm_inv pb m" "simulates (unbound b) m"
  have d: "distinct (map job_key (cm_jobs m))" using m(1) by (simp add: cm_inv_def inv_flight_def)
  have "set (map job_key (cm_jobs m)) = job_key ` set_mset (mset (cm_jobs m))" by simp
  also have "\<dots> \<subseteq> K" using keys(2) m(2) by (simp only: simulates_def)
  finally have "length (cm_jobs m) \<le> card K"
    using card_mono [OF keys(1)] distinct_card [OF d] by (metis length_map)
  moreover have "length (cm_jobs m) = size (pipe_jobs (unbound b))"
    using m(2) by (metis simulates_def size_mset)
  ultimately have "length (sv_job_q (b_service b)) + length (b_coord_out b) \<le> unat (cap_job cfg)"
    using keys(3) by (simp add: pipe_jobs_def)
  then show ?thesis
    by (cases "b_coord_out b") (auto simp: room_def deadlocked_def Let_def)
qed

section \<open>A run into the deadlock\<close>

fun bounded_events ::
  "proto \<Rightarrow> serializer \<Rightarrow> chrono_ops \<Rightarrow> ('q, 'h) delay_ops \<Rightarrow> queue_capacity_config \<Rightarrow> bounded_event list \<Rightarrow>
   ('q, 'h) bounded \<Rightarrow> ('q, 'h) bounded option" where
  "bounded_events pb js ch ops cfg [] b = Some b"
| "bounded_events pb js ch ops cfg (ev # evs) b =
     (if id_counter (sv_coord (b_service b)) = - 1 \<or> sv_panicked (b_service b) then None
      else Option.bind (bounded_next pb js ch ops cfg ev b) (bounded_events pb js ch ops cfg evs))"

lemma bounded_events_steps:
  "bounded_events pb js ch ops cfg evs b = Some b' \<Longrightarrow> (bounded_step pb js ch ops cfg)\<^sup>*\<^sup>* b b'"
proof (induction evs arbitrary: b)
  case (Cons ev evs)
  then obtain u where "bounded_step pb js ch ops cfg b u" "bounded_events pb js ch ops cfg evs u = Some b'"
    by (auto split: Option.bind_splits if_splits intro: bounded_stepI)
  with Cons.IH [of u] show ?case by (meson converse_rtranclp_into_rtranclp)
qed simp

text \<open>
  A job channel with one place and four alarms: two jobs have been published and are reported
  together while the coordinator has filled the job channel and waits with the fourth job.
\<close>

definition small_config :: queue_capacity_config where
  "small_config = \<lparr>cap_automated = 8, cap_user = 8, cap_job = 1, cap_publish = 8, cap_snooze = 8\<rparr>"

definition alarm_update :: "string \<Rightarrow> bounded_event" where
  "alarm_update d = Take (Coordinator_Turn 0 (On_Automated (AutomatedUpdate (sample_status d Alarmed High Analog))))"

definition to_publisher :: "string \<Rightarrow> bounded_event list" where
  "to_publisher d = [alarm_update d, Send_Job, Take Workflow_Job, Send_Workflow,
     Take (Snooze_Turn sample_clocks), Send_Snooze, Take Workflow_Snooze, Send_Workflow, Take Publish_Take]"

definition jam_run :: "bounded_event list" where
  "jam_run = to_publisher ''A'' @ to_publisher ''B'' @
     [Take (Publish_Event (Attempt_Polled 0 1)), Take (Publish_Event (Attempt_Answered 0 True 2)),
      Take (Publish_Event (Attempt_Polled 0 3)), Take (Publish_Event (Attempt_Answered 0 True 4)),
      Take (Publish_Event Flush_Tick), Send_Publish,
      alarm_update ''C'', Send_Job, alarm_update ''D'', Take Workflow_Publish, Send_Workflow]"

definition jam :: "(sample_queue, nat) bounded" where
  "jam = the (bounded_events sample_proto sample_json sample_chrono sample_delay small_config jam_run
     (bounded_start_state sample_delay hm_new))"

lemma jam_evaluated:
  "case bounded_events sample_proto sample_json sample_chrono sample_delay small_config jam_run
     (bounded_start_state sample_delay hm_new) of
     None \<Rightarrow> False | Some b \<Rightarrow> deadlocked small_config b"
  by code_simp

lemma jam_ok:
  "bounded_events sample_proto sample_json sample_chrono sample_delay small_config jam_run
     (bounded_start_state sample_delay hm_new) = Some jam" "deadlocked small_config jam"
  using jam_evaluated by (auto simp: jam_def split: option.splits)

lemma reach_jam:
  "reach (bounded_start sample_delay)
     (bounded_step sample_proto sample_json sample_chrono sample_delay small_config) jam"
  by (rule reach_steps [OF reach_init bounded_events_steps [OF jam_ok(1)]])
    (auto simp: bounded_start_def)

theorem bounded_refines_service_witness:
  "\<not> sv_panicked (b_service jam) \<and> sv_running (b_service jam)"
  using bounded_refines_service [OF sample_service_laws reach_jam] by blast

theorem deadlock_forever_witness:
  "reach (bounded_start sample_delay)
     (bounded_step sample_proto sample_json sample_chrono sample_delay small_config) jam \<and>
   bounded_next sample_proto sample_json sample_chrono sample_delay small_config Send_Job jam = None \<and>
   bounded_next sample_proto sample_json sample_chrono sample_delay small_config Send_Workflow jam = None"
  using deadlock_forever [OF jam_ok(2), of sample_proto sample_json sample_chrono sample_delay jam] reach_jam
  by blast

theorem few_alarms_no_deadlock_witness:
  "\<not> deadlocked small_config (bounded_start_state sample_delay hm_new :: (sample_queue, nat) bounded)"
proof -
  let ?b = "bounded_start_state sample_delay hm_new"
  have r: "reach (bounded_start sample_delay)
      (bounded_step sample_proto sample_json sample_chrono sample_delay small_config) ?b"
    by (rule reach_init) (auto simp: bounded_start_def)
  have "job_key ` set_mset (pipe_jobs (unbound ?b)) \<subseteq> {}"
    by (simp add: bounded_start_state_def pipe_jobs_def unbound_def runtime_start_def workflow_ok_new)
  from few_alarms_no_deadlock [OF sample_service_laws r _ this] show ?thesis by simp
qed

end
