(* ===== verification/Alarm_Main.thy ===== *)
theory Alarm_Main
  imports Alarm_Backpressure
begin

text \<open>
  The process (\<open>src/main.rs\<close>): startup from the environment and the two hydration sources,
  the loop that keeps a Redis reader running, and the periodic snapshot of the metrics. Creating
  a bounded channel panics on a capacity of zero or above tokio's limit, and starting a ticker
  panics on a period of zero; both are the value \<open>None\<close>. A process that has started is one
  of the services of \<open>Alarm_Backpressure\<close>, so that what is shown there holds of it.
\<close>

section \<open>Startup\<close>

text \<open>\<open>Semaphore::MAX_PERMITS\<close> is \<open>usize::MAX >> 3\<close>.\<close>

definition mpsc_capacity_ok :: "usize \<Rightarrow> bool" where
  "mpsc_capacity_ok n \<longleftrightarrow> 0 < n \<and> n \<le> drop_bit 3 (- 1)"

definition capacities_ok :: "queue_capacity_config \<Rightarrow> bool" where
  "capacities_ok cfg \<longleftrightarrow> mpsc_capacity_ok (cap_automated cfg) \<and> mpsc_capacity_ok (cap_user cfg) \<and>
     mpsc_capacity_ok (cap_job cfg) \<and> mpsc_capacity_ok (cap_publish cfg) \<and> mpsc_capacity_ok (cap_snooze cfg)"

text \<open>The handles for the adapters; the user handle is known by the capacity of its queue.\<close>

record 'r alarm_state_ingress =
  automated_tx :: "'r ingress"
  user_tx_capacity :: nat
  ingress_metrics :: metrics

definition start_tasks ::
  "'r ring_ops \<Rightarrow> ('q, 'h) delay_ops \<Rightarrow> queue_capacity_config \<Rightarrow> hydrated_statuses \<Rightarrow>
   (('q, 'h) bounded \<times> 'r alarm_state_ingress) option" where
  "start_tasks ring ops queue_config hydrated_statuses =
     (let metrics = metrics_new queue_config in
      if capacities_ok queue_config
      then Some (bounded_start_state ops hydrated_statuses,
        \<lparr>automated_tx = ingress_new ring (unat (cap_automated queue_config)),
         user_tx_capacity = unat (cap_user queue_config), ingress_metrics = metrics\<rparr>)
      else None)"

record ('r, 'q, 'h) process =
  pr_tasks :: "('q, 'h) bounded"
  pr_ingress :: "'r alarm_state_ingress"
  pr_publisher :: "string \<times> string"
  pr_queues :: queue_capacity_config
  pr_metrics_interval :: duration

definition main_start ::
  "proto \<Rightarrow> deserializer \<Rightarrow> ('c, 'ts, 'te) aeolus_client \<Rightarrow> (string \<Rightarrow> string \<Rightarrow> 'pe + string_message list) \<Rightarrow>
   bool \<Rightarrow> 'r ring_ops \<Rightarrow> ('q, 'h) delay_ops \<Rightarrow> (string \<Rightarrow> string option) \<Rightarrow> (string \<Rightarrow> usize option) \<Rightarrow> (string \<Rightarrow> u64 option) \<Rightarrow>
   (('ts, 'te, 'pe) hydration_error + ('r, 'q, 'h) process) option" where
  "main_start pb from_json api snapshot_get epics_first ring ops env env_usize env_u64 =
     (let kafka_host = get_kafka_host env; kafka_topic = get_kafka_topic env in
      case load_startup_hydration pb from_json api snapshot_get epics_first
             (get_aeolus_proxy_host env) kafka_host kafka_topic of
        Inl e \<Rightarrow> Some (Inl e)
      | Inr hydrated_statuses \<Rightarrow>
          (let publisher = (kafka_host, kafka_topic); queue_config = get_queue_sizes env_usize in
           map_option (\<lambda>(tasks, ingress). Inr \<lparr>pr_tasks = tasks, pr_ingress = ingress, pr_publisher = publisher,
               pr_queues = queue_config, pr_metrics_interval = get_metrics_log_interval env_u64\<rparr>)
             (start_tasks ring ops queue_config hydrated_statuses)))"

text \<open>
  \<open>main\<close> as a whole. \<open>setup_logging\<close> fails if a global subscriber is set already (the parameter
  \<open>subscriber_set\<close>, with the error of \<open>set_global_default\<close>); what \<open>main\<close> spawns runs in the
  background until the signal handler returns (\<open>ctrl_c\<close>), which ends the process with its tasks.
\<close>

datatype background =
  Metrics_Log duration
| Grpc_Server string nat
| Redis_Readers

datatype ('l, 'ts, 'te, 'pe, 'se) main_error =
  Logging_Failed 'l
| Startup_Failed "('ts, 'te, 'pe) hydration_error"
| Signal_Failed 'se

definition setup_logging :: "'l option \<Rightarrow> 'l + unit" where
  "setup_logging subscriber_set = (case subscriber_set of Some e \<Rightarrow> Inl e | None \<Rightarrow> Inr ())"

definition main_spawns :: "('r, 'q, 'h) process \<Rightarrow> background list" where
  "main_spawns p = [Metrics_Log (pr_metrics_interval p),
     Grpc_Server ''[::]:6802'' (user_tx_capacity (pr_ingress p)), Redis_Readers]"

definition main_body ::
  "proto \<Rightarrow> deserializer \<Rightarrow> ('c, 'ts, 'te) aeolus_client \<Rightarrow> (string \<Rightarrow> string \<Rightarrow> 'pe + string_message list) \<Rightarrow>
   bool \<Rightarrow> 'r ring_ops \<Rightarrow> ('q, 'h) delay_ops \<Rightarrow> (string \<Rightarrow> string option) \<Rightarrow> (string \<Rightarrow> usize option) \<Rightarrow> (string \<Rightarrow> u64 option) \<Rightarrow>
   'l option \<Rightarrow> 'se + unit \<Rightarrow>
   ((('r, 'q, 'h) process \<times> background list) option \<times> (('l, 'ts, 'te, 'pe, 'se) main_error + unit)) option" where
  "main_body pb from_json api snapshot_get epics_first ring ops env env_usize env_u64 subscriber_set ctrl_c =
     (case setup_logging subscriber_set of
        Inl e \<Rightarrow> Some (None, Inl (Logging_Failed e))
      | Inr _ \<Rightarrow>
          (case main_start pb from_json api snapshot_get epics_first ring ops env env_usize env_u64 of
             None \<Rightarrow> None
           | Some (Inl e) \<Rightarrow> Some (None, Inl (Startup_Failed e))
           | Some (Inr p) \<Rightarrow> Some (Some (p, main_spawns p),
               case ctrl_c of Inl e \<Rightarrow> Inl (Signal_Failed e) | Inr _ \<Rightarrow> Inr ())))"

text \<open>Nothing is served and no update is read before the hydration has succeeded.\<close>

lemma main_serves_hydrated:
  fixes api :: "('c, 'ts, 'te) aeolus_client" and snapshot_get :: "string \<Rightarrow> string \<Rightarrow> 'pe + string_message list"
  assumes "main_body pb from_json api snapshot_get ef ring ops env env_usize env_u64 subscriber_set ctrl_c = Some (Some (p, ts), r)"
  shows "ts = main_spawns p \<and> (\<exists>h. (load_startup_hydration pb from_json api snapshot_get ef (get_aeolus_proxy_host env)
        (get_kafka_host env) (get_kafka_topic env) :: ('ts, 'te, 'pe) hydration_error + hydrated_statuses) = Inr h \<and>
      pr_tasks p = bounded_start_state ops h)"
  using assms
  by (auto simp: main_body_def main_start_def start_tasks_def Let_def split: sum.splits option.splits if_splits)

section \<open>The Redis reader and the metrics log\<close>

text \<open>
  The loop of \<open>main\<close> starts a reader, and starts the next one when it has ended. It is
  followed through the connections it makes.
\<close>

fun redis_reader_loop ::
  "proto \<Rightarrow> (string \<Rightarrow> string option) \<Rightarrow> (status \<Rightarrow> 's \<Rightarrow> 's \<times> (status + unit)) \<Rightarrow>
   (string \<Rightarrow> string \<Rightarrow> (i64 \<times> redis_entries) list) list \<Rightarrow> 's \<Rightarrow> 's \<times> status list" where
  "redis_reader_loop pb env send [] s = (s, [])"
| "redis_reader_loop pb env send (subscribe # connections) s =
     (let (s1, errors) = start_redis_reader pb env subscribe send s;
          (s2, errors') = redis_reader_loop pb env send connections s1 in
      (s2, errors @ errors'))"

definition log_metrics_periodically :: "duration \<Rightarrow> metrics list \<Rightarrow> metrics_snapshot list option" where
  "log_metrics_periodically interval at_ticks =
     (if interval = 0 then None else Some (map metrics_snapshot_of at_ticks))"

lemma submit_all_append:
  "submit_all send (xs @ ys) s =
     (let (s1, rs) = submit_all send xs s; (s2, rs') = submit_all send ys s1 in (s2, rs @ rs'))"
  by (induction xs arbitrary: s) (auto simp: Let_def split: prod.splits)

lemma reader_loop_forwards:
  "fst (redis_reader_loop pb env send connections s) =
     fst (submit_all send (List.concat (map (\<lambda>subscribe.
       forwarded pb (subscribe (redis_url env) (redis_stream_key env))) connections)) s)"
proof (induction connections arbitrary: s)
  case (Cons subscribe connections)
  have first: "fst (start_redis_reader pb env subscribe send s) =
      fst (submit_all send (forwarded pb (subscribe (redis_url env) (redis_stream_key env))) s)"
    unfolding start_redis_reader_def by (rule run_alarm_stream_submits)
  show ?case
    using Cons.IH [of "fst (start_redis_reader pb env subscribe send s)"] first
    by (simp add: submit_all_append case_prod_unfold Let_def)
qed simp

section \<open>What a started process is\<close>

lemma startup_wf:
  fixes api :: "('c, 'ts, 'te) aeolus_client"
  assumes "(load_startup_hydration pb from_json api snapshot_get ef ah eh et ::
      ('ts, 'te, 'pe) hydration_error + hydrated_statuses) = Inr m"
  shows "hm_wf m"
proof -
  from assms obtain a e where
    a: "(load_acnet_hydration pb api ah :: ('ts, 'te, 'pe) hydration_error + _) = Inr a" and
    e: "(load_epics_hydration pb from_json snapshot_get eh et :: ('ts, 'te, 'pe) hydration_error + _) = Inr e" and
    mg: "(merge_hydrated_statuses a e :: ('ts, 'te, 'pe) hydration_error + _) = Inr m"
    by (auto simp: load_startup_hydration_def try_join_def split: sum.splits)
  then show ?thesis
    using merge_result [where acc = a and inc = e and ?'a = 'ts and ?'b = 'te and ?'c = 'pe]
      acnet_entries(1) [OF a] epics_entries(1) [OF e] by simp
qed

lemma default_capacities: "capacities_ok (get_queue_sizes (\<lambda>_. None))"
  by (simp add: capacities_ok_def get_queue_sizes_def) code_simp

text \<open>
  C3: a started process is safe. When \<open>main\<close> gets past its startup, hydration has succeeded,
  every channel could be created, the automated ingress starts in its initial state, and the
  coordinator's confirmed state is exactly the hydrated statuses under the baseline id. From then on, whatever messages arrive, however the tasks
  interleave and wait for each other, and whatever the publisher answers, no task panics, the
  coordinator keeps running, and there is at most one job per alarm.
\<close>

theorem started_process_safe:
  fixes api :: "('c, 'ts, 'te) aeolus_client" and snapshot_get :: "string \<Rightarrow> string \<Rightarrow> 'pe + string_message list"
  assumes "service_laws js ops view"
    and "main_start pb from_json api snapshot_get ef ring ops env env_usize env_u64 = Some (Inr p)"
    and "(bounded_step pb js ch ops (pr_queues p))\<^sup>*\<^sup>* (pr_tasks p) b"
  shows "(\<exists>h. (load_startup_hydration pb from_json api snapshot_get ef (get_aeolus_proxy_host env)
        (get_kafka_host env) (get_kafka_topic env) :: ('ts, 'te, 'pe) hydration_error + _) = Inr h \<and>
      (\<forall>k. hm_get (confirmed_state (sv_coord (b_service (pr_tasks p)))) k =
        map_option (\<lambda>st. (st, DEFAULT_HYDRATED_ID)) (hm_get h k))) \<and>
    ig_start ring (automated_tx (pr_ingress p)) \<and>
    capacities_ok (pr_queues p) \<and> \<not> sv_panicked (b_service b) \<and> sv_running (b_service b) \<and>
    (\<forall>k. size (filter_mset (\<lambda>j. job_key j = k) (pipe_jobs (unbound b))) \<le> 1)"
proof -
  from assms(2) obtain h where
    h: "(load_startup_hydration pb from_json api snapshot_get ef (get_aeolus_proxy_host env)
        (get_kafka_host env) (get_kafka_topic env) :: ('ts, 'te, 'pe) hydration_error + _) = Inr h"
    and p: "pr_tasks p = bounded_start_state ops h" "capacities_ok (pr_queues p)"
    and ig: "automated_tx (pr_ingress p) = ingress_new ring (unat (cap_automated (pr_queues p)))"
    by (auto simp: main_start_def start_tasks_def Let_def split: sum.splits if_splits)
  have "0 < unat (cap_automated (pr_queues p))"
    using p(2) by (simp add: capacities_ok_def mpsc_capacity_ok_def word_less_nat_alt)
  then have "ig_start ring (automated_tx (pr_ingress p))"
    unfolding ig ig_start_def by blast
  note wf = startup_wf [OF h]
  have conf: "hm_get (confirmed_state (sv_coord (b_service (pr_tasks p)))) k =
      map_option (\<lambda>st. (st, DEFAULT_HYDRATED_ID)) (hm_get h k)" for k
    by (simp add: p(1) bounded_start_state_def runtime_start_def coordinator_new_confirmed [OF wf])
  have "bounded_start ops (pr_tasks p)" using wf p(1) by (auto simp: bounded_start_def)
  then have "reach (bounded_start ops) (bounded_step pb js ch ops (pr_queues p)) (pr_tasks p)" by (rule reach_init)
  from reach_bounded_service [OF reach_steps [OF this assms(3)]]
  have "reach (service_start ops) (service_step pb js ch ops) (unbound b)" .
  from service_one_job [OF assms(1) this] conf h p(2) \<open>ig_start ring (automated_tx (pr_ingress p))\<close>
  show ?thesis by auto
qed

definition sample_env :: "string \<Rightarrow> string option" where
  "sample_env name = (if name = ''AEOLUS_PROXY_HOST'' then Some ''host''
     else if name = ''CONTROLS_KAFKA_HOST'' then Some ''kafka'' else None)"

definition sample_queues :: queue_capacity_config where
  "sample_queues = get_queue_sizes (\<lambda>_. Some 3)"

definition sample_hydrated :: hydrated_statuses where
  "sample_hydrated = [(\<lparr>key_device = ''M:OUTTMP'', key_source = Analog\<rparr>, sample_status ''M:OUTTMP'' Alarmed High Analog),
     (sample_epics_key, sample_status ''M:BEAM'' Bypassed Low Epics)]"

definition sample_process :: "((alarm_key \<times> status) list, sample_queue, nat) process" where
  "sample_process = \<lparr>pr_tasks = bounded_start_state sample_delay sample_hydrated,
     pr_ingress = \<lparr>automated_tx = ingress_new sample_ring 3, user_tx_capacity = 3,
       ingress_metrics = metrics_new sample_queues\<rparr>,
     pr_publisher = (''kafka'', ''alarms''), pr_queues = sample_queues,
     pr_metrics_interval = get_metrics_log_interval (\<lambda>_. None)\<rparr>"

lemma sample_capacities: "capacities_ok sample_queues"
  by code_simp

lemma sample_started:
  "main_start sample_proto sample_parse sample_aeolus (\<lambda>h t. Inr sample_records :: unit + string_message list)
     False sample_ring sample_delay sample_env (\<lambda>_. Some 3) (\<lambda>_. None) = Some (Inr sample_process)"
  using sample_capacities
  by (simp add: main_start_def get_aeolus_proxy_host_def get_kafka_host_def get_kafka_topic_def env_or_def
      sample_env_def sample_startup start_tasks_def sample_process_def sample_hydrated_def sample_queues_def)
    (simp add: get_queue_sizes_def Let_def)

lemma sample_process_runs:
  "case bounded_events sample_proto sample_json sample_chrono sample_delay sample_queues (to_publisher ''A'')
     (bounded_start_state sample_delay sample_hydrated) of
     None \<Rightarrow> False
   | Some b \<Rightarrow> length (in_flight (sv_publish (b_service b))) = 1"
  by code_simp

theorem started_process_safe_witness:
  "\<exists>b. bounded_events sample_proto sample_json sample_chrono sample_delay (pr_queues sample_process)
          (to_publisher ''A'') (pr_tasks sample_process) = Some b \<and>
   length (in_flight (sv_publish (b_service b))) = 1 \<and> \<not> sv_panicked (b_service b) \<and>
   sv_running (b_service b) \<and> capacities_ok (pr_queues sample_process)"
proof -
  obtain b where b: "bounded_events sample_proto sample_json sample_chrono sample_delay (pr_queues sample_process)
          (to_publisher ''A'') (pr_tasks sample_process) = Some b" "length (in_flight (sv_publish (b_service b))) = 1"
    using sample_process_runs by (auto simp: sample_process_def split: option.splits)
  from started_process_safe [OF sample_service_laws sample_started bounded_events_steps [OF b(1)]] b
  show ?thesis by blast
qed

end
