(* ===== verification/Alarm_Restart.thy ===== *)
theory Alarm_Restart
  imports Alarm_Topic Alarm_Main
begin

text \<open>
  A restart of the process (\<open>main.rs\<close>, \<open>runtime/hydration.rs\<close>) after a run that has written to
  the topic. The records of the run are those the publish engine made, the reduction of the topic
  is the one of \<open>adapters/epics_hydration.rs\<close>, and the two meet in the text of a record: the
  printed key and the JSON of the status. \<open>json_laws\<close> says that the serializer's text is read
  back and is neither blank nor \<open>null\<close>. The result: the bypasses of EPICS alarms survive.
\<close>

section \<open>Well-formed entries\<close>

text \<open>The key an entry is kept under has the status' source and a normalised device.\<close>

definition entry_wf :: "proto \<Rightarrow> alarm_key \<Rightarrow> status \<Rightarrow> bool" where
  "entry_wf pb k st \<longleftrightarrow> status_source pb st = key_source k \<and> normal_device (key_device k)"

definition entries_wf :: "proto \<Rightarrow> cmachine \<Rightarrow> bool" where
  "entries_wf pb m \<longleftrightarrow> (\<forall>k n st. entry m k n st \<longrightarrow> entry_wf pb k st)"

lemma entry_wf_from_status [simp]: "entry_wf pb (key_from_status pb st) st"
  by (simp add: entry_wf_def key_from_status_def)

lemma entry_wf_default: "proto_ok pb \<Longrightarrow> normal_device (key_device k) \<Longrightarrow> entry_wf pb k (default_status pb k)"
  by (simp add: entry_wf_def default_status_def)

lemma entry_wf_user: "proto_ok pb \<Longrightarrow> normal_device (key_device k) \<Longrightarrow> entry_wf pb k (build_user_status pb now k action user)"
  by (simp add: entry_wf_def build_user_status_def status_source_def)

lemma wf_record: "entries_wf pb m \<Longrightarrow> entry_wf pb k st \<Longrightarrow> entries_wf pb (record_intent k st cf m)"
  unfolding entries_wf_def using entry_record by blast

lemma wf_message:
  assumes pb: "proto_ok pb" and run: "cm_running m" and ok: "entries_wf pb m"
    and ev: "ev = On_User msg \<or> ev = On_Automated msg"
    and norm: "\<forall>(cf, k, st)\<in>set (commands_by pb (Coordinator_Turn now ev)). normal_device (key_device k)"
  shows "entries_wf pb (cm_next pb now ev m)"
proof (cases msg)
  case (UserUpdate k action user cf)
  have "normal_device (key_device k)" using norm ev UserUpdate by auto
  then have "entries_wf pb (record_intent k (build_user_status pb now k action user) (Some cf) m)"
    by (intro wf_record [OF ok] entry_wf_user [OF pb])
  moreover have "entries_wf pb (answer_with as m)" for as using ok by (simp add: entries_wf_def entry_def)
  ultimately show ?thesis using ev UserUpdate by (auto simp: cm_next_user [OF run] user_result_def)
next
  case (AutomatedUpdate st)
  have "entries_wf pb (record_intent (key_from_status pb st) st None m)" by (intro wf_record [OF ok]) simp
  with ev AutomatedUpdate ok show ?thesis
    by (auto simp: cm_next_automated [OF run] automated_result_def Let_def)
next
  case (SnapshotRequest x)
  with ev ok show ?thesis by (auto simp: cm_next_snapshot [OF run])
qed

lemma wf_next:
  fixes now :: i64
  assumes pb: "proto_ok pb" and inv: "cm_inv pb m" and en: "cm_enabled ev m" and ok: "entries_wf pb m"
    and norm: "\<forall>(cf, k, st)\<in>set (commands_by pb (Coordinator_Turn now ev)). normal_device (key_device k)"
  shows "entries_wf pb (cm_next pb now ev m)"
proof -
  have run: "cm_running m" using inv by (simp add: cm_inv_def)
  show ?thesis
  proof (cases ev)
    case (On_Outcome r)
    show ?thesis
    proof (cases r)
      case (Committed j)
      with On_Outcome en have j: "j \<in> set (cm_jobs m)" by simp
      from ok committed_entries [OF inv j, of now] show ?thesis
        unfolding On_Outcome Committed entries_wf_def by blast
    next
      case (Failed j)
      with On_Outcome en have j: "j \<in> set (cm_jobs m)" by simp
      show ?thesis
        unfolding entries_wf_def
      proof (intro allI impI)
        fix k n st assume e: "entry (cm_next pb now ev m) k n st"
        show "entry_wf pb k st"
        proof (cases "entry m k n st")
          case False
          with e failed_entries [OF inv j, of now k n st] On_Outcome Failed have
            st: "st = default_status pb k" "k = job_key j" by simp_all
          have "entry m (job_key j) (job_id j) (job_status j)" using j by (auto simp: entry_def)
          then have "normal_device (key_device k)" using ok st(2) by (auto simp: entries_wf_def entry_wf_def)
          with st(1) entry_wf_default [OF pb] show ?thesis by simp
        qed (use ok in \<open>simp add: entries_wf_def\<close>)
      qed
    next
      case (Wake k)
      have "entries_wf pb (record_intent (key_from_status pb st) st None m)" for st by (intro wf_record [OF ok]) simp
      with ok On_Outcome Wake show ?thesis
        by (auto simp: cm_next_automated [OF run] automated_result_def Let_def)
    qed
  next
    case Blocked
    with ok show ?thesis by (simp add: cm_next_snapshot [OF run])
  qed (use wf_message [OF pb run ok _ norm] en in auto)
qed

text \<open>
  If the service is started with well-formed entries and its commands are for normalised keys,
  as parsed ones are, then all entries and everything on the topic are well-formed.
\<close>

definition hydrated_wf :: "proto \<Rightarrow> hydrated_statuses \<Rightarrow> bool" where
  "hydrated_wf pb h \<longleftrightarrow> (\<forall>k st. hm_get h k = Some st \<longrightarrow> entry_wf pb k st)"

definition commands_wf :: "('q, 'h) observed \<Rightarrow> bool" where
  "commands_wf ob \<longleftrightarrow> (\<forall>(cf, k, st)\<in>set (ob_commands ob). normal_device (key_device k))"

definition observed_wf :: "proto \<Rightarrow> ('q, 'h) observed \<Rightarrow> bool" where
  "observed_wf pb ob \<longleftrightarrow> (\<forall>m. cm_inv pb m \<and> simulates (ob_service ob) m \<longrightarrow> entries_wf pb m) \<and>
     (\<forall>(k, st)\<in>set (ob_topic ob). entry_wf pb k st)"

lemma accepted_by_entry:
  assumes m: "pipe_ok view s" "simulates s m" and top: "topic_ok h topic s" and a: "(k, st) \<in> set (accepted_by ev s)"
  shows "\<exists>n. entry m k n st"
proof -
  obtain pe where "ev = Publish_Event pe" using a by (cases ev) auto
  with a accepted_request obtain p where
    p: "p \<in> requests_open s" "request_key p = k" "pd_status (publish_details_ref p) = st"
    by (fastforce simp: requests_open_def)
  have "k \<in># awaiting 2 (sv_workflow s)" using open_awaiting [OF m(1) p(1)] p(2) by simp
  then obtain j where get: "hm_get (sv_workflow s) k = Some \<lparr>tj_job = j, tj_step = 2\<rparr>" and key: "job_key j = k"
    by (rule awaiting_get [OF pipe_okD(1) [OF m(1)]])
  have "job_status j = st" using top p get by (auto simp: topic_ok_def requests_ok_def)
  moreover have "j \<in># pipe_jobs s" using get_tracked [OF get] by (simp add: pipe_jobs_def)
  then have "j \<in> set (cm_jobs m)" using m(2) by (simp add: simulates_def flip: set_mset_mset)
  ultimately show ?thesis using key by (auto simp: entry_def)
qed

lemma observed_wf_turn:
  assumes pb: "proto_ok pb" and sl: "service_laws js ops view"
    and m: "cm_inv pb m" "pipe_ok view s" "simulates s m"
    and c: "id_counter (sv_coord s) \<noteq> - 1" and nxt: "service_next pb js ch ops ev s = Some t"
    and top: "topic_ok h topic s"
    and ok: "observed_wf pb \<lparr>ob_service = s, ob_topic = topic, ob_commands = commands\<rparr>"
    and norm: "\<forall>(cf, k, st)\<in>set (commands_by pb ev). normal_device (key_device k)"
  shows "observed_wf pb \<lparr>ob_service = t, ob_topic = topic @ accepted_by ev s, ob_commands = commands @ commands_by pb ev\<rparr>"
proof -
  have wf: "entries_wf pb m" using ok m by (simp add: observed_wf_def)
  obtain m' where m': "simulates t m'" "entries_wf pb m'"
  proof (cases "coordinator_turn ev")
    case False
    with task_turn_ok [OF sl m False nxt] wf that show ?thesis by blast
  next
    case True
    then obtain now cev where ev: "ev = Coordinator_Turn now cev" by (cases ev) auto
    from coord_turn_ok [OF m(2,3) c nxt [unfolded ev]]
      wf_next [OF pb m(1) coord_enabled [OF m(3) nxt [unfolded ev]] wf norm [unfolded ev]] that
    show ?thesis by blast
  qed
  have "entries_wf pb m''" if "simulates t m''" for m''
    using m'(2) entry_same [OF that m'(1)] by (simp add: entries_wf_def)
  moreover have "entry_wf pb k st" if "(k, st) \<in> set (accepted_by ev s)" for k st
    using accepted_by_entry [OF m(2,3) top that] wf by (auto simp: entries_wf_def)
  ultimately show ?thesis using ok by (auto simp: observed_wf_def)
qed

lemma reach_observed_wf:
  assumes sl: "service_laws js ops view" and r: "reach (observed_start ops h) (observed_step pb js ch ops) ob"
    and pb: "proto_ok pb" "hydrated_wf pb h"
  shows "commands_wf ob \<longrightarrow> observed_wf pb ob"
  using sl r
proof (induction rule: observed_induct)
  case start
  then show ?case using pb(2)
    by (auto simp: observed_wf_def observed_start_state_def runtime_start_def simulates_def pipe_jobs_def
        workflow_ok_new entries_wf_def entry_def hydrated_wf_def coordinator_new_confirmed)
next
  case (turn m s topic commands ev t)
  from reach_topic_ok [OF sl turn(6)] have "topic_ok h topic s" by simp
  note W = observed_wf_turn [OF pb(1) sl turn(1-5) this]
  show ?case
  proof
    assume c: "commands_wf \<lparr>ob_service = t, ob_topic = topic @ accepted_by ev s, ob_commands = commands @ commands_by pb ev\<rparr>"
    then have "observed_wf pb \<lparr>ob_service = s, ob_topic = topic, ob_commands = commands\<rparr>"
      using turn(7) by (auto simp: commands_wf_def)
    from W [OF this] c show "observed_wf pb \<lparr>ob_service = t, ob_topic = topic @ accepted_by ev s,
        ob_commands = commands @ commands_by pb ev\<rparr>"
      by (auto simp: commands_wf_def)
  qed
qed

section \<open>Reading the topic back\<close>

definition topic_record :: "serializer \<Rightarrow> alarm_key \<times> status \<Rightarrow> string_message" where
  "topic_record js e = the (alarm_to_message js (fst e) (snd e))"

definition json_laws :: "serializer \<Rightarrow> deserializer \<Rightarrow> bool" where
  "json_laws js from_json \<longleftrightarrow> (\<forall>st. \<exists>text. js st = Some text \<and> from_json text = Some st \<and>
     trim text \<noteq> [] \<and> \<not> eq_ignore_ascii_case (trim text) ''null'')"

definition printable :: "alarm_key \<Rightarrow> bool" where
  "printable k \<longleftrightarrow> normal_device (key_device k) \<and> key_device k \<noteq> [] \<and> CHR ''#'' \<notin> set (key_device k)"

lemma parse_source_no_hash: "parse_source t = Some src \<Longrightarrow> CHR ''#'' \<notin> set (to_uppercase (trim t))"
  by (auto simp: parse_source_def Let_def split: if_splits)

lemma in_dropWhile: "x \<in> set xs \<Longrightarrow> \<not> P x \<Longrightarrow> x \<in> set (dropWhile P xs)"
  by (induction xs) auto

lemma hash_in_trim: "CHR ''#'' \<in> set t \<Longrightarrow> CHR ''#'' \<in> set (trim t)"
proof -
  have "\<not> is_whitespace (CHR ''#'')" by code_simp
  then show "CHR ''#'' \<in> set t \<Longrightarrow> CHR ''#'' \<in> set (trim t)"
    by (simp add: trim_def trim_start_def in_dropWhile)
qed

lemma hash_in_upper_trim: "CHR ''#'' \<in> set t \<Longrightarrow> CHR ''#'' \<in> set (to_uppercase (trim t))"
proof -
  assume "CHR ''#'' \<in> set t"
  then have "CHR ''#'' \<in> set (trim t)" by (simp add: hash_in_trim)
  then have "upper_char (CHR ''#'') \<in> set (to_uppercase (trim t))" by (auto simp: to_uppercase_def)
  then show ?thesis by (simp only: upper_char_hash [THEN iffD2, OF refl])
qed

lemma printed_key:
  assumes "normal_device (key_device k)" "key_try_from (key_to_string k) = Inr j"
  shows "j = k"
proof -
  from assms(2) obtain d t where dt: "split_once (CHR ''#'') (key_to_string k) = Some (d, t)"
    "parse_source t = Some (key_source j)" "key_device j = to_uppercase (trim d)"
    by (auto simp: key_try_from_Inr_iff)
  have no: "CHR ''#'' \<notin> set t" using parse_source_no_hash [OF dt(2)] hash_in_upper_trim by blast
  have "CHR ''#'' \<notin> set (key_device k)"
  proof
    assume h: "CHR ''#'' \<in> set (key_device k)"
    then obtain l r where lr: "key_device k = l @ CHR ''#'' # r" "CHR ''#'' \<notin> set l"
      by (meson split_list_first)
    then have "key_to_string k = l @ CHR ''#'' # (r @ CHR ''#'' # source_debug (key_source k))"
      by (simp add: key_to_string_def)
    then have "t = r @ CHR ''#'' # source_debug (key_source k)"
      using dt(1) split_once_notin [OF lr(2)] by simp
    with no show False by simp
  qed
  then have "d = key_device k" "t = source_debug (key_source k)"
    using dt(1) by (simp_all add: key_to_string_def split_once_notin)
  with dt(2,3) assms(1) show ?thesis
    by (cases j; cases k) (auto simp: parse_source_debug normal_device_def split: if_splits)
qed

lemma record_on_key:
  assumes json: "json_laws js from_json" and k: "key_source k = Epics" "printable k"
    and wf: "entry_wf pb k' st"
  shows "verdict_on pb from_json k (topic_record js (k', st)) =
    (if k' = k then Some (if status_state pb st = Bypassed then Some st else None) else None)"
proof -
  obtain body where body: "js st = Some body" "from_json body = Some st" "trim body \<noteq> []"
    "\<not> eq_ignore_ascii_case (trim body) ''null''"
    using json unfolding json_laws_def by blast
  have r: "topic_record js (k', st) = \<lparr>msg_key = Some (key_to_string k'), msg_body = body\<rparr>"
    using body(1) by (simp add: topic_record_def alarm_to_message_def)
  show ?thesis
  proof (cases "k' = k")
    case True
    have "key_try_from (key_to_string k) = Inr k"
      using k by (simp add: key_try_from_Inr_iff key_to_string_def split_once_notin parse_source_names
          normal_device_def printable_def)
    with True body wf k(1) show ?thesis
      unfolding r verdict_on_def record_verdict_def entry_wf_def by auto
  next
    case False
    have "j = k'" if "key_try_from (key_to_string k') = Inr j" for j
      using printed_key [OF _ that] wf by (simp add: entry_wf_def)
    with False show ?thesis
      by (auto simp: r verdict_on_def record_verdict_def split: sum.splits option.splits if_splits)
  qed
qed

lemma reduce_topic:
  assumes json: "json_laws js from_json" and k: "key_source k = Epics" "printable k"
    and wf: "\<forall>(k', st)\<in>set topic. entry_wf pb k' st"
  shows "hm_get (reduce_snapshot pb from_json (older @ map (topic_record js) topic)) k =
    (case last_on topic k of Some st \<Rightarrow> if status_state pb st = Bypassed then Some st else None
     | None \<Rightarrow> hm_get (reduce_snapshot pb from_json older) k)"
  using wf
proof (induction topic rule: rev_induct)
  case (snoc e topic)
  obtain k' st where e: "e = (k', st)" by fastforce
  have "hm_get (reduce_snapshot pb from_json (older @ map (topic_record js) (topic @ [e]))) k =
      hm_get (reduce_record pb from_json (reduce_snapshot pb from_json (older @ map (topic_record js) topic))
        (topic_record js e)) k"
    by (simp add: reduce_snapshot_def)
  with snoc record_on_key [OF json k, of pb k' st] show ?case
    by (simp add: reduce_record_get e)
qed simp

section \<open>The restart\<close>

text \<open>The ACNET proxy knows no EPICS alarms.\<close>

definition no_epics :: "proto \<Rightarrow> ('c, 'ts, 'te) aeolus_client \<Rightarrow> string \<Rightarrow> bool" where
  "no_epics pb api host \<longleftrightarrow> (\<forall>c statuses. from_endpoint api host = Inr c \<and> get_alarms_snapshot api c = Inr statuses \<longrightarrow>
     (\<forall>st\<in>set statuses. status_source pb st \<noteq> Epics))"

lemma startup_parts:
  fixes api :: "('c, 'ts, 'te) aeolus_client"
  assumes "(load_startup_hydration pb from_json api snapshot_get ef ah eh et ::
      ('ts, 'te, 'pe) hydration_error + hydrated_statuses) = Inr h" and "snapshot_get eh et = Inr records"
  obtains a where "(load_acnet_hydration pb api ah :: ('ts, 'te, 'pe) hydration_error + _) = Inr a"
    "hm_get h = hm_get a ++ hm_get (reduce_snapshot pb from_json records)" "hm_wf h"
proof -
  from assms obtain a where
    a: "(load_acnet_hydration pb api ah :: ('ts, 'te, 'pe) hydration_error + _) = Inr a" and
    mg: "(merge_hydrated_statuses a (reduce_snapshot pb from_json records) :: ('ts, 'te, 'pe) hydration_error + _) = Inr h"
    by (auto simp: load_startup_hydration_def load_epics_hydration_def try_join_def split: sum.splits)
  from merge_result [where acc = a and inc = "reduce_snapshot pb from_json records" and ?'a = 'ts and ?'b = 'te and ?'c = 'pe]
    acnet_entries(1) [OF a] reduce_snapshot_wf [of pb from_json records] mg that [OF a] show thesis by simp
qed

lemma startup_epics:
  fixes api :: "('c, 'ts, 'te) aeolus_client"
  assumes "(load_startup_hydration pb from_json api snapshot_get ef ah eh et ::
      ('ts, 'te, 'pe) hydration_error + hydrated_statuses) = Inr h" and "snapshot_get eh et = Inr records"
    and "no_epics pb api ah"
  shows "key_source k = Epics \<Longrightarrow> hm_get h k = hm_get (reduce_snapshot pb from_json records) k"
    and "hydrated_wf pb h" and "hm_wf h"
proof -
  obtain a where a: "(load_acnet_hydration pb api ah :: ('ts, 'te, 'pe) hydration_error + _) = Inr a"
    and h: "hm_get h = hm_get a ++ hm_get (reduce_snapshot pb from_json records)" "hm_wf h"
    using startup_parts [OF assms(1,2)] .
  show "hm_wf h" by (rule h(2))
  show "hm_get h k = hm_get (reduce_snapshot pb from_json records) k" if "key_source k = Epics"
  proof -
    have "hm_get a k = None"
    proof (rule ccontr)
      assume "hm_get a k \<noteq> None"
      then obtain st where "hm_get a k = Some st" by blast
      from acnet_entries(2) [OF a this] assms(3) that show False
        by (auto simp: no_epics_def key_from_status_def)
    qed
    then show ?thesis by (simp add: h(1) map_add_def split: option.split)
  qed
  have "entry_wf pb k st" if "hm_get h k = Some st" for k st
  proof (cases "hm_get (reduce_snapshot pb from_json records) k")
    case None
    then have "hm_get a k = Some st" using that by (simp add: h(1) map_add_def)
    from acnet_entries(2) [OF a this] show ?thesis by auto
  next
    case (Some st')
    then have st: "hm_get (reduce_snapshot pb from_json records) k = Some st" using that by (simp add: h(1) map_add_def)
    then obtain r where "verdict_on pb from_json k r = Some (Some st)"
      by (auto simp: reduce_snapshot_get split: option.splits dest!: last_verdict_SomeD)
    then show ?thesis
      by (auto simp: entry_wf_def verdict_on_def record_verdict_def key_try_from_Inr_iff
          split: option.splits sum.splits if_splits)
  qed
  then show "hydrated_wf pb h" by (simp add: hydrated_wf_def)
qed

text \<open>
  C7: a restart restores the bypasses. The process is started from its sources, runs, and
  stops at any moment; a second process is started, with the records of the run behind the old
  ones on the topic. Every EPICS alarm that had no job in the service when it stopped is then
  restored exactly if it was confirmed as bypassed, and with the very status it was confirmed
  with. (The device name of the alarm must not contain a hash character: the key of such an
  alarm is not read back.)
\<close>

theorem restart_restores_bypasses:
  fixes api api' :: "('c, 'ts, 'te) aeolus_client"
    and snapshot_get snapshot_get' :: "string \<Rightarrow> string \<Rightarrow> 'pe + string_message list"
  assumes "service_laws js ops view" and "proto_ok pb" and "json_laws js from_json"
    and first: "(load_startup_hydration pb from_json api snapshot_get ef ah eh et ::
      ('ts, 'te, 'pe) hydration_error + hydrated_statuses) = Inr h" "snapshot_get eh et = Inr older" "no_epics pb api ah"
    and run: "reach (observed_start ops h) (observed_step pb js ch ops) ob" "commands_wf ob"
    and second: "(load_startup_hydration pb from_json api' snapshot_get' ef' ah' eh et ::
      ('ts, 'te, 'pe) hydration_error + hydrated_statuses) = Inr h'"
      "snapshot_get' eh et = Inr (older @ map (topic_record js) (ob_topic ob))" "no_epics pb api' ah'"
    and k: "key_source k = Epics" "printable k" "\<forall>j\<in>#pipe_jobs (ob_service ob). job_key j \<noteq> k"
  shows "hm_get h' k = (case hm_get (confirmed_state (sv_coord (ob_service ob))) k of
      Some (st, n) \<Rightarrow> if status_state pb st = Bypassed then Some st else None
    | None \<Rightarrow> None)"
proof -
  note F = startup_epics [OF first]
  have "observed_wf pb ob" using reach_observed_wf [OF assms(1) run(1) assms(2) F(2)] run(2) by blast
  then have wf: "\<forall>(k', st)\<in>set (ob_topic ob). entry_wf pb k' st" by (simp add: observed_wf_def)
  have "hm_get h' k = (case last_on (ob_topic ob) k of
      Some st \<Rightarrow> if status_state pb st = Bypassed then Some st else None | None \<Rightarrow> hm_get h k)"
    using startup_epics(1) [OF second k(1)] reduce_topic [OF assms(3) k(1,2) wf, of older] F(1) [OF k(1)] by (simp split: option.split)
  moreover have "status_state pb st = Bypassed" if "hm_get h k = Some st" for st
    using that unfolding F(1) [OF k(1)]
    by (auto simp: reduce_snapshot_get split: option.splits dest!: last_verdict_SomeD verdict_bypassed)
  ultimately show ?thesis
    using confirmed_without_job [OF assms(1) run(1) k(3)] by (auto split: option.splits)
qed

section \<open>A serializer that can be read back\<close>

text \<open>
  An instance of \<open>json_laws\<close>: the fields of a status in their order, numbers as their bits, an
  absent message as a zero, texts with a sign before every character. A record of the topic
  needs no more of JSON than such a text has.
\<close>

definition write_bit :: "bool \<Rightarrow> char" where
  "write_bit b = (if b then CHR ''1'' else CHR ''0'')"

definition write_word :: "'w::len word \<Rightarrow> string" where
  "write_word w = map (\<lambda>i. write_bit (bit w i)) [0..<LENGTH('w)]"

definition read_word :: "string \<Rightarrow> 'w::len word \<times> string" where
  "read_word text = (horner_sum of_bool 2 (map (\<lambda>c. c = CHR ''1'') (take LENGTH('w) text)), drop LENGTH('w) text)"

fun write_text :: "string \<Rightarrow> string" where
  "write_text [] = ''.''"
| "write_text (c # cs) = CHR ''+'' # c # write_text cs"

fun read_text :: "string \<Rightarrow> string \<times> string" where
  "read_text (s # c # cs) = (if s = CHR ''+'' then (let (t, rest) = read_text cs in (c # t, rest)) else ([], c # cs))"
| "read_text cs = ([], [])"

fun write_time :: "timestamp option \<Rightarrow> string" where
  "write_time None = ''0''"
| "write_time (Some t) = CHR ''1'' # write_word (ts_seconds t) @ write_word (ts_nanos t)"

definition read_time :: "string \<Rightarrow> timestamp option \<times> string" where
  "read_time text = (case text of [] \<Rightarrow> (None, [])
     | c # cs \<Rightarrow> if c = CHR ''0'' then (None, cs) else
         (let (s, cs) = read_word cs; (n, cs) = read_word cs in (Some \<lparr>ts_seconds = s, ts_nanos = n\<rparr>, cs)))"

lemma read_word_write [simp]: "read_word (write_word w @ rest) = (w, rest)"
  for w :: "'w::len word"
proof -
  have "(\<lambda>c. c = CHR ''1'') \<circ> (\<lambda>i. write_bit (bit w i)) = bit w" by (simp add: fun_eq_iff write_bit_def)
  then show ?thesis
    by (simp add: read_word_def write_word_def horner_sum_bit_eq_take_bit)
qed

lemma read_text_write [simp]: "rest \<noteq> [] \<Longrightarrow> read_text (write_text t @ rest) = (t, rest)"
proof (induction t)
  case Nil
  then show ?case by (cases rest) auto
qed simp

lemma read_time_write [simp]: "read_time (write_time t @ rest) = (t, rest)"
proof (cases t)
  case None
  then show ?thesis by (simp add: read_time_def)
next
  case (Some x)
  then show ?thesis by (cases x) (simp add: read_time_def)
qed

definition wire_json :: serializer where
  "wire_json st = Some (CHR ''{'' # write_text (st_device st) @ write_word (st_severity st) @ write_word (st_state st) @
     write_word (st_source st) @ (write_bit (st_acknowledgeable st) # write_time (st_time st) @
     write_text (st_epics_type st) @ write_text (st_user st) @ write_time (st_wake st) @ ''}''))"

definition wire_parse :: deserializer where
  "wire_parse text = (let (dev, cs) = read_text (tl text); (sev, cs) = read_word cs; (sta, cs) = read_word cs;
       (src, cs) = read_word cs; ack = (hd cs = CHR ''1''); (tim, cs) = read_time (tl cs);
       (ety, cs) = read_text cs; (usr, cs) = read_text cs; (wak, cs) = read_time cs
     in if take 1 text = ''{'' \<and> cs = ''}'' then Some \<lparr>st_device = dev, st_severity = sev, st_state = sta,
       st_source = src, st_acknowledgeable = ack, st_time = tim, st_epics_type = ety, st_user = usr, st_wake = wak\<rparr>
     else None)"

lemma wire_parse_back: "wire_json st = Some body \<Longrightarrow> wire_parse body = Some st"
  by (cases st) (auto simp: wire_json_def wire_parse_def write_bit_def)

lemma brace_in_trim: "CHR ''{'' \<in> set t \<Longrightarrow> CHR ''{'' \<in> set (trim t)"
proof -
  have "\<not> is_whitespace (CHR ''{'')" by code_simp
  then show "CHR ''{'' \<in> set t \<Longrightarrow> CHR ''{'' \<in> set (trim t)"
    by (simp add: trim_def trim_start_def in_dropWhile)
qed

lemma brace_not_null: "CHR ''{'' \<in> set t \<Longrightarrow> \<not> eq_ignore_ascii_case t ''null''"
proof
  assume t: "CHR ''{'' \<in> set t" and e: "eq_ignore_ascii_case t ''null''"
  from t have "lower_char (CHR ''{'') \<in> set (map lower_char t)" by simp
  then have "lower_char (CHR ''{'') \<in> set (map lower_char ''null'')" using e unfolding eq_ignore_ascii_case_def by argo
  moreover have "lower_char (CHR ''{'') \<notin> set (map lower_char ''null'')" by code_simp
  ultimately show False by simp
qed

lemma wire_json_laws: "json_laws wire_json wire_parse"
  unfolding json_laws_def
proof
  fix st
  obtain body where body: "wire_json st = Some body" "CHR ''{'' \<in> set body" by (simp add: wire_json_def)
  from brace_in_trim [OF body(2)] have in_trim: "CHR ''{'' \<in> set (trim body)" .
  show "\<exists>text. wire_json st = Some text \<and> wire_parse text = Some st \<and> trim text \<noteq> [] \<and>
      \<not> eq_ignore_ascii_case (trim text) ''null''"
    using body(1) wire_parse_back [OF body(1)] brace_not_null [OF in_trim] in_trim by force
qed

text \<open>An operator bypasses an EPICS alarm while another one is bypassed already.\<close>

definition quad_records :: "string_message list" where
  "quad_records = [topic_record wire_json (\<lparr>key_device = ''M:QUAD'', key_source = Epics\<rparr>,
     sample_status ''M:QUAD'' Bypassed Low Epics)]"

definition quad_hydrated :: hydrated_statuses where
  "quad_hydrated = [(\<lparr>key_device = ''M:OUTTMP'', key_source = Analog\<rparr>, sample_status ''M:OUTTMP'' Alarmed High Analog),
     (\<lparr>key_device = ''M:QUAD'', key_source = Epics\<rparr>, sample_status ''M:QUAD'' Bypassed Low Epics)]"

definition beam_bypass :: status where
  "beam_bypass = build_user_status sample_proto 1000 sample_epics_key (Bypass None) ''op''"

definition bypass_run :: "service_event list" where
  "bypass_run = [Coordinator_Turn 1000 (On_User (UserUpdate sample_epics_key (Bypass None) ''op'' 7)),
     Workflow_Job, Snooze_Turn near_clocks, Workflow_Snooze, Publish_Take,
     Publish_Event (Attempt_Polled 0 1), Publish_Event (Attempt_Answered 0 True 2), Workflow_Publish,
     Coordinator_Turn 1060 (On_Outcome (Committed \<lparr>job_id = 1, job_key = sample_epics_key,
       job_status = beam_bypass, job_user_initiated = True\<rparr>))]"

definition bypassed_beam :: "(sample_queue, nat) observed" where
  "bypassed_beam = the (observed_events sample_proto wire_json sample_chrono sample_delay bypass_run
     (observed_start_state sample_delay quad_hydrated))"

lemma quad_startup:
  "(load_startup_hydration sample_proto wire_parse sample_aeolus (\<lambda>h t. Inr quad_records) False
     ''host'' ''kafka'' ''alarms'' :: (string, string, unit) hydration_error + hydrated_statuses) = Inr quad_hydrated"
  by code_simp

lemma bypass_run_evaluated:
  "case observed_events sample_proto wire_json sample_chrono sample_delay bypass_run
     (observed_start_state sample_delay quad_hydrated) of
     None \<Rightarrow> False
   | Some ob \<Rightarrow> sv_job_q (ob_service ob) = [] \<and> sv_workflow (ob_service ob) = [] \<and> sv_outcome_q (ob_service ob) = [] \<and>
       ob_topic ob = [(sample_epics_key, beam_bypass)] \<and> map (fst \<circ> snd) (ob_commands ob) = [sample_epics_key] \<and>
       hm_get (confirmed_state (sv_coord (ob_service ob))) sample_epics_key = Some (beam_bypass, 1)"
  by code_simp

lemma beam_restart:
  "case (load_startup_hydration sample_proto wire_parse sample_aeolus
     (\<lambda>h t. Inr (quad_records @ map (topic_record wire_json) [(sample_epics_key, beam_bypass)])) False
     ''host'' ''kafka'' ''alarms'' :: (string, string, unit) hydration_error + hydrated_statuses) of
     Inr h \<Rightarrow> True | Inl e \<Rightarrow> False"
  by code_simp

theorem restart_restores_bypasses_witness:
  "\<exists>h'. (load_startup_hydration sample_proto wire_parse sample_aeolus
       (\<lambda>h t. Inr (quad_records @ map (topic_record wire_json) [(sample_epics_key, beam_bypass)])) False
       ''host'' ''kafka'' ''alarms'' :: (string, string, unit) hydration_error + hydrated_statuses) = Inr h' \<and>
     hm_get h' sample_epics_key = Some beam_bypass"
proof -
  have run: "observed_events sample_proto wire_json sample_chrono sample_delay bypass_run
      (observed_start_state sample_delay quad_hydrated) = Some bypassed_beam"
    using bypass_run_evaluated by (auto simp: bypassed_beam_def split: option.splits)
  note B = bypass_run_evaluated [unfolded run option.case]
  have jobs: "\<forall>j\<in>#pipe_jobs (ob_service bypassed_beam). job_key j \<noteq> sample_epics_key"
    using B by (simp add: pipe_jobs_def tracked_jobs_def)
  have reached: "reach (observed_start sample_delay quad_hydrated)
      (observed_step sample_proto wire_json sample_chrono sample_delay) bypassed_beam"
    by (rule reach_steps [OF reach_init observed_events_steps [OF run]])
      (simp add: observed_start_def quad_hydrated_def hm_wf_def)
  have norm: "normal_device (key_device sample_epics_key)" by code_simp
  then have cmds: "commands_wf bypassed_beam" using B by (auto simp: commands_wf_def)
  have laws: "service_laws wire_json sample_delay hm_get"
    using sample_service_laws by (simp add: service_laws_def wire_json_def)
  have none: "no_epics sample_proto sample_aeolus ''host''"
    by (simp add: no_epics_def sample_aeolus_def)
  have k: "key_source sample_epics_key = Epics" "printable sample_epics_key"
    using norm by (simp_all add: printable_def sample_epics_key_def)
  obtain h' where h': "(load_startup_hydration sample_proto wire_parse sample_aeolus
      (\<lambda>h t. Inr (quad_records @ map (topic_record wire_json) [(sample_epics_key, beam_bypass)])) False
      ''host'' ''kafka'' ''alarms'' :: (string, string, unit) hydration_error + hydrated_statuses) = Inr h'"
    using beam_restart by (auto split: sum.splits)
  have "status_state sample_proto beam_bypass = Bypassed" by code_simp
  with restart_restores_bypasses [OF laws sample_proto_ok wire_json_laws quad_startup refl none reached cmds h' _ none k jobs]
    h' B show ?thesis by simp
qed

end
