(* ===== verification/Alarm_Board.thy ===== *)
theory Alarm_Board
  imports Coordinator_Properties
begin

text \<open>
  What the coordinator promises, said without caches, jobs and ids: a board with the latest
  status of every alarm, on which each message is decided at once by the policy
  (\<open>engine/policy.rs\<close>). A commit, and the failure of an automated job, leave the board as it
  is. The latest status that the coordinator's two caches give is the one on the board, as long
  as no job of a user fails, which rolls the alarm back (\<open>failed_user_job_rolls_back\<close>).
\<close>

section \<open>Decisions\<close>

definition decide_automated :: "proto \<Rightarrow> alarm_key \<Rightarrow> status \<Rightarrow> status option \<Rightarrow> status option" where
  "decide_automated pb k st latest =
     (if key_from_status pb st = k \<and> should_publish pb latest k st then Some st else latest)"

definition decide_user ::
  "proto \<Rightarrow> i64 \<Rightarrow> alarm_key \<Rightarrow> alarm_key \<Rightarrow> user_action \<Rightarrow> string \<Rightarrow> status option \<Rightarrow> status option" where
  "decide_user pb now k key action user latest =
     (let (state, wake) = (case latest of None \<Rightarrow> (Unknown, None) | Some st \<Rightarrow> (status_state pb st, st_wake st)) in
      if key = k \<and> user_action_allowed state wake action then Some (build_user_status pb now key action user)
      else latest)"

fun decide_message :: "proto \<Rightarrow> i64 \<Rightarrow> alarm_key \<Rightarrow> domain_input \<Rightarrow> status option \<Rightarrow> status option" where
  "decide_message pb now k (AutomatedUpdate st) = decide_automated pb k st"
| "decide_message pb now k (UserUpdate key action user cf) = decide_user pb now k key action user"
| "decide_message pb now k (SnapshotRequest x) = (\<lambda>latest. latest)"

fun decide :: "proto \<Rightarrow> i64 \<Rightarrow> alarm_key \<Rightarrow> coord_event \<Rightarrow> status option \<Rightarrow> status option" where
  "decide pb now k (On_User m) = decide_message pb now k m"
| "decide pb now k (On_Automated m) = decide_message pb now k m"
| "decide pb now k (On_Outcome (Wake key)) = decide_automated pb k (wake_status pb now key)"
| "decide pb now k ev = (\<lambda>latest. latest)"

definition board :: "proto \<Rightarrow> alarm_key \<Rightarrow> (i64 \<times> coord_event) list \<Rightarrow> status option \<Rightarrow> status option" where
  "board pb k handled = fold (\<lambda>(now, ev). decide pb now k ev) handled"

lemma board_simps [simp]:
  "board pb k [] latest = latest"
  "board pb k (handled @ [(now, ev)]) latest = decide pb now k ev (board pb k handled latest)"
  by (simp_all add: board_def)

text \<open>A failure that concerns the board: a job of a user for this alarm.\<close>

fun user_failure :: "alarm_key \<Rightarrow> coord_event \<Rightarrow> bool" where
  "user_failure k (On_Outcome (Failed j)) \<longleftrightarrow> job_key j = k \<and> job_user_initiated j"
| "user_failure k _ \<longleftrightarrow> False"

section \<open>The coordinator keeps the board\<close>

abbreviation latest :: "cmachine \<Rightarrow> alarm_key \<Rightarrow> status option" where
  "latest s k \<equiv> get_latest_status (cm_coord s) k"

lemma latest_eq: "latest s k = (case spec s k of Some (st, n) \<Rightarrow> Some st | None \<Rightarrow> map_option fst (conf s k))"
  by (simp add: get_latest_status_def split: option.split)

lemma latest_record: "latest (record_intent k' st cf s) k = (if k' = k then Some st else latest s k)"
  by (simp add: latest_eq split: option.split)

lemma latest_automated: "latest (automated_result pb st s) k = decide_automated pb k st (latest s k)"
  by (auto simp: automated_result_def decide_automated_def latest_record Let_def)

lemma latest_user: "latest (user_result pb now key action user cf s) k = decide_user pb now k key action user (latest s k)"
  by (auto simp: user_result_def decide_user_def latest_record latest_state_def latest_wake_def split: option.splits)

lemma latest_committed:
  assumes inv: "cm_inv pb s" and j: "j \<in> set (cm_jobs s)"
  shows "latest (cm_next pb now (On_Outcome (Committed j)) s) k = latest s k"
proof -
  have run: "cm_running s" using inv by (simp add: cm_inv_def)
  obtain st m where sp: "spec s (job_key j) = Some (st, m)" "m = job_id j \<longrightarrow> st = job_status j"
    by (rule flight_spec [OF inv j])
  then show ?thesis
    by (auto simp: cm_next_committed [OF run] latest_eq split: option.splits)
qed

lemma latest_failed:
  assumes inv: "cm_inv pb s" and j: "j \<in> set (cm_jobs s)" and other: "\<not> (job_key j = k \<and> job_user_initiated j)"
  shows "latest (cm_next pb now (On_Outcome (Failed j)) s) k = latest s k"
proof -
  have run: "cm_running s" using inv by (simp add: cm_inv_def)
  obtain st m where sp: "spec s (job_key j) = Some (st, m)" "m = job_id j \<longrightarrow> st = job_status j"
    by (rule flight_spec [OF inv j])
  with other show ?thesis
    by (auto simp: cm_next_failed [OF run sp(1)] latest_eq split: option.splits)
qed

lemma latest_message:
  assumes "cm_running s"
  shows "latest (cm_next pb now (On_User msg) s) k = decide_message pb now k msg (latest s k)"
    and "latest (cm_next pb now (On_Automated msg) s) k = decide_message pb now k msg (latest s k)"
  by (cases msg; simp add: cm_next_user [OF assms] cm_next_automated [OF assms] cm_next_snapshot [OF assms]
      latest_user latest_automated)+

lemma latest_decided:
  assumes inv: "cm_inv pb s" and en: "cm_enabled ev s" and ok: "\<not> user_failure k ev"
  shows "latest (cm_next pb now ev s) k = decide pb now k ev (latest s k)"
proof -
  have run: "cm_running s" using inv by (simp add: cm_inv_def)
  show ?thesis
  proof (cases ev)
    case (On_Outcome r)
    with en ok show ?thesis
      by (cases r) (auto simp: latest_committed [OF inv] latest_failed [OF inv] latest_automated
          cm_next_automated [OF run])
  qed (use en in \<open>simp_all add: latest_message [OF run] cm_next_snapshot [OF run]\<close>)
qed

text \<open>
  The coordinator decides like a board. In every reachable state, whatever job is in flight
  for the alarm and whatever intent waits behind it, a message about the alarm changes its
  latest status exactly as the policy says for the latest status alone, and neither a commit
  nor the failure of an automated job changes it; other alarms are not touched.
\<close>

theorem coordinator_refines_board:
  assumes "reach cm_start (cm_step pb) s" and "cm_enabled ev s" and "\<not> user_failure k ev"
  shows "get_latest_status (cm_coord (cm_next pb now ev s)) k =
    decide pb now k ev (get_latest_status (cm_coord s) k)"
  by (rule latest_decided [OF reach_cm_inv [OF assms(1)] assms(2,3)])

theorem coordinator_refines_board_witness:
  "get_latest_status (cm_coord (cm_next sample_proto 500 (On_User (UserUpdate demo_key Activate ''op'' 8)) demo_run))
     demo_key = Some (build_user_status sample_proto 500 demo_key Activate ''op'')"
proof -
  have "get_latest_status (cm_coord demo_run) demo_key = Some demo_status"
    by (simp add: get_latest_status_def)
  moreover have "status_state sample_proto demo_status = Bypassed"
    by (simp add: demo_status_def build_user_status_def status_state_def sample_proto_ok)
  ultimately show ?thesis
    using coordinator_refines_board [OF reach_demo, of "On_User (UserUpdate demo_key Activate ''op'' 8)" demo_key 500]
    by (simp add: decide_user_def)
qed

end
