(* ===== verification/Alarm_Process.thy ===== *)
theory Alarm_Process
  imports Alarm_Restart Alarm_Board
begin

text \<open>
  The whole process after its startup (\<open>runtime.rs\<close>, \<open>main.rs\<close>): the automated ingress with
  its drain task, the user ingress, and the four tasks with their bounded channels. The
  coordinator takes its next message by the biased select over its three channels. Beside the
  state stand the logs of what the coordinator has handled, which user messages were queued,
  what the publisher has accepted and what users have asked for.

  The process refines the ingress machine, the bounded service and the observed service, so that
  their theorems hold of it; new are the theorems from one end to the other: from a submitted
  update or command to the topic.
\<close>

section \<open>The machine\<close>

record ('r, 'q, 'h) alarms_process =
  ap_ingress :: "'r ingress"
  ap_users :: "domain_input list"
  ap_tasks :: "('q, 'h) bounded"
  ap_handled :: "(i64 \<times> coord_event) list"
  ap_queued :: "domain_input list"
  ap_topic :: "(alarm_key \<times> status) list"
  ap_commands :: "(confirmation \<times> alarm_key \<times> status) list"

definition process_new ::
  "'r ring_ops \<Rightarrow> ('q, 'h) delay_ops \<Rightarrow> queue_capacity_config \<Rightarrow> hydrated_statuses \<Rightarrow> ('r, 'q, 'h) alarms_process" where
  "process_new ring ops cfg h = \<lparr>ap_ingress = ingress_new ring (unat (cap_automated cfg)), ap_users = [],
     ap_tasks = bounded_start_state ops h, ap_handled = [], ap_queued = [], ap_topic = [], ap_commands = []\<rparr>"

text \<open>The coordinator's receivers. Their senders live as long as the process.\<close>

definition process_ports :: "('r, 'q, 'h) alarms_process \<Rightarrow> coord_ports" where
  "process_ports p = \<lparr>outcome_rx = \<lparr>rx_queue = sv_outcome_q (b_service (ap_tasks p)), rx_open = True\<rparr>,
     user_rx = \<lparr>rx_queue = ap_users p, rx_open = True\<rparr>,
     automated_rx = \<lparr>rx_queue = ig_queue (ap_ingress p), rx_open = True\<rparr>\<rparr>"

text \<open>
  The turns: a part of the automated ingress, a user message, the coordinator's select and the
  handler it picks, another task, and the end of the coordinator's receivers with its task.
\<close>

datatype process_event =
  Ingress_Part ingress_event
| User_Message domain_input
| Coordinator_Selects i64
| Task_Turn bounded_event
| Receivers_Dropped

definition process_ingress ::
  "proto \<Rightarrow> 'r ring_ops \<Rightarrow> ingress_event \<Rightarrow> ('r, 'q, 'h) alarms_process \<Rightarrow> ('r, 'q, 'h) alarms_process option" where
  "process_ingress pb ring ev p =
     (if ev \<in> {Consume, Coordinator_Stopped} then None
      else map_option (\<lambda>i. p\<lparr>ap_ingress := i\<rparr>) (ig_next pb ring ev (ap_ingress p)))"

definition process_user ::
  "queue_capacity_config \<Rightarrow> domain_input \<Rightarrow> ('r, 'q, 'h) alarms_process \<Rightarrow> ('r, 'q, 'h) alarms_process" where
  "process_user cfg m p =
     (case user_try_send (unat (cap_user cfg)) (ig_open (ap_ingress p)) (ap_users p) m of
        (q, ms, Inr queued) \<Rightarrow> p\<lparr>ap_users := q, ap_queued := ap_queued p @ [m]\<rparr>
      | (q, ms, Inl e) \<Rightarrow> p)"

definition process_select ::
  "proto \<Rightarrow> serializer \<Rightarrow> chrono_ops \<Rightarrow> ('q, 'h) delay_ops \<Rightarrow> i64 \<Rightarrow> ('r, 'q, 'h) alarms_process \<Rightarrow>
   ('r, 'q, 'h) alarms_process option" where
  "process_select pb js ch ops now p =
     (let (ev, ports) = coord_select (process_ports p) in
      if ev = Blocked then None
      else map_option (\<lambda>b. p\<lparr>ap_tasks := b, ap_users := rx_queue (user_rx ports),
             ap_ingress := (ap_ingress p)\<lparr>ig_queue := rx_queue (automated_rx ports)\<rparr>,
             ap_handled := ap_handled p @ [(now, ev)],
             ap_commands := ap_commands p @ commands_by pb (Coordinator_Turn now ev)\<rparr>)
           (bounded_take pb js ch ops (Coordinator_Turn now ev) (ap_tasks p)))"

fun accepted_in :: "bounded_event \<Rightarrow> ('q, 'h) bounded \<Rightarrow> (alarm_key \<times> status) list" where
  "accepted_in (Take ev) b = accepted_by ev (b_service b)"
| "accepted_in _ b = []"

fun of_coordinator :: "bounded_event \<Rightarrow> bool" where
  "of_coordinator (Take ev) = coordinator_turn ev"
| "of_coordinator _ = False"

definition process_task ::
  "proto \<Rightarrow> serializer \<Rightarrow> chrono_ops \<Rightarrow> ('q, 'h) delay_ops \<Rightarrow> queue_capacity_config \<Rightarrow> bounded_event \<Rightarrow>
   ('r, 'q, 'h) alarms_process \<Rightarrow> ('r, 'q, 'h) alarms_process option" where
  "process_task pb js ch ops cfg ev p =
     (if of_coordinator ev then None
      else map_option (\<lambda>b. p\<lparr>ap_tasks := b, ap_topic := ap_topic p @ accepted_in ev (ap_tasks p)\<rparr>)
        (bounded_next pb js ch ops cfg ev (ap_tasks p)))"

fun process_next ::
  "proto \<Rightarrow> serializer \<Rightarrow> chrono_ops \<Rightarrow> 'r ring_ops \<Rightarrow> ('q, 'h) delay_ops \<Rightarrow> queue_capacity_config \<Rightarrow> process_event \<Rightarrow>
   ('r, 'q, 'h) alarms_process \<Rightarrow> ('r, 'q, 'h) alarms_process option" where
  "process_next pb js ch ring ops cfg (Ingress_Part ev) p = process_ingress pb ring ev p"
| "process_next pb js ch ring ops cfg (User_Message m) p = Some (process_user cfg m p)"
| "process_next pb js ch ring ops cfg (Coordinator_Selects now) p = process_select pb js ch ops now p"
| "process_next pb js ch ring ops cfg (Task_Turn ev) p = process_task pb js ch ops cfg ev p"
| "process_next pb js ch ring ops cfg Receivers_Dropped p =
     (if sv_running (b_service (ap_tasks p)) then None
      else map_option (\<lambda>i. p\<lparr>ap_ingress := i\<rparr>) (ig_next pb ring Coordinator_Stopped (ap_ingress p)))"

inductive process_step ::
  "proto \<Rightarrow> serializer \<Rightarrow> chrono_ops \<Rightarrow> 'r ring_ops \<Rightarrow> ('q, 'h) delay_ops \<Rightarrow> queue_capacity_config \<Rightarrow>
   ('r, 'q, 'h) alarms_process \<Rightarrow> ('r, 'q, 'h) alarms_process \<Rightarrow> bool"
  for pb js ch ring ops cfg where
  process_stepI: "id_counter (sv_coord (b_service (ap_tasks p))) \<noteq> - 1 \<Longrightarrow> \<not> sv_panicked (b_service (ap_tasks p)) \<Longrightarrow>
     process_next pb js ch ring ops cfg ev p = Some p' \<Longrightarrow> process_step pb js ch ring ops cfg p p'"

inductive_cases process_stepE: "process_step pb js ch ring ops cfg p p'"

definition process_start ::
  "'r ring_ops \<Rightarrow> ('q, 'h) delay_ops \<Rightarrow> queue_capacity_config \<Rightarrow> hydrated_statuses \<Rightarrow> ('r, 'q, 'h) alarms_process \<Rightarrow> bool" where
  "process_start ring ops cfg h p \<longleftrightarrow> hm_wf h \<and> 0 < unat (cap_automated cfg) \<and> p = process_new ring ops cfg h"

section \<open>What a step changes\<close>

lemma process_user_eq:
  "process_user cfg m p = (if ig_open (ap_ingress p) \<and> length (ap_users p) < unat (cap_user cfg)
     then p\<lparr>ap_users := ap_users p @ [m], ap_queued := ap_queued p @ [m]\<rparr> else p)"
  unfolding process_user_def user_try_send_def try_send_def by simp

lemma ingress_changes:
  assumes "process_ingress pb ring ev p = Some p'"
  shows "\<exists>i. ig_next pb ring ev (ap_ingress p) = Some i \<and> p' = p\<lparr>ap_ingress := i\<rparr> \<and> ev \<notin> {Consume, Coordinator_Stopped}"
  using assms by (auto simp: process_ingress_def split: if_splits)

text \<open>The select takes the first message of one channel; for the ingress it is a \<open>Consume\<close>.\<close>

lemma select_spec:
  assumes "process_select pb js ch ops now p = Some p'"
  obtains ev b where "bounded_take pb js ch ops (Coordinator_Turn now ev) (ap_tasks p) = Some b" "ev \<noteq> Blocked"
    "ap_tasks p' = b" "ap_handled p' = ap_handled p @ [(now, ev)]" "ap_queued p' = ap_queued p" "ap_topic p' = ap_topic p"
    "ap_commands p' = ap_commands p @ commands_by pb (Coordinator_Turn now ev)"
    "(case ev of
        On_User m \<Rightarrow> ap_users p = m # ap_users p' \<and> ap_ingress p' = ap_ingress p
      | On_Automated m \<Rightarrow> ap_users p' = ap_users p \<and> ig_queue (ap_ingress p) = m # ig_queue (ap_ingress p') \<and>
          ap_ingress p' = (ap_ingress p)\<lparr>ig_queue := ig_queue (ap_ingress p')\<rparr>
      | _ \<Rightarrow> ap_users p' = ap_users p \<and> ap_ingress p' = ap_ingress p)"
proof -
  obtain ev ports where sel: "coord_select (process_ports p) = (ev, ports)" by fastforce
  with assms obtain b where b: "bounded_take pb js ch ops (Coordinator_Turn now ev) (ap_tasks p) = Some b" "ev \<noteq> Blocked"
    and p': "p' = p\<lparr>ap_tasks := b, ap_users := rx_queue (user_rx ports),
             ap_ingress := (ap_ingress p)\<lparr>ig_queue := rx_queue (automated_rx ports)\<rparr>,
             ap_handled := ap_handled p @ [(now, ev)],
             ap_commands := ap_commands p @ commands_by pb (Coordinator_Turn now ev)\<rparr>"
    by (auto simp: process_select_def split: if_splits)
  have "(case ev of
        On_User m \<Rightarrow> ap_users p = m # ap_users p' \<and> ap_ingress p' = ap_ingress p
      | On_Automated m \<Rightarrow> ap_users p' = ap_users p \<and> ig_queue (ap_ingress p) = m # ig_queue (ap_ingress p') \<and>
          ap_ingress p' = (ap_ingress p)\<lparr>ig_queue := ig_queue (ap_ingress p')\<rparr>
      | _ \<Rightarrow> ap_users p' = ap_users p \<and> ap_ingress p' = ap_ingress p)"
    using sel b(2) by (auto simp: p' coord_select_cases process_ports_def split: list.splits)
  with that [OF b(1,2)] show thesis by (simp add: p')
qed

lemma task_changes:
  assumes "process_task pb js ch ops cfg ev p = Some p'"
  obtains b where "bounded_next pb js ch ops cfg ev (ap_tasks p) = Some b" "\<not> of_coordinator ev"
    "p' = p\<lparr>ap_tasks := b, ap_topic := ap_topic p @ accepted_in ev (ap_tasks p)\<rparr>"
  using assms by (auto simp: process_task_def split: if_splits)

lemma process_step_cases [consumes 1, case_names ingress user select task]:
  assumes "process_step pb js ch ring ops cfg p p'"
    and "\<And>ev i. ig_next pb ring ev (ap_ingress p) = Some i \<Longrightarrow> ev \<noteq> Consume \<Longrightarrow>
      ev = Coordinator_Stopped \<longrightarrow> \<not> sv_running (b_service (ap_tasks p)) \<Longrightarrow> p' = p\<lparr>ap_ingress := i\<rparr> \<Longrightarrow> Q"
    and "\<And>m. p' = process_user cfg m p \<Longrightarrow> Q"
    and "\<And>now. id_counter (sv_coord (b_service (ap_tasks p))) \<noteq> - 1 \<Longrightarrow> \<not> sv_panicked (b_service (ap_tasks p)) \<Longrightarrow>
      process_select pb js ch ops now p = Some p' \<Longrightarrow> Q"
    and "\<And>ev b. id_counter (sv_coord (b_service (ap_tasks p))) \<noteq> - 1 \<Longrightarrow> \<not> sv_panicked (b_service (ap_tasks p)) \<Longrightarrow>
      bounded_next pb js ch ops cfg ev (ap_tasks p) = Some b \<Longrightarrow> \<not> of_coordinator ev \<Longrightarrow>
      p' = p\<lparr>ap_tasks := b, ap_topic := ap_topic p @ accepted_in ev (ap_tasks p)\<rparr> \<Longrightarrow> Q"
  shows Q
  using assms(1)
proof (rule process_stepE)
  fix ev assume run: "id_counter (sv_coord (b_service (ap_tasks p))) \<noteq> - 1" "\<not> sv_panicked (b_service (ap_tasks p))"
    and nxt: "process_next pb js ch ring ops cfg ev p = Some p'"
  show Q
  proof (cases ev)
    case (Ingress_Part iev)
    with nxt have "process_ingress pb ring iev p = Some p'" by simp
    with ingress_changes [OF this] assms(2) show Q by auto
  next
    case (User_Message m)
    with nxt show Q by (intro assms(3) [of m]) simp
  next
    case (Coordinator_Selects now)
    with nxt assms(4) [OF run] show Q by simp
  next
    case (Task_Turn tev)
    with nxt have "process_task pb js ch ops cfg tev p = Some p'" by simp
    then obtain b where "bounded_next pb js ch ops cfg tev (ap_tasks p) = Some b" "\<not> of_coordinator tev"
      "p' = p\<lparr>ap_tasks := b, ap_topic := ap_topic p @ accepted_in tev (ap_tasks p)\<rparr>" by (rule task_changes)
    with assms(5) [OF run] show Q by blast
  next
    case Receivers_Dropped
    with nxt assms(2) [of Coordinator_Stopped] show Q by (auto split: if_splits)
  qed
qed

lemma task_keeps:
  assumes "service_next pb js ch ops ev s = Some t" "\<not> coordinator_turn ev"
  shows "sv_coord t = sv_coord s \<and> sv_running t = sv_running s"
proof (cases ev)
  case (Publish_Event pe)
  with assms show ?thesis
    by (cases pe) (auto simp: after_publish_def simp del: publish_turn.simps split: option.splits)
qed (use assms in \<open>auto simp: after_workflow_def after_snooze_def after_publish_def
    simp del: publish_turn.simps workflow_turn.simps split: list.splits option.splits\<close>)

lemma bounded_task_keeps:
  assumes "bounded_next pb js ch ops cfg ev b = Some b'" "\<not> of_coordinator ev"
  shows "sv_coord (b_service b') = sv_coord (b_service b) \<and> sv_running (b_service b') = sv_running (b_service b)"
proof (cases "\<exists>e. ev = Take e")
  case True
  then obtain e where e: "ev = Take e" by blast
  with assms have "bounded_take pb js ch ops e b = Some b'" by simp
  from task_keeps [OF take_simulates [OF this]] assms(2) e show ?thesis by simp
next
  case False
  then have "bounded_send_step cfg ev b = Some b'" using assms by (cases ev) auto
  then have "unbound b' = unbound b" by (rule send_stutters)
  then show ?thesis by (metis unbound_simps(1,2))
qed

lemma coord_take_running:
  "bounded_take pb js ch ops (Coordinator_Turn now ev) b = Some b' \<Longrightarrow> sv_running (b_service b)"
  by (auto simp: Let_def split: if_splits)

section \<open>The parts of a run\<close>

interpretation process_tasks: stuttering_simulation "process_start ring ops cfg h"
    "process_step pb js ch ring ops cfg" "bounded_start ops" "bounded_step pb js ch ops cfg"
    "\<lambda>p b. b = ap_tasks p" for pb js ch ring ops cfg h
proof (unfold_locales, goal_cases)
  case (1 p)
  then show ?case by (auto simp: process_start_def process_new_def bounded_start_def)
next
  case (2 b p p')
  from 2(3) show ?case
  proof (cases rule: process_step_cases)
    case (select now)
    from select(3) obtain ev where "bounded_take pb js ch ops (Coordinator_Turn now ev) (ap_tasks p) = Some (ap_tasks p')"
      by (rule select_spec) auto
    then have "bounded_next pb js ch ops cfg (Take (Coordinator_Turn now ev)) (ap_tasks p) = Some (ap_tasks p')" by simp
    from bounded_stepI [OF select(1,2) this] 2(2) show ?thesis by blast
  next
    case (task ev b)
    with 2(2) show ?thesis by (auto intro: bounded_stepI)
  qed (use 2(2) in \<open>simp_all add: process_user_eq\<close>)
qed

lemma reach_tasks:
  "reach (process_start ring ops cfg h) (process_step pb js ch ring ops cfg) p \<Longrightarrow>
     reach (bounded_start ops) (bounded_step pb js ch ops cfg) (ap_tasks p)"
  using process_tasks.reach_matched by blast

lemma accepted_unbound: "accepted_by ev (b_service b) = accepted_by ev (unbound b)"
  by (cases ev) simp_all

lemma commands_of_task: "\<not> coordinator_turn ev \<Longrightarrow> commands_by pb ev = []"
  by (cases ev) simp_all

definition seen :: "('r, 'q, 'h) alarms_process \<Rightarrow> ('q, 'h) observed" where
  "seen p = \<lparr>ob_service = unbound (ap_tasks p), ob_topic = ap_topic p, ob_commands = ap_commands p\<rparr>"

interpretation process_seen: stuttering_simulation "process_start ring ops cfg h"
    "process_step pb js ch ring ops cfg" "observed_start ops h" "observed_step pb js ch ops"
    "\<lambda>p ob. ob = seen p" for pb js ch ring ops cfg h
proof (unfold_locales, goal_cases)
  case (1 p)
  then show ?case
    by (auto simp: process_start_def process_new_def observed_start_def observed_start_state_def seen_def
        bounded_start_state_def unbound_def runtime_start_def)
next
  case (2 ob p p')
  from 2(3) show ?case
  proof (cases rule: process_step_cases)
    case (select now)
    from select(3) obtain ev where t: "bounded_take pb js ch ops (Coordinator_Turn now ev) (ap_tasks p) = Some (ap_tasks p')"
      and same: "ap_topic p' = ap_topic p" "ap_commands p' = ap_commands p @ commands_by pb (Coordinator_Turn now ev)"
      by (rule select_spec) auto
    have "observed_next pb js ch ops (Coordinator_Turn now ev) (seen p) = Some (seen p')"
      using take_simulates [OF t] same by (simp add: observed_next_Some seen_def)
    with select(1,2) 2(2) show ?thesis by (auto simp: seen_def intro: observed_stepI)
  next
    case (task ev b)
    show ?thesis
    proof (cases "\<exists>e. ev = Take e")
      case True
      then obtain e where e: "ev = Take e" by blast
      with task(3) have t: "bounded_take pb js ch ops e (ap_tasks p) = Some b" by simp
      have "observed_next pb js ch ops e (seen p) = Some (seen p')"
        using take_simulates [OF t] task(4,5) e by (simp add: observed_next_Some seen_def accepted_unbound commands_of_task)
      with task(1,2) 2(2) show ?thesis by (auto simp: seen_def intro: observed_stepI)
    next
      case False
      then have "bounded_send_step cfg ev (ap_tasks p) = Some b" "accepted_in ev (ap_tasks p) = []"
        using task(3) by (cases ev; simp)+
      with send_stutters [of cfg ev "ap_tasks p" b] task(5) 2(2) show ?thesis by (simp add: seen_def)
    qed
  qed (use 2(2) in \<open>simp_all add: process_user_eq seen_def\<close>)
qed

lemma reach_seen:
  "reach (process_start ring ops cfg h) (process_step pb js ch ring ops cfg) p \<Longrightarrow>
     reach (observed_start ops h) (observed_step pb js ch ops) (seen p)"
  using process_seen.reach_matched by blast

interpretation process_ig: stuttering_simulation "process_start ring ops cfg h"
    "process_step pb js ch ring ops cfg" "ig_start ring" "ig_step pb ring"
    "\<lambda>p i. i = ap_ingress p \<and> (sv_running (b_service (ap_tasks p)) \<longrightarrow> ig_open i)" for pb js ch ring ops cfg h
proof (unfold_locales, goal_cases)
  case (1 p)
  then show ?case by (auto simp: process_start_def process_new_def ig_start_def ingress_new_def)
next
  case (2 i p p')
  from 2(3) show ?case
  proof (cases rule: process_step_cases)
    case (ingress ev i')
    have "ig_open i' = ig_open (ap_ingress p)" if "ev \<noteq> Coordinator_Stopped"
      using ingress(1) that
      by (cases ev) (auto simp: ig_submit_def ig_direct_def ig_retain_def ig_pop_def ig_deliver_def Let_def
          split: if_splits caller.splits drain.splits list.splits prod.splits sum.splits channel_send_error.splits)
    with 2(2) ingress show ?thesis by (auto intro: ig_stepI)
  next
    case (select now)
    from select(3) obtain ev where t: "bounded_take pb js ch ops (Coordinator_Turn now ev) (ap_tasks p) = Some (ap_tasks p')"
      and c: "(case ev of
        On_User m \<Rightarrow> ap_users p = m # ap_users p' \<and> ap_ingress p' = ap_ingress p
      | On_Automated m \<Rightarrow> ap_users p' = ap_users p \<and> ig_queue (ap_ingress p) = m # ig_queue (ap_ingress p') \<and>
          ap_ingress p' = (ap_ingress p)\<lparr>ig_queue := ig_queue (ap_ingress p')\<rparr>
      | _ \<Rightarrow> ap_users p' = ap_users p \<and> ap_ingress p' = ap_ingress p)"
      by (rule select_spec) auto
    from coord_take_running [OF t] 2(2) have opn: "ig_open (ap_ingress p)" by blast
    show ?thesis
    proof (cases "\<exists>m. ev = On_Automated m")
      case True
      then obtain m where "ev = On_Automated m" by blast
      with c have q: "ig_queue (ap_ingress p) = m # ig_queue (ap_ingress p')"
        and i: "ap_ingress p' = (ap_ingress p)\<lparr>ig_queue := ig_queue (ap_ingress p')\<rparr>" by simp_all
      have "ig_next pb ring Consume (ap_ingress p) = Some (ap_ingress p')"
        using q i opn by simp
      then have st: "ig_step pb ring (ap_ingress p) (ap_ingress p')" by (rule ig_stepI)
      moreover have "ig_open (ap_ingress p')" using i opn by (metis ingress.simps(6) ingress.surjective ingress.update_convs(7))
      ultimately show ?thesis using 2(2) by blast
    next
      case False
      with c have "ap_ingress p' = ap_ingress p" by (cases ev) simp_all
      with opn 2(2) show ?thesis by simp
    qed
  next
    case (task ev b)
    with bounded_task_keeps [OF task(3,4)] 2(2) show ?thesis by auto
  qed (use 2(2) in \<open>auto simp: process_user_eq\<close>)
qed

lemma reach_ingress:
  assumes "reach (process_start ring ops cfg h) (process_step pb js ch ring ops cfg) p"
  shows "reach (ig_start ring) (ig_step pb ring) (ap_ingress p)"
    and "sv_running (b_service (ap_tasks p)) \<Longrightarrow> ig_open (ap_ingress p)"
  using process_ig.reach_matched [OF assms] by blast+

section \<open>The logs\<close>

text \<open>What the coordinator has taken from its two input channels.\<close>

fun taken_user :: "i64 \<times> coord_event \<Rightarrow> domain_input list" where
  "taken_user (now, On_User m) = [m]"
| "taken_user _ = []"

fun taken_automated :: "i64 \<times> coord_event \<Rightarrow> domain_input list" where
  "taken_automated (now, On_Automated m) = [m]"
| "taken_automated _ = []"

definition handled_user :: "(i64 \<times> coord_event) list \<Rightarrow> domain_input list" where
  "handled_user handled = List.concat (map taken_user handled)"

definition handled_automated :: "(i64 \<times> coord_event) list \<Rightarrow> domain_input list" where
  "handled_automated handled = List.concat (map taken_automated handled)"

lemma handled_simps [simp]:
  "handled_user [] = []" "handled_automated [] = []"
  "handled_user (es @ fs) = handled_user es @ handled_user fs"
  "handled_automated (es @ fs) = handled_automated es @ handled_automated fs"
  "handled_user [e] = taken_user e" "handled_automated [e] = taken_automated e"
  by (simp_all add: handled_user_def handled_automated_def)

definition logs_ok :: "('r, 'q, 'h) alarms_process \<Rightarrow> bool" where
  "logs_ok p \<longleftrightarrow> handled_user (ap_handled p) @ ap_users p = ap_queued p \<and>
     handled_automated (ap_handled p) @ ig_queue (ap_ingress p) = map AutomatedUpdate (ig_sent (ap_ingress p))"

lemma ingress_sends:
  assumes "ig_next pb ring ev i = Some i'" "ev \<noteq> Consume"
  shows "\<exists>sts. ig_queue i' = ig_queue i @ map AutomatedUpdate sts \<and> ig_sent i' = ig_sent i @ sts"
  using assms
  by (cases ev) (auto simp: ig_submit_def ig_direct_def ig_retain_def ig_pop_def ig_deliver_def try_send_def Let_def
      split: if_splits caller.splits drain.splits prod.splits)

interpretation process_logs: invariant_system "process_start ring ops cfg h" "process_step pb js ch ring ops cfg" logs_ok
  for pb js ch ring ops cfg h
proof (unfold_locales, goal_cases)
  case (1 p)
  then show ?case by (auto simp: process_start_def process_new_def logs_ok_def ingress_new_def)
next
  case (2 p p')
  from 2(1) show ?case
  proof (cases rule: process_step_cases)
    case (ingress ev i)
    with ingress_sends [OF ingress(1,2)] 2(2) show ?thesis by (auto simp: logs_ok_def)
  next
    case (user m)
    with 2(2) show ?thesis by (auto simp: logs_ok_def process_user_eq)
  next
    case (select now)
    from select(3) obtain ev where h: "ap_handled p' = ap_handled p @ [(now, ev)]" "ap_queued p' = ap_queued p"
      and c: "(case ev of
        On_User m \<Rightarrow> ap_users p = m # ap_users p' \<and> ap_ingress p' = ap_ingress p
      | On_Automated m \<Rightarrow> ap_users p' = ap_users p \<and> ig_queue (ap_ingress p) = m # ig_queue (ap_ingress p') \<and>
          ap_ingress p' = (ap_ingress p)\<lparr>ig_queue := ig_queue (ap_ingress p')\<rparr>
      | _ \<Rightarrow> ap_users p' = ap_users p \<and> ap_ingress p' = ap_ingress p)"
      by (rule select_spec) auto
    have "ig_sent (ap_ingress p') = ig_sent (ap_ingress p)"
    proof (cases "\<exists>m. ev = On_Automated m")
      case True
      then obtain m where "ev = On_Automated m" by blast
      with c have "ap_ingress p' = (ap_ingress p)\<lparr>ig_queue := ig_queue (ap_ingress p')\<rparr>" by simp
      then show ?thesis by (metis ingress.select_convs(9) ingress.surjective ingress.update_convs(7))
    next
      case False
      with c show ?thesis by (cases ev) simp_all
    qed
    with h c 2(2) show ?thesis by (cases ev) (auto simp: logs_ok_def)
  next
    case (task ev b)
    with 2(2) show ?thesis by (simp add: logs_ok_def)
  qed
qed

fun update_of :: "domain_input \<Rightarrow> status list" where
  "update_of (AutomatedUpdate st) = [st]"
| "update_of _ = []"

definition updates_of :: "domain_input list \<Rightarrow> status list" where
  "updates_of ms = List.concat (map update_of ms)"

lemma updates_of_simps [simp]:
  "updates_of (xs @ ys) = updates_of xs @ updates_of ys" "updates_of (map AutomatedUpdate sts) = sts"
  by (simp add: updates_of_def) (induction sts; simp add: updates_of_def)

lemma sent_or_queued: "logs_ok p \<Longrightarrow> ig_sent (ap_ingress p) =
    updates_of (handled_automated (ap_handled p)) @ updates_of (ig_queue (ap_ingress p))"
  by (metis logs_ok_def updates_of_simps)

section \<open>From end to end\<close>

text \<open>The updates that have been submitted and that the coordinator has not taken yet.\<close>

definition on_the_way :: "('r \<Rightarrow> (alarm_key \<times> status) list) \<Rightarrow> 'r ingress \<Rightarrow> status list" where
  "on_the_way entries i = updates_of (ig_queue i) @ held (ig_drain i) @ map snd (retained entries i) @ in_call (ig_caller i)"

lemma flow_handled: "logs_ok p \<Longrightarrow> flow entries (ap_ingress p) =
    updates_of (handled_automated (ap_handled p)) @ on_the_way entries (ap_ingress p)"
  by (simp add: flow_def on_the_way_def sent_or_queued)

text \<open>
  C8: nothing is lost or reordered on the way to the coordinator. Per alarm, the updates the
  coordinator handles are in the order the readers submitted them, some of them coalesced away
  under overload; once nothing of the alarm is on the way, the last one it has handled is the
  last one submitted. User messages are handled in the order they were queued, each once.
\<close>

theorem handled_in_order:
  assumes "ring_laws ring entries" and sl: "service_laws js ops view"
    and r: "reach (process_start ring ops cfg h) (process_step pb js ch ring ops cfg) p"
  shows "subseq (on_key pb k (updates_of (handled_automated (ap_handled p)))) (on_key pb k (ig_submitted (ap_ingress p))) \<and>
    (on_key pb k (on_the_way entries (ap_ingress p)) = [] \<and> on_key pb k (ig_submitted (ap_ingress p)) \<noteq> [] \<longrightarrow>
      on_key pb k (updates_of (handled_automated (ap_handled p))) \<noteq> [] \<and>
      last (on_key pb k (updates_of (handled_automated (ap_handled p)))) = last (on_key pb k (ig_submitted (ap_ingress p)))) \<and>
    handled_user (ap_handled p) @ ap_users p = ap_queued p"
proof -
  let ?i = "ap_ingress p"
  note logs = process_logs.reach_inv [OF r]
  from reach_service_rel [OF sl reach_bounded_service [OF reach_tasks [OF r]]] obtain m where
    "cm_inv pb m" "simulates (unbound (ap_tasks p)) m" by auto
  then have "sv_running (b_service (ap_tasks p))" by (simp add: simulates_def cm_inv_def)
  from reach_ingress(2) [OF r this] reach_ig_inv [OF assms(1) reach_ingress(1) [OF r]]
  have "subseq (on_key pb k (flow entries ?i)) (on_key pb k (ig_submitted ?i))"
    "same_last (on_key pb k (flow entries ?i)) (on_key pb k (ig_submitted ?i))"
    by (simp_all add: ig_inv_def inv_order_def)
  then show ?thesis
    using subseq_app_left [of "on_key pb k (updates_of (handled_automated (ap_handled p)))"] logs
    unfolding flow_handled [OF logs] on_key_simps same_last_def by (auto simp: logs_ok_def)
qed

lemma board_kept:
  assumes sl: "service_laws js ops view"
    and r: "reach (process_start ring ops cfg h) (process_step pb js ch ring ops cfg) p"
  shows "(\<forall>(now, ev)\<in>set (ap_handled p). \<not> user_failure k ev) \<longrightarrow>
    get_latest_status (sv_coord (b_service (ap_tasks p))) k = board pb k (ap_handled p) (hm_get h k)"
  using r
proof (induction rule: reach.induct)
  case (reach_init p)
  then show ?case
    by (auto simp: process_start_def process_new_def bounded_start_state_def runtime_start_def get_latest_status_def
        coordinator_new_confirmed option.map_comp comp_def option.map_ident)
next
  case (reach_step p p')
  from reach_step(2) show ?case
  proof (cases rule: process_step_cases)
    case (select now)
    from select(3) obtain ev where t: "bounded_take pb js ch ops (Coordinator_Turn now ev) (ap_tasks p) = Some (ap_tasks p')"
      and h: "ap_handled p' = ap_handled p @ [(now, ev)]"
      by (rule select_spec) auto
    note nxt = take_simulates [OF t]
    from reach_service_rel [OF sl reach_bounded_service [OF reach_tasks [OF reach_step(1)]]] obtain m where
      m: "cm_inv pb m" "pipe_ok view (unbound (ap_tasks p))" "simulates (unbound (ap_tasks p)) m" by auto
    have "simulates (unbound (ap_tasks p')) (cm_next pb now ev m)"
      using coord_turn_ok [OF m(2,3) _ nxt] select(1) by simp
    then have "sv_coord (b_service (ap_tasks p')) = cm_coord (cm_next pb now ev m)"
      "sv_coord (b_service (ap_tasks p)) = cm_coord m"
      using m(3) by (simp_all add: simulates_def)
    with latest_decided [OF m(1) coord_enabled [OF m(3) nxt], of k] h reach_step.IH show ?thesis by simp
  next
    case (task ev b)
    with bounded_task_keeps [OF task(3,4)] reach_step.IH show ?thesis by simp
  qed (use reach_step.IH in \<open>simp_all add: process_user_eq\<close>)
qed

text \<open>
  The topic shows the decisions. When no job of an alarm is in the service, the last
  status of the alarm on the topic (or, if there is none, the one restored at startup) is what
  the policy has decided on the messages the coordinator has handled, one after the other:
  queues, retries, timers and the work of the tasks in between do not show. This holds unless
  a command for the alarm has failed, which is answered to its user.
\<close>

theorem topic_shows_decisions:
  assumes "service_laws js ops view"
    and "reach (process_start ring ops cfg h) (process_step pb js ch ring ops cfg) p"
    and "\<forall>(now, ev)\<in>set (ap_handled p). \<not> user_failure k ev"
    and "\<forall>j\<in>#pipe_jobs (unbound (ap_tasks p)). job_key j \<noteq> k"
  shows "(case last_on (ap_topic p) k of Some st \<Rightarrow> Some st | None \<Rightarrow> hm_get h k) =
    board pb k (ap_handled p) (hm_get h k)"
proof -
  let ?c = "sv_coord (b_service (ap_tasks p))"
  from reach_service_rel [OF assms(1) reach_bounded_service [OF reach_tasks [OF assms(2)]]] obtain m where
    m: "cm_inv pb m" "simulates (unbound (ap_tasks p)) m" by auto
  have "hm_get (speculative_state ?c) k = None"
    using m assms(4) by (simp add: simulates_def cm_inv_def inv_flight_def flip: set_mset_mset)
  then have "get_latest_status ?c k = map_option fst (hm_get (confirmed_state ?c) k)"
    by (rule get_latest_status_simps)
  with confirmed_without_job [OF assms(1) reach_seen [OF assms(2)], of k] board_kept [OF assms(1,2), of k] assms(3,4)
  show ?thesis by (simp add: seen_def)
qed

section \<open>The process that \<open>main\<close> starts\<close>

definition process_of :: "('r, 'q, 'h) process \<Rightarrow> ('r, 'q, 'h) alarms_process" where
  "process_of started = \<lparr>ap_ingress = automated_tx (pr_ingress started), ap_users = [], ap_tasks = pr_tasks started,
     ap_handled = [], ap_queued = [], ap_topic = [], ap_commands = []\<rparr>"

lemma main_starts_process:
  fixes api :: "('c, 'ts, 'te) aeolus_client" and snapshot_get :: "string \<Rightarrow> string \<Rightarrow> 'pe + string_message list"
  assumes "main_start pb from_json api snapshot_get ef ring ops env env_usize env_u64 = Some (Inr started)"
  shows "\<exists>h. (load_startup_hydration pb from_json api snapshot_get ef (get_aeolus_proxy_host env)
        (get_kafka_host env) (get_kafka_topic env) :: ('ts, 'te, 'pe) hydration_error + hydrated_statuses) = Inr h \<and>
      process_start ring ops (pr_queues started) h (process_of started)"
proof -
  from assms obtain h where
    h: "(load_startup_hydration pb from_json api snapshot_get ef (get_aeolus_proxy_host env)
        (get_kafka_host env) (get_kafka_topic env) :: ('ts, 'te, 'pe) hydration_error + _) = Inr h"
    and p: "pr_tasks started = bounded_start_state ops h" "capacities_ok (pr_queues started)"
      "automated_tx (pr_ingress started) = ingress_new ring (unat (cap_automated (pr_queues started)))"
    by (auto simp: main_start_def start_tasks_def Let_def split: sum.splits if_splits)
  from p(2) have "0 < unat (cap_automated (pr_queues started))"
    by (simp add: capacities_ok_def mpsc_capacity_ok_def word_less_nat_alt)
  with h startup_wf [OF h] p show ?thesis by (simp add: process_start_def process_of_def process_new_def)
qed

section \<open>A run under overload\<close>

fun process_events ::
  "proto \<Rightarrow> serializer \<Rightarrow> chrono_ops \<Rightarrow> 'r ring_ops \<Rightarrow> ('q, 'h) delay_ops \<Rightarrow> queue_capacity_config \<Rightarrow> process_event list \<Rightarrow>
   ('r, 'q, 'h) alarms_process \<Rightarrow> ('r, 'q, 'h) alarms_process option" where
  "process_events pb js ch ring ops cfg [] p = Some p"
| "process_events pb js ch ring ops cfg (ev # evs) p =
     (if id_counter (sv_coord (b_service (ap_tasks p))) = - 1 \<or> sv_panicked (b_service (ap_tasks p)) then None
      else Option.bind (process_next pb js ch ring ops cfg ev p) (process_events pb js ch ring ops cfg evs))"

lemma process_events_steps:
  "process_events pb js ch ring ops cfg evs p = Some p' \<Longrightarrow> (process_step pb js ch ring ops cfg)\<^sup>*\<^sup>* p p'"
proof (induction evs arbitrary: p)
  case (Cons ev evs)
  then obtain u where "process_step pb js ch ring ops cfg p u" "process_events pb js ch ring ops cfg evs u = Some p'"
    by (auto split: Option.bind_splits if_splits intro: process_stepI)
  with Cons.IH [of u] show ?case by (meson converse_rtranclp_into_rtranclp)
qed simp

definition tiny_config :: queue_capacity_config where
  "tiny_config = \<lparr>cap_automated = 1, cap_user = 1, cap_job = 1, cap_publish = 1, cap_snooze = 1\<rparr>"

text \<open>
  Three updates of an alarm, of which the middle one is coalesced away, and a bypass, which the
  coordinator handles before them and which suppresses them.
\<close>

definition busy_run :: "process_event list" where
  "busy_run = map Ingress_Part [Submit (sample_update Ok), Direct_Send, Submit (sample_update Alarmed), Direct_Send,
     Retain 5, Submit (sample_update Latched)] @
   [User_Message (UserUpdate sample_epics_key (Bypass None) ''op'' 7), Coordinator_Selects 1000, Task_Turn Send_Job,
    Coordinator_Selects 1000, Ingress_Part Notified, Ingress_Part (Pop 6), Ingress_Part Deliver, Coordinator_Selects 1001,
    Ingress_Part (Pop 7)] @
   map Task_Turn [Take Workflow_Job, Send_Workflow, Take (Snooze_Turn near_clocks), Send_Snooze,
    Take Workflow_Snooze, Send_Workflow, Take Publish_Take, Take (Publish_Event (Attempt_Polled 0 1)),
    Take (Publish_Event (Attempt_Answered 0 True 2)), Send_Publish, Take Workflow_Publish, Send_Workflow] @
   [Coordinator_Selects 1002]"

definition busy_process :: "((alarm_key \<times> status) list, sample_queue, nat) alarms_process" where
  "busy_process = the (process_events sample_proto sample_json sample_chrono sample_ring sample_delay tiny_config busy_run
     (process_new sample_ring sample_delay tiny_config hm_new))"

definition busy_shows :: "((alarm_key \<times> status) list, sample_queue, nat) alarms_process \<Rightarrow> bool" where
  "busy_shows p \<longleftrightarrow> sv_job_q (unbound (ap_tasks p)) = [] \<and> sv_workflow (unbound (ap_tasks p)) = [] \<and>
     sv_outcome_q (unbound (ap_tasks p)) = [] \<and> ap_topic p = [(sample_epics_key, beam_bypass)] \<and>
     list_all (\<lambda>(now, ev). \<not> user_failure sample_epics_key ev) (ap_handled p) \<and>
     updates_of (handled_automated (ap_handled p)) = [sample_update Ok, sample_update Latched] \<and>
     on_the_way (\<lambda>r. r) (ap_ingress p) = [] \<and> sv_answers (b_service (ap_tasks p)) = [(7, Inr ())] \<and>
     ap_queued p = [UserUpdate sample_epics_key (Bypass None) ''op'' 7] \<and>
     ig_submitted (ap_ingress p) = [sample_update Ok, sample_update Alarmed, sample_update Latched]"

lemma busy_run_evaluated:
  "case process_events sample_proto sample_json sample_chrono sample_ring sample_delay tiny_config busy_run
     (process_new sample_ring sample_delay tiny_config hm_new) of None \<Rightarrow> False | Some p \<Rightarrow> busy_shows p"
  by code_simp

lemma busy_process_ok:
  "process_events sample_proto sample_json sample_chrono sample_ring sample_delay tiny_config busy_run
     (process_new sample_ring sample_delay tiny_config hm_new) = Some busy_process" "busy_shows busy_process"
  using busy_run_evaluated by (auto simp: busy_process_def split: option.splits)

lemma reach_busy_process:
  "reach (process_start sample_ring sample_delay tiny_config hm_new)
     (process_step sample_proto sample_json sample_chrono sample_ring sample_delay tiny_config) busy_process"
  by (rule reach_steps [OF reach_init process_events_steps [OF busy_process_ok(1)]])
    (simp add: process_start_def tiny_config_def)

lemma busy_update_key: "key_from_status sample_proto (sample_update st) = sample_epics_key"
  by (simp add: sample_update_key sample_epics_key_def)

theorem handled_in_order_witness:
  "last (updates_of (handled_automated (ap_handled busy_process))) = sample_update Latched \<and>
   length (updates_of (handled_automated (ap_handled busy_process))) = 2"
  using handled_in_order [OF sample_ring_laws sample_service_laws reach_busy_process, of sample_epics_key] busy_process_ok(2)
  by (simp add: busy_shows_def busy_update_key)

theorem topic_shows_decisions_witness:
  "board sample_proto sample_epics_key (ap_handled busy_process) None = Some beam_bypass \<and>
   length (ap_handled busy_process) = 4"
proof -
  have "\<forall>j\<in>#pipe_jobs (unbound (ap_tasks busy_process)). job_key j \<noteq> sample_epics_key"
    "\<forall>(now, ev)\<in>set (ap_handled busy_process). \<not> user_failure sample_epics_key ev"
    "last_on (ap_topic busy_process) sample_epics_key = Some beam_bypass"
    using busy_process_ok(2) by (simp_all add: busy_shows_def pipe_jobs_def tracked_jobs_def list_all_iff last_on_def)
  with topic_shows_decisions [OF sample_service_laws reach_busy_process, of sample_epics_key]
  have "board sample_proto sample_epics_key (ap_handled busy_process) None = Some beam_bypass"
    by (simp add: hm_new_def hm_get_def)
  moreover have "length (ap_handled busy_process) = 4"
    by code_simp
  ultimately show ?thesis by simp
qed

end
