(* ===== verification/Alarm_Commands.thy ===== *)
theory Alarm_Commands
  imports Alarm_Process
begin

text \<open>
  A command from the gRPC call to the topic and back: what the answer of \<open>adapters/grpc.rs\<close> tells
  an operator about the process of \<open>Alarm_Process\<close>.
\<close>

section \<open>Commands come from queued messages\<close>

definition commands_logged :: "proto \<Rightarrow> ('r, 'q, 'h) alarms_process \<Rightarrow> bool" where
  "commands_logged pb p \<longleftrightarrow>
     ap_commands p = List.concat (map (\<lambda>(now, ev). commands_by pb (Coordinator_Turn now ev)) (ap_handled p))"

interpretation process_commands: invariant_system "process_start ring ops cfg h"
    "process_step pb js ch ring ops cfg" "commands_logged pb" for pb js ch ring ops cfg h
proof (unfold_locales, goal_cases)
  case (1 p)
  then show ?case by (simp add: process_start_def process_new_def commands_logged_def)
next
  case (2 p p')
  from 2(1) show ?case
  proof (cases rule: process_step_cases)
    case (select now)
    from select(3) obtain ev where "ap_handled p' = ap_handled p @ [(now, ev)]"
      "ap_commands p' = ap_commands p @ commands_by pb (Coordinator_Turn now ev)"
      by (rule select_spec)
    with 2(2) show ?thesis by (simp add: commands_logged_def)
  qed (use 2(2) in \<open>simp_all add: commands_logged_def process_user_eq\<close>)
qed

lemma command_of_turn:
  assumes "(cf, k, st) \<in> set (commands_by pb (Coordinator_Turn now ev))"
  obtains action user where "ev \<in> {On_User (UserUpdate k action user cf), On_Automated (UserUpdate k action user cf)}"
    "st = build_user_status pb now k action user"
proof -
  have "\<exists>m. ev \<in> {On_User m, On_Automated m} \<and> (cf, k, st) \<in> set (command_in pb now m)"
    using assms by (cases ev) auto
  then obtain m where "ev \<in> {On_User m, On_Automated m}" "(cf, k, st) \<in> set (command_in pb now m)" by blast
  with that show thesis by (cases m) auto
qed

lemma command_queued:
  assumes r: "reach (process_start ring ops cfg h) (process_step pb js ch ring ops cfg) p"
    and c: "(cf, k, st) \<in> set (ap_commands p)"
  obtains action user now where "UserUpdate k action user cf \<in> set (ap_queued p)"
    "st = build_user_status pb now k action user"
proof -
  note logs = process_logs.reach_inv [OF r]
  from c process_commands.reach_inv [OF r] obtain now ev where
    ev: "(now, ev) \<in> set (ap_handled p)" "(cf, k, st) \<in> set (commands_by pb (Coordinator_Turn now ev))"
    by (auto simp: commands_logged_def)
  from ev(2) obtain action user where
    m: "ev \<in> {On_User (UserUpdate k action user cf), On_Automated (UserUpdate k action user cf)}"
    and st: "st = build_user_status pb now k action user" by (rule command_of_turn)
  show thesis
  proof (cases "ev = On_User (UserUpdate k action user cf)")
    case True
    with ev(1) have "UserUpdate k action user cf \<in> set (handled_user (ap_handled p))"
      by (force simp: handled_user_def)
    also have "\<dots> \<subseteq> set (ap_queued p)" using logs by (metis logs_ok_def set_append sup_ge1)
    finally show thesis using that st by blast
  next
    case False
    with m ev(1) have "UserUpdate k action user cf \<in> set (handled_automated (ap_handled p))"
      by (force simp: handled_automated_def)
    also have "\<dots> \<subseteq> set (map AutomatedUpdate (ig_sent (ap_ingress p)))" using logs by (metis logs_ok_def set_append sup_ge1)
    finally show thesis by auto
  qed
qed

section \<open>The messages of a call\<close>

lemma submit_numbers:
  "submit_updates send action user keys n s = (n', s', Inr confs) \<Longrightarrow>
     confs = [n..<n + length keys] \<and> n' = n + length keys"
proof (induction keys arbitrary: n s confs)
  case (Cons key keys)
  obtain s1 r where s1: "send (UserUpdate key action user n) s = (s1, r)" by fastforce
  with Cons.prems obtain cs where "submit_updates send action user keys (n + 1) s1 = (n', s', Inr cs)"
    "confs = n # cs"
    by (cases r) (auto split: prod.splits sum.splits)
  with Cons.IH [of "n + 1" s1 cs] show ?case by (simp add: upt_conv_Cons del: upt_Suc)
qed simp

lemma in_command_messages:
  "UserUpdate k a u cf \<in> set (command_messages action user n keys) \<longleftrightarrow>
     a = action \<and> u = user \<and> n \<le> cf \<and> cf < n + length keys \<and> k = keys ! (cf - n)"
proof (induction keys arbitrary: n)
  case (Cons key keys)
  show ?case
    unfolding command_messages.simps set_simps insert_iff Cons.IH
    by (cases "cf = n") (auto simp: nth_Cons' Suc_diff_Suc)
qed simp

lemma all_confirmed:
  assumes keys: "build_keys devices = Inr keys"
    and call: "submit_and_confirm_user_update send answers elapsed devices action user g = Some (g', ms, Inr ())"
  shows "next_oneshot g' = next_oneshot g + length keys \<and>
    (\<forall>cf. next_oneshot g \<le> cf \<and> cf < next_oneshot g' \<longrightarrow> answers cf = Inr (Inr ()))"
proof -
  obtain n s r where sub: "submit_updates send action user keys (next_oneshot g) (user_channel g) = (n, s, r)"
    by (metis prod_cases3)
  obtain confs where r: "r = Inr confs"
    using call keys sub by (cases r) (simp_all add: submit_and_confirm_user_update_def)
  note num = submit_numbers [OF sub [unfolded r]]
  then have "0 + length (map answers confs) \<le> length keys" by simp
  from collect_results_ok [OF this] obtain bad internal where
    c: "collect_results keys 0 (map answers confs) = Some (bad, internal)"
       "(bad = []) = (\<not> (list_ex (answer_refused \<circ> answers) confs))"
       "(internal = []) = (\<not> (list_ex (answer_failed \<circ> answers) confs))"
    by (auto simp: list_ex_map)
  have "next_oneshot g' = n" "build_grpc_result bad internal = Inr ()"
    using call keys sub r c(1) by (auto simp: submit_and_confirm_user_update_def handle_confirmation_def)
  then have "\<forall>cf\<in>set confs. \<not> answer_failed (answers cf) \<and> \<not> answer_refused (answers cf)"
    using c(2,3) by (auto simp: build_grpc_result_def Let_def list_ex_iff split: if_splits)
  with num \<open>next_oneshot g' = n\<close> show ?thesis by (simp add: answer_cases)
qed

text \<open>
  What \<open>Ok\<close> means to an operator. When a gRPC call for some alarms is answered with success,
  then for every alarm it names the status that the call asks for is on the topic. The answers
  the call has received are those of the coordinator, and the one-shot channels of the call were
  sent with no other message.
\<close>

theorem grpc_ok_is_published:
  assumes sl: "service_laws js ops view"
    and r: "reach (process_start ring ops cfg h) (process_step pb js ch ring ops cfg) p"
    and keys: "build_keys devices = Inr keys"
    and call: "submit_and_confirm_user_update send answers elapsed devices action user g = Some (g', ms, Inr ())"
    and told: "\<forall>cf. answers cf = Inr (Inr ()) \<longrightarrow> (cf, Inr ()) \<in> set (sv_answers (b_service (ap_tasks p)))"
    and own: "\<forall>k a u cf. UserUpdate k a u cf \<in> set (ap_queued p) \<and> next_oneshot g \<le> cf \<and> cf < next_oneshot g' \<longrightarrow>
      UserUpdate k a u cf \<in> set (command_messages action user (next_oneshot g) keys)"
  shows "\<forall>k\<in>set keys. \<exists>now. (k, build_user_status pb now k action user) \<in> set (ap_topic p)"
proof
  fix k assume "k \<in> set keys"
  then obtain i where i: "i < length keys" "k = keys ! i" by (auto simp: in_set_conv_nth)
  let ?cf = "next_oneshot g + i"
  note conf = all_confirmed [OF keys call]
  have "(?cf, Inr ()) \<in> set (sv_answers (ob_service (seen p)))"
    using conf told i(1) by (simp add: seen_def)
  with reach_answers_ok [OF sl reach_seen [OF r]] obtain k' st where
    c: "(?cf, k', st) \<in> set (ap_commands p)" "(k', st) \<in> set (ap_topic p)"
    by (auto simp: answers_ok_def seen_def)
  from command_queued [OF r c(1)] obtain a u now where
    q: "UserUpdate k' a u ?cf \<in> set (ap_queued p)" "st = build_user_status pb now k' a u" .
  with own conf i(1) have "UserUpdate k' a u ?cf \<in> set (command_messages action user (next_oneshot g) keys)" by simp
  then have "k' = k" "a = action" "u = user" using i(2) by (simp_all add: in_command_messages)
  with c(2) q(2) show "\<exists>now. (k, build_user_status pb now k action user) \<in> set (ap_topic p)" by blast
qed

section \<open>A call that is answered\<close>

text \<open>The bypass of the run \<open>busy_run\<close>, as the call that has queued it.\<close>

definition beam_call :: "domain_input list grpc_state" where
  "beam_call = \<lparr>next_oneshot = 7, user_channel = []\<rparr>"

definition beam_answers :: "confirmation \<Rightarrow> confirmation_result" where
  "beam_answers cf = (if cf = 7 then Inr (Inr ()) else Inl ())"

lemma beam_keys: "build_keys [''m:beam#epics''] = Inr [sample_epics_key]"
  by code_simp

lemma beam_call_ok:
  "submit_and_confirm_user_update (bounded_send 8 True) beam_answers 3 [''m:beam#epics''] (Bypass None) ''op'' beam_call =
     Some (\<lparr>next_oneshot = 8, user_channel = [UserUpdate sample_epics_key (Bypass None) ''op'' 7]\<rparr>,
       [Record_confirmation_latency 3], Inr ())"
  by (simp add: submit_and_confirm_user_update_def beam_keys beam_call_def beam_answers_def handle_confirmation_def
      build_grpc_result_def)

theorem grpc_ok_is_published_witness:
  "\<exists>now. (sample_epics_key, build_user_status sample_proto now sample_epics_key (Bypass None) ''op'')
     \<in> set (ap_topic busy_process)"
proof -
  have told: "\<forall>cf. beam_answers cf = Inr (Inr ()) \<longrightarrow> (cf, Inr ()) \<in> set (sv_answers (b_service (ap_tasks busy_process)))"
    using busy_process_ok(2) by (simp add: beam_answers_def busy_shows_def)
  have own: "\<forall>k a u cf. UserUpdate k a u cf \<in> set (ap_queued busy_process) \<and> next_oneshot beam_call \<le> cf \<and>
      cf < next_oneshot \<lparr>next_oneshot = 8, user_channel = [UserUpdate sample_epics_key (Bypass None) ''op'' 7]\<rparr> \<longrightarrow>
      UserUpdate k a u cf \<in> set (command_messages (Bypass None) ''op'' (next_oneshot beam_call) [sample_epics_key])"
    using busy_process_ok(2) by (simp add: beam_call_def busy_shows_def)
  from grpc_ok_is_published [OF sample_service_laws reach_busy_process beam_keys beam_call_ok told own]
  show ?thesis by simp
qed

end
