(* ===== verification/Alarm_Confirmations.thy ===== *)
theory Alarm_Confirmations
  imports Alarm_Commands
begin

text \<open>
  The one-shot channels on which users wait (\<open>engine/messages.rs\<close>, \<open>engine/coordinator.rs\<close>). A
  confirmation that was queued is in the user channel, pending in the coordinator, or answered,
  and in one of these places once: none is lost, none is duplicated, none answered twice.
\<close>

section \<open>The coordinator\<close>

fun message_confirmation :: "domain_input \<Rightarrow> confirmation list" where
  "message_confirmation (UserUpdate key action user cf) = [cf]"
| "message_confirmation _ = []"

fun event_confirmation :: "coord_event \<Rightarrow> confirmation list" where
  "event_confirmation (On_User m) = message_confirmation m"
| "event_confirmation (On_Automated m) = message_confirmation m"
| "event_confirmation _ = []"

definition coordinator_holds ::
  "coordinator \<Rightarrow> (confirmation \<times> (update_error + unit)) list \<Rightarrow> confirmation multiset" where
  "coordinator_holds c answers = image_mset snd (mset (pending_confirmations c)) + mset (map fst answers)"

definition holds :: "cmachine \<Rightarrow> confirmation multiset" where
  "holds m = coordinator_holds (cm_coord m) (cm_answers m)"

lemma holds_simps [simp]:
  "holds (set_spec k e s) = holds s" "holds (clear_spec k s) = holds s" "holds (set_conf k e s) = holds s"
  "holds (resend k s) = holds s" "holds (answer_with as s) = holds s + mset (map fst as)"
  by (auto simp: holds_def coordinator_holds_def cm_prims split: option.splits)

lemma holds_record:
  assumes "cm_inv pb s"
  shows "holds (record_intent k st cf s) = holds s + (case cf of None \<Rightarrow> {#} | Some x \<Rightarrow> {#x#})"
proof -
  have "pend s (counter s) = None" using assms by (auto simp: cm_inv_def inv_ids_def)
  then show ?thesis
    by (auto simp: holds_def coordinator_holds_def record_intent_def Let_def mset_hm_insert_absent split: option.splits)
qed

lemma holds_resolve:
  assumes "cm_inv pb s"
  shows "holds (resolve j a s) = holds s"
proof -
  have wf: "hm_wf (pending_confirmations (cm_coord s))" using assms by (simp add: cm_inv_def inv_maps_def)
  show ?thesis
  proof (cases "pend s (job_id j)")
    case None
    then show ?thesis by (simp add: holds_def coordinator_holds_def resolve_def hm_remove_id)
  next
    case (Some x)
    from mset_hm_remove [OF wf Some] Some show ?thesis by (simp add: holds_def coordinator_holds_def resolve_def)
  qed
qed

lemma holds_automated: "cm_inv pb s \<Longrightarrow> holds (automated_result pb st s) = holds s"
  by (simp add: automated_result_def Let_def holds_record)

lemma holds_user: "cm_inv pb s \<Longrightarrow> holds (user_result pb now k action user cf s) = add_mset cf (holds s)"
  by (simp add: user_result_def holds_record)

lemma holds_message:
  assumes inv: "cm_inv pb s"
  shows "holds (cm_next pb now (On_User msg) s) = holds s + mset (message_confirmation msg)"
    and "holds (cm_next pb now (On_Automated msg) s) = holds s + mset (message_confirmation msg)"
proof -
  have run: "cm_running s" using inv by (simp add: cm_inv_def)
  show "holds (cm_next pb now (On_User msg) s) = holds s + mset (message_confirmation msg)"
    "holds (cm_next pb now (On_Automated msg) s) = holds s + mset (message_confirmation msg)"
    by (cases msg; simp add: cm_next_user [OF run] cm_next_automated [OF run] cm_next_snapshot [OF run]
        holds_automated [OF inv] holds_user [OF inv])+
qed

lemma holds_next:
  assumes inv: "cm_inv pb s" and en: "cm_enabled ev s"
  shows "holds (cm_next pb now ev s) = holds s + mset (event_confirmation ev)"
proof -
  have run: "cm_running s" using inv by (simp add: cm_inv_def)
  show ?thesis
  proof (cases ev)
    case (On_Outcome r)
    show ?thesis
    proof (cases r)
      case (Committed j)
      with On_Outcome show ?thesis
        by (auto simp: cm_next_committed [OF run] holds_resolve [OF inv] split: option.splits)
    next
      case (Failed j)
      with On_Outcome en have j: "j \<in> set (cm_jobs s)" by simp
      obtain st m where sp: "spec s (job_key j) = Some (st, m)" by (rule flight_spec [OF inv j])
      with On_Outcome Failed show ?thesis
        by (auto simp: cm_next_failed [OF run sp] holds_resolve [OF inv])
    next
      case (Wake k)
      with On_Outcome show ?thesis by (simp add: cm_next_automated [OF run] holds_automated [OF inv])
    qed
  qed (use en in \<open>simp_all add: holds_message [OF inv] cm_next_snapshot [OF run]\<close>)
qed

section \<open>The process\<close>

definition confirmations_of :: "domain_input list \<Rightarrow> confirmation list" where
  "confirmations_of ms = List.concat (map message_confirmation ms)"

lemma confirmations_of_simps [simp]:
  "confirmations_of [] = []" "confirmations_of (m # ms) = message_confirmation m @ confirmations_of ms"
  "confirmations_of (xs @ ys) = confirmations_of xs @ confirmations_of ys"
  by (simp_all add: confirmations_of_def)

lemma process_turn_machine:
  assumes sl: "service_laws js ops view"
    and r: "reach (process_start ring ops cfg h) (process_step pb js ch ring ops cfg) p"
    and c: "id_counter (sv_coord (b_service (ap_tasks p))) \<noteq> - 1"
    and t: "bounded_take pb js ch ops (Coordinator_Turn now ev) (ap_tasks p) = Some b"
  obtains m where "cm_inv pb m" "simulates (unbound (ap_tasks p)) m" "cm_enabled ev m"
    "simulates (unbound b) (cm_next pb now ev m)"
proof -
  note nxt = take_simulates [OF t]
  from reach_service_rel [OF sl reach_bounded_service [OF reach_tasks [OF r]]] obtain m where
    m: "cm_inv pb m" "pipe_ok view (unbound (ap_tasks p))" "simulates (unbound (ap_tasks p)) m" by auto
  have "simulates (unbound b) (cm_next pb now ev m)"
    using coord_turn_ok [OF m(2,3) _ nxt] c by simp
  with that m coord_enabled [OF m(3) nxt] show thesis by blast
qed

abbreviation process_holds :: "('r, 'q, 'h) alarms_process \<Rightarrow> confirmation multiset" where
  "process_holds p \<equiv> coordinator_holds (sv_coord (b_service (ap_tasks p))) (sv_answers (b_service (ap_tasks p)))"

lemma simulates_holds: "simulates (unbound b) m \<Longrightarrow>
    coordinator_holds (sv_coord (b_service b)) (sv_answers (b_service b)) = holds m"
  by (simp add: simulates_def holds_def)

lemma task_keeps_answers:
  assumes "service_next pb js ch ops ev s = Some t" "\<not> coordinator_turn ev"
  shows "sv_answers t = sv_answers s"
proof (cases ev)
  case (Publish_Event pe)
  with assms show ?thesis
    by (cases pe) (auto simp: after_publish_def simp del: publish_turn.simps split: option.splits)
qed (use assms in \<open>auto simp: after_workflow_def after_snooze_def after_publish_def
    simp del: publish_turn.simps workflow_turn.simps split: list.splits option.splits\<close>)

lemma bounded_task_keeps_answers:
  assumes "bounded_next pb js ch ops cfg ev b = Some b'" "\<not> of_coordinator ev"
  shows "sv_answers (b_service b') = sv_answers (b_service b)"
proof (cases "\<exists>e. ev = Take e")
  case True
  then obtain e where e: "ev = Take e" by blast
  with assms have "bounded_take pb js ch ops e b = Some b'" by simp
  from task_keeps_answers [OF take_simulates [OF this]] assms(2) e show ?thesis by simp
next
  case False
  then have "bounded_send_step cfg ev b = Some b'" using assms by (cases ev) auto
  then have "unbound b' = unbound b" by (rule send_stutters)
  then show ?thesis by (metis unbound_simps(4))
qed

text \<open>The coordinator takes a message: its confirmation moves from the channel to the coordinator.\<close>

lemma select_moves:
  assumes sl: "service_laws js ops view"
    and r: "reach (process_start ring ops cfg h) (process_step pb js ch ring ops cfg) p"
    and c: "id_counter (sv_coord (b_service (ap_tasks p))) \<noteq> - 1"
    and sel: "process_select pb js ch ops now p = Some p'"
  shows "mset (confirmations_of (ap_users p')) + process_holds p' =
      mset (confirmations_of (ap_users p)) + process_holds p \<and> ap_queued p' = ap_queued p"
proof -
  from sel obtain ev where t: "bounded_take pb js ch ops (Coordinator_Turn now ev) (ap_tasks p) = Some (ap_tasks p')"
    and q: "ap_queued p' = ap_queued p"
    and cs: "(case ev of
        On_User m \<Rightarrow> ap_users p = m # ap_users p' \<and> ap_ingress p' = ap_ingress p
      | On_Automated m \<Rightarrow> ap_users p' = ap_users p \<and> ig_queue (ap_ingress p) = m # ig_queue (ap_ingress p') \<and>
          ap_ingress p' = (ap_ingress p)\<lparr>ig_queue := ig_queue (ap_ingress p')\<rparr>
      | _ \<Rightarrow> ap_users p' = ap_users p \<and> ap_ingress p' = ap_ingress p)"
    by (rule select_spec) auto
  from process_turn_machine [OF sl r c t] obtain m where m: "cm_inv pb m" "cm_enabled ev m"
    "simulates (unbound (ap_tasks p)) m" "simulates (unbound (ap_tasks p')) (cm_next pb now ev m)" by blast
  have moved: "process_holds p' = process_holds p + mset (event_confirmation ev)"
    using holds_next [OF m(1,2), of now] simulates_holds [OF m(3)] simulates_holds [OF m(4)] by simp
  have "mset (confirmations_of (ap_users p)) = mset (confirmations_of (ap_users p')) + mset (event_confirmation ev)"
  proof (cases "\<exists>u. ev = On_Automated u")
    case True
    then obtain u where ev: "ev = On_Automated u" by blast
    with cs have "u \<in> set (ig_queue (ap_ingress p))" by simp
    moreover have "set (ig_queue (ap_ingress p)) \<subseteq> set (map AutomatedUpdate (ig_sent (ap_ingress p)))"
      using process_logs.reach_inv [OF r] by (metis logs_ok_def set_append sup_ge2)
    ultimately have "message_confirmation u = []" by auto
    with ev cs show ?thesis by simp
  next
    case False
    with cs show ?thesis by (cases ev) (auto simp: ac_simps)
  qed
  with moved q show ?thesis by (simp add: ac_simps)
qed

lemma reach_conserved:
  assumes sl: "service_laws js ops view"
    and r: "reach (process_start ring ops cfg h) (process_step pb js ch ring ops cfg) p"
  shows "mset (confirmations_of (ap_queued p)) = mset (confirmations_of (ap_users p)) + process_holds p"
  using r
proof (induction rule: reach.induct)
  case (reach_init p)
  then show ?case
    by (auto simp: process_start_def process_new_def bounded_start_state_def runtime_start_def coordinator_holds_def
        hm_new_def)
next
  case (reach_step p p')
  from reach_step(2) show ?case
  proof (cases rule: process_step_cases)
    case (select now)
    with select_moves [OF sl reach_step(1) select(1,3)] reach_step.IH show ?thesis by simp
  next
    case (task ev b)
    with bounded_task_keeps [OF task(3,4)] bounded_task_keeps_answers [OF task(3,4)] reach_step.IH show ?thesis by simp
  qed (use reach_step.IH in \<open>auto simp: process_user_eq\<close>)
qed

text \<open>
  C9: no confirmation is lost or answered twice. The confirmations of the commands that were
  queued are, as multisets, those in the user channel, those pending in the coordinator and
  those answered, in every state the process can reach. So if every call makes its own one-shot
  channels, each is answered at most once, and one that is not answered is still queued or pending.
\<close>

theorem confirmations_conserved:
  assumes "service_laws js ops view"
    and "reach (process_start ring ops cfg h) (process_step pb js ch ring ops cfg) p"
  shows "mset (confirmations_of (ap_queued p)) = mset (confirmations_of (ap_users p)) +
    image_mset snd (mset (pending_confirmations (sv_coord (b_service (ap_tasks p))))) +
    mset (map fst (sv_answers (b_service (ap_tasks p))))"
  using reach_conserved [OF assms] by (simp add: coordinator_holds_def)

theorem confirmations_conserved_witness:
  "pending_confirmations (sv_coord (b_service (ap_tasks busy_process))) = [] \<and>
   confirmations_of (ap_users busy_process) = []"
proof -
  have "mset (confirmations_of (ap_queued busy_process)) = {#7#}"
    "mset (map fst (sv_answers (b_service (ap_tasks busy_process)))) = {#7#}"
    using busy_process_ok(2) by (simp_all add: busy_shows_def)
  with confirmations_conserved [OF sample_service_laws reach_busy_process] show ?thesis
    by simp
qed

end
