(* ===== verification/Alarm_Calls.thy ===== *)
theory Alarm_Calls
  imports Alarm_Confirmations
begin

text \<open>
  The gRPC calls (\<open>adapters/grpc.rs\<close>) as they run beside the process of \<open>Alarm_Process\<close>: any
  number of them, each sending its commands one by one with fresh one-shot channels and waiting
  for all of them, interleaved with each other and with every turn of the process. What a call
  learns is what the coordinator answered on its own channels, which the theory shows instead
  of assuming it.
\<close>

section \<open>Calls\<close>

datatype request =
  Acknowledge_Request "string list" string
| Activate_Request "string list" string
| Bypass_Request "string list" string
| Snooze_Request "string list" "timestamp option" string

text \<open>A call: what it asks for, the receivers it holds, and its answer when it has returned.\<close>

record grpc_call =
  gc_action :: user_action
  gc_user :: string
  gc_keys :: "alarm_key list"
  gc_results_fut :: "confirmation list"
  gc_answer :: "(tonic_status + unit) option"

definition call_of :: "string list \<Rightarrow> user_action \<Rightarrow> string \<Rightarrow> grpc_call" where
  "call_of devices action user =
     (case build_keys devices of
        Inl e \<Rightarrow> \<lparr>gc_action = action, gc_user = user, gc_keys = [], gc_results_fut = [], gc_answer = Some (Inl e)\<rparr>
      | Inr keys \<Rightarrow> \<lparr>gc_action = action, gc_user = user, gc_keys = keys, gc_results_fut = [], gc_answer = None\<rparr>)"

fun call_begin :: "request \<Rightarrow> grpc_call" where
  "call_begin (Acknowledge_Request devices user) = call_of devices Acknowledge user"
| "call_begin (Activate_Request devices user) = call_of devices Activate user"
| "call_begin (Bypass_Request devices user) = call_of devices (Bypass None) user"
| "call_begin (Snooze_Request devices wake user) =
     (if wake = None then \<lparr>gc_action = Bypass wake, gc_user = user, gc_keys = [], gc_results_fut = [],
        gc_answer = Some (Inl (Invalid_Argument ''wake timestamp is required''))\<rparr>
      else call_of devices (Bypass wake) user)"

text \<open>
  The process with its calls. \<open>sd_next\<close> is the next one-shot channel to be made; \<open>sd_snapshots\<close> are
  the snapshots that the coordinator has sent, \<open>sd_viewers\<close> the calls of \<open>get_snapshot\<close>.
\<close>

record ('r, 'q, 'h) served =
  sd_process :: "('r, 'q, 'h) alarms_process"
  sd_next :: nat
  sd_calls :: "grpc_call list"
  sd_viewers :: "(snapshot_sender \<times> (tonic_status + alarms_snapshot) option) list"
  sd_snapshots :: "(snapshot_sender \<times> alarms_snapshot) list"
  sd_metrics :: "metric_event list"

definition user_send ::
  "queue_capacity_config \<Rightarrow> domain_input \<Rightarrow> ('r, 'q, 'h) alarms_process \<Rightarrow>
   domain_input list \<times> metric_event list \<times> (channel_send_error + unit)" where
  "user_send cfg m p = user_try_send (unat (cap_user cfg)) (ig_open (ap_ingress p)) (ap_users p) m"

definition sends_next :: "grpc_call \<Rightarrow> bool" where
  "sends_next c \<longleftrightarrow> gc_answer c = None \<and> length (gc_results_fut c) < length (gc_keys c)"

definition next_message :: "grpc_call \<Rightarrow> nat \<Rightarrow> domain_input" where
  "next_message c n = UserUpdate (gc_keys c ! length (gc_results_fut c)) (gc_action c) (gc_user c) n"

definition call_send ::
  "queue_capacity_config \<Rightarrow> nat \<Rightarrow> ('r, 'q, 'h) served \<Rightarrow> ('r, 'q, 'h) served option" where
  "call_send cfg i s =
     (if i < length (sd_calls s) \<and> sends_next (sd_calls s ! i) then
        (let c = sd_calls s ! i; n = sd_next s; m = next_message c n; pushed = gc_results_fut c @ [n] in
         case user_send cfg m (sd_process s) of (_, ms, r) \<Rightarrow>
           Some (s\<lparr>sd_process := process_user cfg m (sd_process s), sd_next := n + 1,
             sd_calls := (sd_calls s)[i := c\<lparr>gc_results_fut := pushed,
               gc_answer := (case r of Inl e \<Rightarrow> Some (Inl (map_user_send_error e)) | Inr _ \<Rightarrow> None)\<rparr>],
             sd_metrics := sd_metrics s @ ms\<rparr>))
      else None)"

text \<open>
  What a one-shot receiver yields: the answer of the coordinator, or an error when the coordinator
  and its channels are gone without one, and nothing as long as an answer may come.
\<close>

definition one_shot :: "('r, 'q, 'h) alarms_process \<Rightarrow> confirmation \<Rightarrow> confirmation_result option" where
  "one_shot p cf = (case map_of (sv_answers (b_service (ap_tasks p))) cf of
     Some r \<Rightarrow> Some (Inr r)
   | None \<Rightarrow> if ig_open (ap_ingress p) then None else Some (Inl ()))"

definition call_waits :: "grpc_call \<Rightarrow> bool" where
  "call_waits c \<longleftrightarrow> gc_answer c = None \<and> length (gc_results_fut c) = length (gc_keys c)"

definition call_finish ::
  "duration \<Rightarrow> nat \<Rightarrow> ('r, 'q, 'h) served \<Rightarrow> ('r, 'q, 'h) served option" where
  "call_finish elapsed i s =
     (if i < length (sd_calls s) \<and> call_waits (sd_calls s ! i) \<and>
         (\<forall>cf\<in>set (gc_results_fut (sd_calls s ! i)). one_shot (sd_process s) cf \<noteq> None) then
        (let c = sd_calls s ! i in
         map_option (\<lambda>(ms, r). s\<lparr>sd_calls := (sd_calls s)[i := c\<lparr>gc_answer := Some r\<rparr>], sd_metrics := sd_metrics s @ ms\<rparr>)
           (handle_confirmation (map (the \<circ> one_shot (sd_process s)) (gc_results_fut c)) (gc_keys c) elapsed))
      else None)"

section \<open>Snapshots\<close>

definition viewer_begin :: "queue_capacity_config \<Rightarrow> ('r, 'q, 'h) served \<Rightarrow> ('r, 'q, 'h) served" where
  "viewer_begin cfg s =
     (let n = sd_next s; m = SnapshotRequest n in
      case user_send cfg m (sd_process s) of (_, ms, r) \<Rightarrow>
        s\<lparr>sd_process := process_user cfg m (sd_process s), sd_next := n + 1,
          sd_viewers := sd_viewers s @
            [(n, case r of Inl e \<Rightarrow> Some (Inl (map_user_send_error e)) | Inr _ \<Rightarrow> None)],
          sd_metrics := sd_metrics s @ ms\<rparr>)"

definition viewer_finish :: "nat \<Rightarrow> ('r, 'q, 'h) served \<Rightarrow> ('r, 'q, 'h) served option" where
  "viewer_finish i s =
     (if i < length (sd_viewers s) \<and> snd (sd_viewers s ! i) = None then
        (let n = fst (sd_viewers s ! i) in
         case map_of (sd_snapshots s) n of
           Some snapshot \<Rightarrow> Some (s\<lparr>sd_viewers := (sd_viewers s)[i := (n, Some (Inr snapshot))]\<rparr>)
         | None \<Rightarrow>
             if ig_open (ap_ingress (sd_process s)) then None
             else Some (s\<lparr>sd_viewers := (sd_viewers s)
               [i := (n, Some (Inl (Internal_Status ''The alarms state machine has shut down!'')))]\<rparr>))
      else None)"

fun snapshots_of :: "coord_effect list \<Rightarrow> (snapshot_sender \<times> alarms_snapshot) list" where
  "snapshots_of [] = []"
| "snapshots_of (Send_Snapshot sender snapshot # es) = (sender, snapshot) # snapshots_of es"
| "snapshots_of (e # es) = snapshots_of es"

fun snapshots_sent :: "proto \<Rightarrow> process_event \<Rightarrow> ('r, 'q, 'h) alarms_process \<Rightarrow> (snapshot_sender \<times> alarms_snapshot) list" where
  "snapshots_sent pb (Coordinator_Selects now) p =
     snapshots_of (fst (snd (coord_turn pb now True (sv_coord (b_service (ap_tasks p))) (fst (coord_select (process_ports p))))))"
| "snapshots_sent pb ev p = []"

section \<open>The machine\<close>

datatype served_event =
  Call_Begins request
| Call_Sends nat
| Call_Finishes nat duration
| Viewer_Begins
| Viewer_Finishes nat
| Process_Turn process_event

fun of_user :: "process_event \<Rightarrow> bool" where
  "of_user (User_Message m) = True"
| "of_user ev = False"

fun served_next ::
  "proto \<Rightarrow> serializer \<Rightarrow> chrono_ops \<Rightarrow> 'r ring_ops \<Rightarrow> ('q, 'h) delay_ops \<Rightarrow> queue_capacity_config \<Rightarrow> served_event \<Rightarrow>
   ('r, 'q, 'h) served \<Rightarrow> ('r, 'q, 'h) served option" where
  "served_next pb js ch ring ops cfg (Call_Begins req) s = Some (s\<lparr>sd_calls := sd_calls s @ [call_begin req]\<rparr>)"
| "served_next pb js ch ring ops cfg (Call_Sends i) s = call_send cfg i s"
| "served_next pb js ch ring ops cfg (Call_Finishes i elapsed) s = call_finish elapsed i s"
| "served_next pb js ch ring ops cfg Viewer_Begins s = Some (viewer_begin cfg s)"
| "served_next pb js ch ring ops cfg (Viewer_Finishes i) s = viewer_finish i s"
| "served_next pb js ch ring ops cfg (Process_Turn ev) s =
     (if of_user ev then None
      else map_option (\<lambda>p. s\<lparr>sd_process := p, sd_snapshots := sd_snapshots s @ snapshots_sent pb ev (sd_process s)\<rparr>)
        (process_next pb js ch ring ops cfg ev (sd_process s)))"

inductive served_step ::
  "proto \<Rightarrow> serializer \<Rightarrow> chrono_ops \<Rightarrow> 'r ring_ops \<Rightarrow> ('q, 'h) delay_ops \<Rightarrow> queue_capacity_config \<Rightarrow>
   ('r, 'q, 'h) served \<Rightarrow> ('r, 'q, 'h) served \<Rightarrow> bool"
  for pb js ch ring ops cfg where
  served_stepI: "id_counter (sv_coord (b_service (ap_tasks (sd_process s)))) \<noteq> - 1 \<Longrightarrow>
     \<not> sv_panicked (b_service (ap_tasks (sd_process s))) \<Longrightarrow>
     served_next pb js ch ring ops cfg ev s = Some s' \<Longrightarrow> served_step pb js ch ring ops cfg s s'"

inductive_cases served_stepE: "served_step pb js ch ring ops cfg s s'"

definition served_new ::
  "'r ring_ops \<Rightarrow> ('q, 'h) delay_ops \<Rightarrow> queue_capacity_config \<Rightarrow> hydrated_statuses \<Rightarrow> ('r, 'q, 'h) served" where
  "served_new ring ops cfg h = \<lparr>sd_process = process_new ring ops cfg h, sd_next = 0, sd_calls = [], sd_viewers = [],
     sd_snapshots = [], sd_metrics = []\<rparr>"

definition served_start ::
  "'r ring_ops \<Rightarrow> ('q, 'h) delay_ops \<Rightarrow> queue_capacity_config \<Rightarrow> hydrated_statuses \<Rightarrow> ('r, 'q, 'h) served \<Rightarrow> bool" where
  "served_start ring ops cfg h s \<longleftrightarrow> process_start ring ops cfg h (sd_process s) \<and> s = served_new ring ops cfg h"

section \<open>What a step changes\<close>

lemma user_send_queued:
  "user_send cfg m p = (q, ms, r) \<Longrightarrow>
     ap_queued (process_user cfg m p) = ap_queued p @ (case r of Inr _ \<Rightarrow> [m] | Inl _ \<Rightarrow> [])"
  by (auto simp: user_send_def process_user_def split: prod.splits sum.splits)

lemma process_user_keeps [simp]:
  "ap_tasks (process_user cfg m p) = ap_tasks p" "ap_ingress (process_user cfg m p) = ap_ingress p"
  "ap_topic (process_user cfg m p) = ap_topic p" "ap_handled (process_user cfg m p) = ap_handled p"
  by (simp_all add: process_user_eq)

lemma call_send_spec:
  assumes "call_send cfg i s = Some s'"
  obtains c q ms r where "i < length (sd_calls s)" "c = sd_calls s ! i" "sends_next c"
    "user_send cfg (next_message c (sd_next s)) (sd_process s) = (q, ms, r)"
    "s' = s\<lparr>sd_process := process_user cfg (next_message c (sd_next s)) (sd_process s), sd_next := sd_next s + 1,
       sd_calls := (sd_calls s)[i := c\<lparr>gc_results_fut := gc_results_fut c @ [sd_next s],
         gc_answer := (case r of Inl e \<Rightarrow> Some (Inl (map_user_send_error e)) | Inr _ \<Rightarrow> None)\<rparr>],
       sd_metrics := sd_metrics s @ ms\<rparr>"
proof -
  obtain q ms r where snd: "user_send cfg (next_message (sd_calls s ! i) (sd_next s)) (sd_process s) = (q, ms, r)"
    by (metis prod_cases3)
  with assms that [of "sd_calls s ! i" q ms r] show thesis
    by (auto simp: call_send_def Let_def split: if_splits)
qed

lemma call_finish_spec:
  assumes "call_finish elapsed i s = Some s'"
  obtains c ms r where "i < length (sd_calls s)" "c = sd_calls s ! i" "call_waits c"
    "\<forall>cf\<in>set (gc_results_fut c). one_shot (sd_process s) cf \<noteq> None"
    "handle_confirmation (map (the \<circ> one_shot (sd_process s)) (gc_results_fut c)) (gc_keys c) elapsed = Some (ms, r)"
    "s' = s\<lparr>sd_calls := (sd_calls s)[i := c\<lparr>gc_answer := Some r\<rparr>], sd_metrics := sd_metrics s @ ms\<rparr>"
  using assms that [of "sd_calls s ! i"] by (auto simp: call_finish_def Let_def split: if_splits)

lemma viewer_begin_spec:
  obtains q ms r where "user_send cfg (SnapshotRequest (sd_next s)) (sd_process s) = (q, ms, r)"
    "viewer_begin cfg s = s\<lparr>sd_process := process_user cfg (SnapshotRequest (sd_next s)) (sd_process s),
       sd_next := sd_next s + 1, sd_viewers := sd_viewers s @
         [(sd_next s, case r of Inl e \<Rightarrow> Some (Inl (map_user_send_error e)) | Inr _ \<Rightarrow> None)],
       sd_metrics := sd_metrics s @ ms\<rparr>"
proof -
  obtain q ms r where snd: "user_send cfg (SnapshotRequest (sd_next s)) (sd_process s) = (q, ms, r)"
    by (metis prod_cases3)
  with that show thesis by (simp add: viewer_begin_def Let_def)
qed

lemma served_step_cases [consumes 1, case_names begins sends finishes viewer viewed turn]:
  assumes "served_step pb js ch ring ops cfg s s'"
    and "\<And>req. s' = s\<lparr>sd_calls := sd_calls s @ [call_begin req]\<rparr> \<Longrightarrow> Q"
    and "\<And>i. process_step pb js ch ring ops cfg (sd_process s) (sd_process s') \<Longrightarrow> call_send cfg i s = Some s' \<Longrightarrow> Q"
    and "\<And>i elapsed. call_finish elapsed i s = Some s' \<Longrightarrow> Q"
    and "process_step pb js ch ring ops cfg (sd_process s) (sd_process s') \<Longrightarrow> s' = viewer_begin cfg s \<Longrightarrow> Q"
    and "\<And>i. viewer_finish i s = Some s' \<Longrightarrow> Q"
    and "\<And>ev p. process_step pb js ch ring ops cfg (sd_process s) p \<Longrightarrow> \<not> of_user ev \<Longrightarrow>
      process_next pb js ch ring ops cfg ev (sd_process s) = Some p \<Longrightarrow>
      s' = s\<lparr>sd_process := p, sd_snapshots := sd_snapshots s @ snapshots_sent pb ev (sd_process s)\<rparr> \<Longrightarrow> Q"
  shows Q
  using assms(1)
proof (rule served_stepE)
  fix ev assume run: "id_counter (sv_coord (b_service (ap_tasks (sd_process s)))) \<noteq> - 1"
    "\<not> sv_panicked (b_service (ap_tasks (sd_process s)))"
    and nxt: "served_next pb js ch ring ops cfg ev s = Some s'"
  have user: "process_step pb js ch ring ops cfg (sd_process s) (process_user cfg m (sd_process s))" for m
    using run by (intro process_stepI [where ev = "User_Message m"]) auto
  show Q
  proof (cases ev)
    case (Call_Begins req)
    with nxt assms(2) [of req] show Q by simp
  next
    case (Call_Sends i)
    with nxt have c: "call_send cfg i s = Some s'" by simp
    then obtain m where "sd_process s' = process_user cfg m (sd_process s)" by (rule call_send_spec) simp
    with user assms(3) [OF _ c] show Q by simp
  next
    case (Call_Finishes i elapsed)
    with nxt assms(4) show Q by simp
  next
    case Viewer_Begins
    with nxt have v: "s' = viewer_begin cfg s" by simp
    moreover obtain m where "sd_process (viewer_begin cfg s) = process_user cfg m (sd_process s)"
      by (rule viewer_begin_spec [of cfg s]) simp
    ultimately show Q using user assms(5) by simp
  next
    case (Viewer_Finishes i)
    with nxt assms(6) show Q by simp
  next
    case (Process_Turn pev)
    with nxt obtain p where "\<not> of_user pev" "process_next pb js ch ring ops cfg pev (sd_process s) = Some p"
      "s' = s\<lparr>sd_process := p, sd_snapshots := sd_snapshots s @ snapshots_sent pb pev (sd_process s)\<rparr>"
      by (auto split: if_splits)
    with assms(7) process_stepI [OF run] show Q by blast
  qed
qed

lemma viewer_finish_process [simp]: "viewer_finish i s = Some s' \<Longrightarrow> sd_process s' = sd_process s \<and>
    sd_calls s' = sd_calls s \<and> sd_next s' = sd_next s \<and> sd_snapshots s' = sd_snapshots s"
  by (auto simp: viewer_finish_def Let_def split: if_splits option.splits)

text \<open>The process in a run with calls is a run of the process.\<close>

interpretation served_process: stuttering_simulation "served_start ring ops cfg h"
    "served_step pb js ch ring ops cfg" "process_start ring ops cfg h" "process_step pb js ch ring ops cfg"
    "\<lambda>s p. p = sd_process s" for pb js ch ring ops cfg h
proof (unfold_locales, goal_cases)
  case (1 s)
  then show ?case unfolding served_start_def by blast
next
  case (2 p s s')
  from 2(3) show ?case
  proof (cases rule: served_step_cases)
    case (finishes i elapsed)
    then have "sd_process s' = sd_process s" by (rule call_finish_spec) simp
    with 2(2) show ?thesis by simp
  qed (use 2(2) in auto)
qed

lemma reach_process:
  "reach (served_start ring ops cfg h) (served_step pb js ch ring ops cfg) s \<Longrightarrow>
     reach (process_start ring ops cfg h) (process_step pb js ch ring ops cfg) (sd_process s)"
  using served_process.reach_matched by blast

lemma turn_queues:
  assumes "process_next pb js ch ring ops cfg ev p = Some p'" "\<not> of_user ev"
  shows "ap_queued p' = ap_queued p"
proof (cases ev)
  case (Ingress_Part iev)
  with assms show ?thesis by (auto simp: process_ingress_def split: if_splits)
next
  case (Coordinator_Selects now)
  with assms have "process_select pb js ch ops now p = Some p'" by simp
  then show ?thesis by (rule select_spec)
next
  case (Task_Turn tev)
  with assms have "process_task pb js ch ops cfg tev p = Some p'" by simp
  then show ?thesis by (rule task_changes) simp
qed (use assms in \<open>auto split: if_splits\<close>)

section \<open>Every call has its own channels\<close>

text \<open>
  A call's receivers belong to the messages it has queued, and to no other. Numbers below
  \<open>n\<close> have been used.
\<close>

definition call_ok :: "nat \<Rightarrow> domain_input list \<Rightarrow> grpc_call \<Rightarrow> bool" where
  "call_ok n queued c \<longleftrightarrow> length (gc_results_fut c) \<le> length (gc_keys c) \<and>
     (\<forall>cf\<in>set (gc_results_fut c). cf < n) \<and>
     (\<forall>j<length (gc_results_fut c). \<forall>k a u. UserUpdate k a u (gc_results_fut c ! j) \<in> set queued \<longrightarrow>
        k = gc_keys c ! j \<and> a = gc_action c \<and> u = gc_user c) \<and>
     (gc_answer c = None \<longrightarrow> set (gc_results_fut c) \<subseteq> set (confirmations_of queued))"

definition calls_ok :: "('r, 'q, 'h) served \<Rightarrow> bool" where
  "calls_ok s \<longleftrightarrow> distinct (confirmations_of (ap_queued (sd_process s))) \<and>
     (\<forall>cf\<in>set (confirmations_of (ap_queued (sd_process s))). cf < sd_next s) \<and>
     (\<forall>c\<in>set (sd_calls s). call_ok (sd_next s) (ap_queued (sd_process s)) c)"

lemma update_confirmation: "UserUpdate k a u cf \<in> set ms \<Longrightarrow> cf \<in> set (confirmations_of ms)"
  by (induction ms) auto

lemma call_ok_begin: "call_ok n queued (call_begin req)"
  by (cases req) (auto simp: call_ok_def call_of_def split: sum.splits)

lemma call_ok_answered: "call_ok n queued c \<Longrightarrow> call_ok n queued (c\<lparr>gc_answer := Some r\<rparr>)"
  by (simp add: call_ok_def)

text \<open>A message with a new channel does not touch the other calls.\<close>

lemma call_ok_other:
  assumes "call_ok n queued c" "set (confirmations_of ms) \<subseteq> {n}"
  shows "call_ok (n + 1) (queued @ ms) c"
proof -
  have "UserUpdate k a u (gc_results_fut c ! j) \<notin> set ms" if "j < length (gc_results_fut c)" for k a u j
  proof
    assume "UserUpdate k a u (gc_results_fut c ! j) \<in> set ms"
    from update_confirmation [OF this] assms that show False
      unfolding call_ok_def by (metis less_irrefl nth_mem singletonD subsetD)
  qed
  with assms(1) show ?thesis by (auto simp: call_ok_def less_SucI)
qed

lemma call_ok_send:
  assumes ok: "call_ok n queued c" and room: "length (gc_results_fut c) < length (gc_keys c)"
    and old: "\<forall>cf\<in>set (confirmations_of queued). cf < n" and a: "gc_answer c = None"
    and ms: "ms = [next_message c n] \<and> answer = None \<or> ms = [] \<and> answer \<noteq> None"
  shows "call_ok (n + 1) (queued @ ms) (c\<lparr>gc_results_fut := gc_results_fut c @ [n], gc_answer := answer\<rparr>)"
proof -
  have new: "UserUpdate k a u n \<notin> set queued" for k a u
    using old update_confirmation by blast
  have "call_ok (n + 1) (queued @ ms) c"
    using ms by (intro call_ok_other [OF ok]) (auto simp: next_message_def)
  with ok room new ms a show ?thesis
    by (auto simp: call_ok_def next_message_def nth_append less_Suc_eq)
qed

interpretation served_calls: invariant_system "served_start ring ops cfg h"
    "served_step pb js ch ring ops cfg" calls_ok for pb js ch ring ops cfg h
proof (unfold_locales, goal_cases)
  case (1 s)
  then have "s = served_new ring ops cfg h" by (simp add: served_start_def)
  then show ?case by (simp add: served_new_def process_new_def calls_ok_def)
next
  case (2 s s')
  let ?q = "ap_queued (sd_process s)"
  have old: "distinct (confirmations_of ?q)" "\<forall>cf\<in>set (confirmations_of ?q). cf < sd_next s"
    "\<And>c. c \<in> set (sd_calls s) \<Longrightarrow> call_ok (sd_next s) ?q c"
    using 2(2) by (simp_all add: calls_ok_def)
  from 2(1) show ?case
  proof (cases rule: served_step_cases)
    case (begins req)
    with old show ?thesis by (auto simp: calls_ok_def call_ok_begin)
  next
    case (sends i)
    from sends(2) obtain c q ms r where c: "i < length (sd_calls s)" "c = sd_calls s ! i" "sends_next c"
      and snd: "user_send cfg (next_message c (sd_next s)) (sd_process s) = (q, ms, r)"
      and s': "s' = s\<lparr>sd_process := process_user cfg (next_message c (sd_next s)) (sd_process s), sd_next := sd_next s + 1,
        sd_calls := (sd_calls s)[i := c\<lparr>gc_results_fut := gc_results_fut c @ [sd_next s],
          gc_answer := (case r of Inl e \<Rightarrow> Some (Inl (map_user_send_error e)) | Inr _ \<Rightarrow> None)\<rparr>],
        sd_metrics := sd_metrics s @ ms\<rparr>" by (rule call_send_spec)
    let ?new = "case r of Inr _ \<Rightarrow> [next_message c (sd_next s)] | Inl _ \<Rightarrow> []"
    have q': "ap_queued (sd_process s') = ?q @ ?new" using user_send_queued [OF snd] by (simp add: s')
    have cs: "set (confirmations_of ?new) \<subseteq> {sd_next s}" "distinct (confirmations_of ?new)"
      by (auto simp: next_message_def split: sum.splits)
    have "call_ok (sd_next s + 1) (?q @ ?new) (c\<lparr>gc_results_fut := gc_results_fut c @ [sd_next s],
        gc_answer := (case r of Inl e \<Rightarrow> Some (Inl (map_user_send_error e)) | Inr _ \<Rightarrow> None)\<rparr>)"
      using c old(2) by (intro call_ok_send [OF old(3)]) (auto simp: sends_next_def split: sum.splits)
    moreover have "call_ok (sd_next s + 1) (?q @ ?new) d" if "d \<in> set (sd_calls s)" for d
      using call_ok_other [OF old(3) [OF that] cs(1)] .
    ultimately have "\<forall>d\<in>set (sd_calls s'). call_ok (sd_next s') (ap_queued (sd_process s')) d"
      unfolding q' by (auto simp: s' dest!: set_update_subset_insert [THEN subsetD])
    moreover have "\<forall>cf\<in>set (confirmations_of (?q @ ?new)). cf < sd_next s'" "distinct (confirmations_of (?q @ ?new))"
      using old(1,2) cs by (auto simp: s' less_SucI)
    ultimately show ?thesis unfolding calls_ok_def q' by blast
  next
    case (finishes i elapsed)
    then obtain c ms r where c: "i < length (sd_calls s)" "c = sd_calls s ! i"
      and s': "s' = s\<lparr>sd_calls := (sd_calls s)[i := c\<lparr>gc_answer := Some r\<rparr>], sd_metrics := sd_metrics s @ ms\<rparr>"
      by (rule call_finish_spec)
    from c have "call_ok (sd_next s) ?q (c\<lparr>gc_answer := Some r\<rparr>)" using old(3) by (simp add: call_ok_answered)
    with old show ?thesis by (auto simp: s' calls_ok_def dest!: set_update_subset_insert [THEN subsetD])
  next
    case viewer
    obtain q ms r where snd: "user_send cfg (SnapshotRequest (sd_next s)) (sd_process s) = (q, ms, r)"
      and v: "sd_process (viewer_begin cfg s) = process_user cfg (SnapshotRequest (sd_next s)) (sd_process s)"
        "sd_next (viewer_begin cfg s) = sd_next s + 1" "sd_calls (viewer_begin cfg s) = sd_calls s"
      by (rule viewer_begin_spec [of cfg s]) simp
    let ?new = "case r of Inr _ \<Rightarrow> [SnapshotRequest (sd_next s)] | Inl _ \<Rightarrow> []"
    have q': "ap_queued (sd_process s') = ?q @ ?new" using user_send_queued [OF snd] by (simp add: viewer(2) v)
    have none: "confirmations_of ?new = []" by (simp split: sum.split)
    have "call_ok (sd_next s + 1) (?q @ ?new) d" if "d \<in> set (sd_calls s)" for d
      by (rule call_ok_other [OF old(3) [OF that]]) (simp add: none)
    with old(1,2) show ?thesis unfolding calls_ok_def q' by (auto simp: viewer(2) v none less_SucI)
  next
    case (viewed i)
    with old show ?thesis by (simp add: calls_ok_def)
  next
    case (turn ev p)
    with turn_queues [OF turn(3,2)] old show ?thesis by (simp add: calls_ok_def)
  qed
qed

section \<open>Answers\<close>

text \<open>Each one-shot channel is answered at most once.\<close>

lemma answered_once:
  assumes "service_laws js ops view"
    and r: "reach (served_start ring ops cfg h) (served_step pb js ch ring ops cfg) s"
  shows "distinct (map fst (sv_answers (b_service (ap_tasks (sd_process s)))))"
proof -
  have "distinct (confirmations_of (ap_queued (sd_process s)))"
    using served_calls.reach_inv [OF r] by (simp add: calls_ok_def)
  moreover obtain pending where
    "mset pending = image_mset snd (mset (pending_confirmations (sv_coord (b_service (ap_tasks (sd_process s))))))"
    using ex_mset by blast
  with reach_conserved [OF assms(1) reach_process [OF r]] have
    "mset (confirmations_of (ap_queued (sd_process s))) = mset (confirmations_of (ap_users (sd_process s)) @ pending @
       map fst (sv_answers (b_service (ap_tasks (sd_process s)))))"
    by (simp add: coordinator_holds_def)
  ultimately have "distinct (confirmations_of (ap_users (sd_process s)) @ pending @
       map fst (sv_answers (b_service (ap_tasks (sd_process s)))))"
    using mset_eq_imp_distinct_iff by blast
  then show ?thesis by simp
qed

lemma handle_confirmation_result:
  assumes "length rs \<le> length keys"
  shows "\<exists>r. handle_confirmation rs keys elapsed = Some ([Record_confirmation_latency elapsed], r) \<and>
    (r = Inr () \<longleftrightarrow> (\<forall>a\<in>set rs. a = Inr (Inr ())))"
proof -
  have "0 + length rs \<le> length keys" using assms by simp
  from collect_results_ok [OF this] obtain bad internal where
    "collect_results keys 0 rs = Some (bad, internal)" "(bad = []) = (\<not> list_ex answer_refused rs)"
    "(internal = []) = (\<not> list_ex answer_failed rs)" by blast
  then show ?thesis
    by (auto simp: handle_confirmation_def build_grpc_result_def Let_def list_ex_iff answer_cases [symmetric])
qed

lemma one_shot_answer: "one_shot p cf = Some (Inr a) \<Longrightarrow> (cf, a) \<in> set (sv_answers (b_service (ap_tasks p)))"
  by (auto simp: one_shot_def dest: map_of_SomeD split: option.splits if_splits)

lemma published_command:
  assumes sl: "service_laws js ops view"
    and r: "reach (process_start ring ops cfg h) (process_step pb js ch ring ops cfg) p"
    and a: "(cf, Inr ()) \<in> set (sv_answers (b_service (ap_tasks p)))"
  obtains k action user now where "UserUpdate k action user cf \<in> set (ap_queued p)"
    "(k, build_user_status pb now k action user) \<in> set (ap_topic p)"
proof -
  have "(cf, Inr ()) \<in> set (sv_answers (ob_service (seen p)))" using a by (simp add: seen_def)
  with reach_answers_ok [OF sl reach_seen [OF r]] obtain k st where
    c: "(cf, k, st) \<in> set (ap_commands p)" "(k, st) \<in> set (ap_topic p)"
    by (auto simp: answers_ok_def seen_def)
  from command_queued [OF r c(1)] obtain action user now where
    "UserUpdate k action user cf \<in> set (ap_queued p)" "st = build_user_status pb now k action user" .
  with that c(2) show thesis by blast
qed

text \<open>The alarms of the call have what it asks for on the topic.\<close>

definition call_published :: "proto \<Rightarrow> (alarm_key \<times> status) list \<Rightarrow> grpc_call \<Rightarrow> bool" where
  "call_published pb topic c \<longleftrightarrow>
     (\<forall>k\<in>set (gc_keys c). \<exists>now. (k, build_user_status pb now k (gc_action c) (gc_user c)) \<in> set topic)"

lemma call_published_mono: "call_published pb topic c \<Longrightarrow> set topic \<subseteq> set topic' \<Longrightarrow> call_published pb topic' c"
  unfolding call_published_def by blast

lemma topic_grows:
  "process_step pb js ch ring ops cfg p p' \<Longrightarrow> set (ap_topic p) \<subseteq> set (ap_topic p')"
  by (erule process_step_cases) (auto simp: process_user_eq elim!: select_spec)

lemma finish_published:
  assumes sl: "service_laws js ops view"
    and r: "reach (served_start ring ops cfg h) (served_step pb js ch ring ops cfg) s"
    and c: "c \<in> set (sd_calls s)" "call_waits c"
    and all: "\<forall>cf\<in>set (gc_results_fut c). one_shot (sd_process s) cf \<noteq> None"
    and ok: "handle_confirmation (map (the \<circ> one_shot (sd_process s)) (gc_results_fut c)) (gc_keys c) elapsed = Some (ms, Inr ())"
  shows "call_published pb (ap_topic (sd_process s)) c"
proof -
  have own: "call_ok (sd_next s) (ap_queued (sd_process s)) c" and len: "length (gc_results_fut c) = length (gc_keys c)"
    using served_calls.reach_inv [OF r] c by (simp_all add: calls_ok_def call_waits_def)
  with handle_confirmation_result [of "map (the \<circ> one_shot (sd_process s)) (gc_results_fut c)" "gc_keys c" elapsed] ok
  have conf: "\<forall>cf\<in>set (gc_results_fut c). the (one_shot (sd_process s) cf) = Inr (Inr ())" by simp
  show ?thesis unfolding call_published_def
  proof
    fix k assume "k \<in> set (gc_keys c)"
    then obtain j where j: "j < length (gc_results_fut c)" "k = gc_keys c ! j" using len by (auto simp: in_set_conv_nth)
    then have "one_shot (sd_process s) (gc_results_fut c ! j) = Some (Inr (Inr ()))" using conf all by (metis nth_mem option.collapse)
    then have "(gc_results_fut c ! j, Inr ()) \<in> set (sv_answers (b_service (ap_tasks (sd_process s))))"
      by (rule one_shot_answer)
    from published_command [OF sl reach_process [OF r] this] obtain k' action user now where
      "UserUpdate k' action user (gc_results_fut c ! j) \<in> set (ap_queued (sd_process s))"
      "(k', build_user_status pb now k' action user) \<in> set (ap_topic (sd_process s))" .
    with own j show "\<exists>now. (k, build_user_status pb now k (gc_action c) (gc_user c)) \<in> set (ap_topic (sd_process s))"
      unfolding call_ok_def by blast
  qed
qed

lemma begin_unanswered: "gc_answer (call_begin req) \<noteq> Some (Inr ())"
  by (cases req) (auto simp: call_of_def split: sum.splits)

lemma reach_published:
  assumes sl: "service_laws js ops view"
    and r: "reach (served_start ring ops cfg h) (served_step pb js ch ring ops cfg) s"
  shows "\<forall>c\<in>set (sd_calls s). gc_answer c = Some (Inr ()) \<longrightarrow> call_published pb (ap_topic (sd_process s)) c"
  using r
proof (induction rule: reach.induct)
  case (reach_init s)
  then have "s = served_new ring ops cfg h" by (simp add: served_start_def)
  then show ?case by (simp add: served_new_def)
next
  case (reach_step s s')
  note IH = reach_step.IH [rule_format]
  from reach_step(2) show ?case
  proof (cases rule: served_step_cases)
    case (begins req)
    with IH begin_unanswered show ?thesis by auto
  next
    case (sends i)
    have keep: "call_published pb (ap_topic (sd_process s')) d" if "d \<in> set (sd_calls s)" "gc_answer d = Some (Inr ())" for d
      using call_published_mono [OF IH [OF that] topic_grows [OF sends(1)]] .
    have "\<exists>d. sd_calls s' = (sd_calls s)[i := d] \<and> gc_answer d \<noteq> Some (Inr ())"
      using sends(2)
    proof (rule call_send_spec)
      fix c q ms and r :: "channel_send_error + unit"
      assume "s' = s\<lparr>sd_process := process_user cfg (next_message c (sd_next s)) (sd_process s), sd_next := sd_next s + 1,
        sd_calls := (sd_calls s)[i := c\<lparr>gc_results_fut := gc_results_fut c @ [sd_next s],
          gc_answer := (case r of Inl e \<Rightarrow> Some (Inl (map_user_send_error e)) | Inr _ \<Rightarrow> None)\<rparr>],
        sd_metrics := sd_metrics s @ ms\<rparr>"
      then show ?thesis by (intro exI conjI, simp) (cases r; simp)
    qed
    then obtain d where "sd_calls s' = (sd_calls s)[i := d]" "gc_answer d \<noteq> Some (Inr ())" by blast
    with keep show ?thesis by (auto dest!: set_update_subset_insert [THEN subsetD])
  next
    case (finishes i elapsed)
    then obtain c ms r where c: "i < length (sd_calls s)" "c = sd_calls s ! i" "call_waits c"
      "\<forall>cf\<in>set (gc_results_fut c). one_shot (sd_process s) cf \<noteq> None"
      "handle_confirmation (map (the \<circ> one_shot (sd_process s)) (gc_results_fut c)) (gc_keys c) elapsed = Some (ms, r)"
      and s': "s' = s\<lparr>sd_calls := (sd_calls s)[i := c\<lparr>gc_answer := Some r\<rparr>], sd_metrics := sd_metrics s @ ms\<rparr>"
      by (rule call_finish_spec)
    have "call_published pb (ap_topic (sd_process s)) (c\<lparr>gc_answer := Some r\<rparr>)" if "r = Inr ()"
      using finish_published [OF sl reach_step(1) _ c(3,4) c(5) [unfolded that]] c(1,2)
      by (simp add: call_published_def)
    with IH show ?thesis by (auto simp: s' dest!: set_update_subset_insert [THEN subsetD])
  next
    case viewer
    have "sd_calls (viewer_begin cfg s) = sd_calls s" by (rule viewer_begin_spec [of cfg s]) simp
    with IH call_published_mono [OF _ topic_grows [OF viewer(1)]] show ?thesis by (auto simp: viewer(2))
  next
    case (viewed i)
    with IH show ?thesis by simp
  next
    case (turn ev p)
    with IH call_published_mono [OF _ topic_grows [OF turn(1)]] show ?thesis by auto
  qed
qed

text \<open>
  C6: what \<open>Ok\<close> means to an operator. In every run of the process with any number of concurrent
  calls, a call that has been answered with success names only alarms for which the status that it
  asked for, by its user, is on the topic. Nothing is assumed about its one-shot channels: that
  an answer on them is an answer to this call is part of the proof.
\<close>

theorem answered_call_is_published:
  assumes "service_laws js ops view"
    and "reach (served_start ring ops cfg h) (served_step pb js ch ring ops cfg) s"
    and "c \<in> set (sd_calls s)" and "gc_answer c = Some (Inr ())" and "k \<in> set (gc_keys c)"
  shows "\<exists>now. (k, build_user_status pb now k (gc_action c) (gc_user c)) \<in> set (ap_topic (sd_process s))"
  using reach_published [OF assms(1,2)] assms(3-5) unfolding call_published_def by blast

section \<open>A call that waits\<close>

text \<open>
  C11: a waiting call is not forgotten. It can return, with an answer and without a panic, as
  soon as every one of its commands has been answered or the coordinator is gone; and until then
  one of its commands is still in the user channel or pending in the coordinator.
\<close>

theorem waiting_call_returns:
  assumes "service_laws js ops view"
    and r: "reach (served_start ring ops cfg h) (served_step pb js ch ring ops cfg) s"
    and i: "i < length (sd_calls s)" and w: "call_waits (sd_calls s ! i)"
  shows "(\<exists>s' a. call_finish elapsed i s = Some s' \<and> gc_answer (sd_calls s' ! i) = Some a) \<or>
    ig_open (ap_ingress (sd_process s)) \<and>
    (\<exists>cf\<in>set (gc_results_fut (sd_calls s ! i)). cf \<in> set (confirmations_of (ap_users (sd_process s))) \<or>
       cf \<in> snd ` set (pending_confirmations (sv_coord (b_service (ap_tasks (sd_process s))))))"
proof (cases "\<forall>cf\<in>set (gc_results_fut (sd_calls s ! i)). one_shot (sd_process s) cf \<noteq> None")
  case True
  have "length (map (the \<circ> one_shot (sd_process s)) (gc_results_fut (sd_calls s ! i))) \<le> length (gc_keys (sd_calls s ! i))"
    using w by (simp add: call_waits_def)
  from handle_confirmation_result [OF this] True i w show ?thesis by (fastforce simp: call_finish_def Let_def)
next
  case False
  then obtain cf where cf: "cf \<in> set (gc_results_fut (sd_calls s ! i))" "one_shot (sd_process s) cf = None" by blast
  then have opn: "ig_open (ap_ingress (sd_process s))"
    and none: "cf \<notin> fst ` set (sv_answers (b_service (ap_tasks (sd_process s))))"
    by (auto simp: one_shot_def map_of_eq_None_iff split: option.splits if_splits)
  have "call_ok (sd_next s) (ap_queued (sd_process s)) (sd_calls s ! i)"
    using served_calls.reach_inv [OF r] i by (simp add: calls_ok_def)
  with w cf(1) have "cf \<in> set (confirmations_of (ap_queued (sd_process s)))" by (auto simp: call_ok_def call_waits_def)
  then have "cf \<in># mset (confirmations_of (ap_queued (sd_process s)))" by simp
  then have "cf \<in> set (confirmations_of (ap_users (sd_process s))) \<or>
      cf \<in> snd ` set (pending_confirmations (sv_coord (b_service (ap_tasks (sd_process s)))))"
    using none unfolding reach_conserved [OF assms(1) reach_process [OF r]] coordinator_holds_def by auto
  with opn cf(1) show ?thesis by blast
qed

section \<open>A call that is not interrupted\<close>

text \<open>The sends of a call, one after the other.\<close>

fun send_all :: "queue_capacity_config \<Rightarrow> nat \<Rightarrow> nat \<Rightarrow> ('r, 'q, 'h) served \<Rightarrow> ('r, 'q, 'h) served option" where
  "send_all cfg i 0 s = Some s"
| "send_all cfg i (Suc n) s =
     (if sends_next (sd_calls s ! i) then Option.bind (call_send cfg i s) (send_all cfg i n) else Some s)"

lemma user_send_bounded:
  "user_send cfg m p = (q, ms, r) \<Longrightarrow>
     bounded_send (unat (cap_user cfg)) (ig_open (ap_ingress p)) m (ap_users p) = (ap_users (process_user cfg m p), r)"
  by (auto simp: user_send_def bounded_send_def process_user_eq user_try_send_def try_send_def split: if_splits)

lemma send_all_answered: "\<not> sends_next (sd_calls s ! i) \<Longrightarrow> send_all cfg i n s = Some s"
  by (cases n) simp_all

lemma send_all_submits:
  assumes "i < length (sd_calls s)" "gc_answer (sd_calls s ! i) = None"
    and "gc_keys (sd_calls s ! i) = sent @ keys" "length (gc_results_fut (sd_calls s ! i)) = length sent"
    and "submit_updates (bounded_send (unat (cap_user cfg)) (ig_open (ap_ingress (sd_process s))))
      (gc_action (sd_calls s ! i)) (gc_user (sd_calls s ! i)) keys (sd_next s) (ap_users (sd_process s)) = (n, q, r)"
  shows "\<exists>s'. send_all cfg i (length keys) s = Some s' \<and> sd_next s' = n \<and> ap_users (sd_process s') = q \<and>
    i < length (sd_calls s') \<and> gc_keys (sd_calls s' ! i) = gc_keys (sd_calls s ! i) \<and>
    (case r of Inl e \<Rightarrow> gc_answer (sd_calls s' ! i) = Some (Inl e)
     | Inr confs \<Rightarrow> gc_answer (sd_calls s' ! i) = None \<and>
         gc_results_fut (sd_calls s' ! i) = gc_results_fut (sd_calls s ! i) @ confs)"
  using assms
proof (induction keys arbitrary: s sent n q r)
  case (Cons key keys)
  let ?c = "sd_calls s ! i" and ?p = "sd_process s"
  have "next_message ?c (sd_next s) = UserUpdate key (gc_action ?c) (gc_user ?c) (sd_next s)"
    using Cons.prems(3,4) by (simp add: next_message_def nth_append)
  then obtain q1 ms r1 where snd: "user_send cfg (UserUpdate key (gc_action ?c) (gc_user ?c) (sd_next s)) ?p = (q1, ms, r1)"
    and m: "next_message ?c (sd_next s) = UserUpdate key (gc_action ?c) (gc_user ?c) (sd_next s)"
    by (metis prod_cases3)
  define s1 where "s1 = s\<lparr>sd_process := process_user cfg (UserUpdate key (gc_action ?c) (gc_user ?c) (sd_next s)) ?p,
     sd_next := sd_next s + 1,
     sd_calls := (sd_calls s)[i := ?c\<lparr>gc_results_fut := gc_results_fut ?c @ [sd_next s],
       gc_answer := (case r1 of Inl e \<Rightarrow> Some (Inl (map_user_send_error e)) | Inr _ \<Rightarrow> None)\<rparr>],
     sd_metrics := sd_metrics s @ ms\<rparr>"
  have next1: "sends_next ?c" using Cons.prems by (simp add: sends_next_def)
  have call: "call_send cfg i s = Some s1"
    using Cons.prems(1) next1 snd m by (simp add: call_send_def Let_def s1_def)
  note sub = Cons.prems(5) [unfolded submit_updates.simps user_send_bounded [OF snd]]
  show ?case
  proof (cases r1)
    case (Inl e)
    then have "\<not> sends_next (sd_calls s1 ! i)" using Cons.prems(1) by (simp add: s1_def sends_next_def)
    from send_all_answered [OF this] have "send_all cfg i (length (key # keys)) s = Some s1"
      using next1 call by simp
    moreover have "n = sd_next s + 1" "q = ap_users (sd_process s1)" "r = Inl (map_user_send_error e)"
      using sub Inl by (simp_all add: s1_def)
    ultimately show ?thesis using Cons.prems(1) Inl by (simp add: s1_def)
  next
    case (Inr u)
    let ?rest = "submit_updates (bounded_send (unat (cap_user cfg)) (ig_open (ap_ingress ?p)))
        (gc_action ?c) (gc_user ?c) keys (sd_next s + 1) (ap_users (sd_process s1))"
    obtain n2 q2 r2 where rest: "?rest = (n2, q2, r2)" by (metis prod_cases3)
    have s1: "i < length (sd_calls s1)" "gc_answer (sd_calls s1 ! i) = None"
      "gc_keys (sd_calls s1 ! i) = (sent @ [key]) @ keys" "length (gc_results_fut (sd_calls s1 ! i)) = length (sent @ [key])"
      "submit_updates (bounded_send (unat (cap_user cfg)) (ig_open (ap_ingress (sd_process s1))))
        (gc_action (sd_calls s1 ! i)) (gc_user (sd_calls s1 ! i)) keys (sd_next s1) (ap_users (sd_process s1)) = (n2, q2, r2)"
      using Cons.prems Inr rest by (simp_all add: s1_def)
    from Cons.IH [OF s1] obtain s' where s': "send_all cfg i (length keys) s1 = Some s'" "sd_next s' = n2"
      "ap_users (sd_process s') = q2" "i < length (sd_calls s')" "gc_keys (sd_calls s' ! i) = gc_keys (sd_calls s1 ! i)"
      "case r2 of Inl e \<Rightarrow> gc_answer (sd_calls s' ! i) = Some (Inl e)
       | Inr confs \<Rightarrow> gc_answer (sd_calls s' ! i) = None \<and>
           gc_results_fut (sd_calls s' ! i) = gc_results_fut (sd_calls s1 ! i) @ confs" by blast
    have "n = n2 \<and> q = q2 \<and> r = (case r2 of Inl e \<Rightarrow> Inl e | Inr confs \<Rightarrow> Inr (sd_next s # confs))"
      using sub Inr rest by (cases r2) (auto simp: s1_def)
    then show ?thesis
      using s' next1 call Cons.prems(1,3) Inr by (cases r2) (auto simp: s1_def)
  qed
qed simp

lemma finish_with_answers:
  assumes t: "i < length (sd_calls t)" "call_waits (sd_calls t ! i)"
    and a: "\<forall>cf\<in>set (gc_results_fut (sd_calls t ! i)). one_shot (sd_process t) cf = Some (answers cf)"
    and h: "handle_confirmation (map answers (gc_results_fut (sd_calls t ! i))) (gc_keys (sd_calls t ! i)) elapsed = Some (ms, r)"
  shows "\<exists>t'. call_finish elapsed i t = Some t' \<and> gc_answer (sd_calls t' ! i) = Some r"
proof -
  let ?confs = "gc_results_fut (sd_calls t ! i)"
  have same: "map (the \<circ> one_shot (sd_process t)) ?confs = map answers ?confs" using a by simp
  have "\<forall>cf\<in>set ?confs. one_shot (sd_process t) cf \<noteq> None" using a by simp
  then have "call_finish elapsed i t = Some (t\<lparr>sd_calls := (sd_calls t)[i := (sd_calls t ! i)\<lparr>gc_answer := Some r\<rparr>],
      sd_metrics := sd_metrics t @ ms\<rparr>)"
    using t h [folded same] by (simp add: call_finish_def Let_def)
  with t(1) show ?thesis by simp
qed

text \<open>
  The two renderings of \<open>grpc.rs\<close> agree: a call of this theory that sends all its commands
  without another turn in between, and returns in whatever later state its receivers have the
  given answers, is the function \<open>submit_and_confirm_user_update\<close> of \<open>Alarm_Grpc\<close>. This relates the
  models to each other; what a call means is shown above.
\<close>

lemma call_runs_submit:
  assumes "i < length (sd_calls s)" "sd_calls s ! i = call_of devices action user"
    and sub: "submit_and_confirm_user_update (bounded_send (unat (cap_user cfg)) (ig_open (ap_ingress (sd_process s))))
      answers elapsed devices action user \<lparr>next_oneshot = sd_next s, user_channel = ap_users (sd_process s)\<rparr> = Some (g, ms, r)"
  shows "\<exists>s'. send_all cfg i (length (gc_keys (sd_calls s ! i))) s = Some s' \<and> sd_next s' = next_oneshot g \<and>
    ap_users (sd_process s') = user_channel g \<and>
    (if ms = [] then gc_answer (sd_calls s' ! i) = Some r
     else call_waits (sd_calls s' ! i) \<and> (\<forall>t. i < length (sd_calls t) \<and> sd_calls t ! i = sd_calls s' ! i \<and>
         (\<forall>cf\<in>set (gc_results_fut (sd_calls t ! i)). one_shot (sd_process t) cf = Some (answers cf)) \<longrightarrow>
         (\<exists>t'. call_finish elapsed i t = Some t' \<and> gc_answer (sd_calls t' ! i) = Some r)))"
proof (cases "build_keys devices")
  case (Inl e)
  with assms show ?thesis by (auto simp: call_of_def submit_and_confirm_user_update_def)
next
  case (Inr keys)
  let ?c = "sd_calls s ! i"
  have c: "gc_action ?c = action" "gc_user ?c = user" "gc_keys ?c = keys" "gc_answer ?c = None" "gc_results_fut ?c = []"
    using assms(2) Inr by (simp_all add: call_of_def)
  obtain n q r1 where sends: "submit_updates (bounded_send (unat (cap_user cfg)) (ig_open (ap_ingress (sd_process s))))
      action user keys (sd_next s) (ap_users (sd_process s)) = (n, q, r1)" by (metis prod_cases3)
  have "submit_updates (bounded_send (unat (cap_user cfg)) (ig_open (ap_ingress (sd_process s))))
      (gc_action ?c) (gc_user ?c) keys (sd_next s) (ap_users (sd_process s)) = (n, q, r1)" using sends c by simp
  from send_all_submits [OF assms(1) c(4) _ _ this, of "[]"] c obtain s' where
    s': "send_all cfg i (length keys) s = Some s'" "sd_next s' = n" "ap_users (sd_process s') = q"
      "gc_keys (sd_calls s' ! i) = keys"
      "case r1 of Inl e \<Rightarrow> gc_answer (sd_calls s' ! i) = Some (Inl e)
       | Inr confs \<Rightarrow> gc_answer (sd_calls s' ! i) = None \<and>
           gc_results_fut (sd_calls s' ! i) = gc_results_fut ?c @ confs" by auto
  show ?thesis
  proof (cases r1)
    case (Inl e)
    with sub Inr sends s' c show ?thesis by (auto simp: submit_and_confirm_user_update_def)
  next
    case r1: (Inr confs)
    have len: "length confs = length keys" using submit_updates_length [OF sends [unfolded r1]] .
    from sub Inr sends r1 have g: "g = \<lparr>next_oneshot = n, user_channel = q\<rparr>"
      and h: "handle_confirmation (map answers confs) keys elapsed = Some (ms, r)"
      by (auto simp: submit_and_confirm_user_update_def)
    have ms: "ms \<noteq> []" using h by (auto simp: handle_confirmation_def)
    have call: "gc_answer (sd_calls s' ! i) = None" "gc_results_fut (sd_calls s' ! i) = confs"
      using s'(5) r1 c(5) by simp_all
    have "\<exists>t'. call_finish elapsed i t = Some t' \<and> gc_answer (sd_calls t' ! i) = Some r"
      if t: "i < length (sd_calls t)" "sd_calls t ! i = sd_calls s' ! i"
        "\<forall>cf\<in>set (gc_results_fut (sd_calls t ! i)). one_shot (sd_process t) cf = Some (answers cf)" for t
      using finish_with_answers [OF t(1) _ t(3)] t(2) call s'(4) len h by (simp add: call_waits_def)
    with s' call len g c ms show ?thesis by (auto simp: call_waits_def)
  qed
qed

section \<open>A bypass over gRPC\<close>

fun served_events ::
  "proto \<Rightarrow> serializer \<Rightarrow> chrono_ops \<Rightarrow> 'r ring_ops \<Rightarrow> ('q, 'h) delay_ops \<Rightarrow> queue_capacity_config \<Rightarrow> served_event list \<Rightarrow>
   ('r, 'q, 'h) served \<Rightarrow> ('r, 'q, 'h) served option" where
  "served_events pb js ch ring ops cfg [] s = Some s"
| "served_events pb js ch ring ops cfg (ev # evs) s =
     (if id_counter (sv_coord (b_service (ap_tasks (sd_process s)))) = - 1 \<or>
         sv_panicked (b_service (ap_tasks (sd_process s))) then None
      else Option.bind (served_next pb js ch ring ops cfg ev s) (served_events pb js ch ring ops cfg evs))"

lemma served_events_steps:
  "served_events pb js ch ring ops cfg evs s = Some s' \<Longrightarrow> (served_step pb js ch ring ops cfg)\<^sup>*\<^sup>* s s'"
proof (induction evs arbitrary: s)
  case (Cons ev evs)
  then obtain u where "served_step pb js ch ring ops cfg s u" "served_events pb js ch ring ops cfg evs u = Some s'"
    by (auto split: Option.bind_splits if_splits intro: served_stepI)
  with Cons.IH [of u] show ?case by (meson converse_rtranclp_into_rtranclp)
qed simp

text \<open>
  Two calls and a viewer on a process whose user channel has one place: the second call is
  refused while the first message waits, the first is carried out, and the viewer sees it.
\<close>

definition grpc_run :: "served_event list" where
  "grpc_run = [Call_Begins (Bypass_Request [''m:beam#epics''] ''op''), Call_Begins (Acknowledge_Request [''m:a#analog''] ''op2''),
     Call_Sends 0, Call_Sends 1, Process_Turn (Coordinator_Selects 1000)] @
   map (Process_Turn \<circ> Task_Turn) [Send_Job, Take Workflow_Job, Send_Workflow, Take (Snooze_Turn near_clocks), Send_Snooze,
    Take Workflow_Snooze, Send_Workflow, Take Publish_Take, Take (Publish_Event (Attempt_Polled 0 1)),
    Take (Publish_Event (Attempt_Answered 0 True 2)), Send_Publish, Take Workflow_Publish, Send_Workflow] @
   [Process_Turn (Coordinator_Selects 1002)]"

definition grpc_tail :: "served_event list" where
  "grpc_tail = [Call_Finishes 0 5, Viewer_Begins, Process_Turn (Coordinator_Selects 1003), Viewer_Finishes 0]"

abbreviation sample_served ::
  "served_event list \<Rightarrow> ((alarm_key \<times> status) list, sample_queue, nat) served \<Rightarrow>
   ((alarm_key \<times> status) list, sample_queue, nat) served option" where
  "sample_served \<equiv> served_events sample_proto sample_json sample_chrono sample_ring sample_delay tiny_config"

definition waiting_served :: "((alarm_key \<times> status) list, sample_queue, nat) served" where
  "waiting_served = the (sample_served grpc_run (served_new sample_ring sample_delay tiny_config hm_new))"

definition viewed_served :: "((alarm_key \<times> status) list, sample_queue, nat) served" where
  "viewed_served = the (sample_served grpc_tail waiting_served)"

definition bypass_call :: "(tonic_status + unit) option \<Rightarrow> grpc_call" where
  "bypass_call answer = \<lparr>gc_action = Bypass None, gc_user = ''op'', gc_keys = [sample_epics_key], gc_results_fut = [0],
     gc_answer = answer\<rparr>"

lemma grpc_run_evaluated:
  "case sample_served grpc_run (served_new sample_ring sample_delay tiny_config hm_new) of
     None \<Rightarrow> False
   | Some s \<Rightarrow> sd_calls s ! 0 = bypass_call None \<and> length (sd_calls s) = 2 \<and>
       gc_answer (sd_calls s ! 1) = Some (Inl (map_user_send_error Full)) \<and>
       ap_users (sd_process s) = [] \<and> pending_confirmations (sv_coord (b_service (ap_tasks (sd_process s)))) = [] \<and>
       (case sample_served grpc_tail s of None \<Rightarrow> False
        | Some t \<Rightarrow> sd_calls t ! 0 = bypass_call (Some (Inr ())) \<and> length (sd_calls t) = 2 \<and>
            sd_viewers t = [(2, Some (Inr [beam_bypass]))])"
  by code_simp

lemma waiting_served_ok:
  "sample_served grpc_run (served_new sample_ring sample_delay tiny_config hm_new) = Some waiting_served"
  "sample_served grpc_tail waiting_served = Some viewed_served"
  using grpc_run_evaluated by (auto simp: waiting_served_def viewed_served_def split: option.splits)

lemma served_facts:
  "sd_calls waiting_served ! 0 = bypass_call None" "length (sd_calls waiting_served) = 2"
  "ap_users (sd_process waiting_served) = []"
  "pending_confirmations (sv_coord (b_service (ap_tasks (sd_process waiting_served)))) = []"
  "sd_calls viewed_served ! 0 = bypass_call (Some (Inr ()))" "length (sd_calls viewed_served) = 2"
  "sd_viewers viewed_served = [(2, Some (Inr [beam_bypass]))]"
  using grpc_run_evaluated by (simp_all add: waiting_served_ok)

lemma reach_waiting_served:
  "reach (served_start sample_ring sample_delay tiny_config hm_new)
     (served_step sample_proto sample_json sample_chrono sample_ring sample_delay tiny_config) waiting_served"
  by (rule reach_steps [OF reach_init served_events_steps [OF waiting_served_ok(1)]])
    (simp add: served_start_def served_new_def process_start_def tiny_config_def)

lemma reach_viewed_served:
  "reach (served_start sample_ring sample_delay tiny_config hm_new)
     (served_step sample_proto sample_json sample_chrono sample_ring sample_delay tiny_config) viewed_served"
  by (rule reach_steps [OF reach_waiting_served served_events_steps [OF waiting_served_ok(2)]])

theorem answered_call_is_published_witness:
  "\<exists>now. (sample_epics_key, build_user_status sample_proto now sample_epics_key (Bypass None) ''op'')
     \<in> set (ap_topic (sd_process viewed_served))"
proof -
  have "bypass_call (Some (Inr ())) \<in> set (sd_calls viewed_served)"
    using served_facts(5,6) by (metis nth_mem zero_less_numeral)
  from answered_call_is_published [OF sample_service_laws reach_viewed_served this, of sample_epics_key]
  show ?thesis by (simp add: bypass_call_def)
qed

theorem waiting_call_returns_witness:
  "\<exists>s' a. call_finish 5 0 waiting_served = Some s' \<and> gc_answer (sd_calls s' ! 0) = Some a"
proof -
  have "0 < length (sd_calls waiting_served)" "call_waits (sd_calls waiting_served ! 0)"
    using served_facts(1,2) by (simp_all add: bypass_call_def call_waits_def)
  from waiting_call_returns [OF sample_service_laws reach_waiting_served this, of 5] served_facts(3,4)
  show ?thesis by simp
qed

end
