(* ===== verification/Alarm_Viewers.thy ===== *)
theory Alarm_Viewers
  imports Alarm_Calls
begin

text \<open>
  What operators see: the snapshots of \<open>get_snapshot\<close> (\<open>adapters/grpc.rs\<close>,
  \<open>engine/coordinator.rs\<close>) in runs of the process with its calls. Confirmed state holds only
  statuses that are on the topic or were restored at startup, so a snapshot does as well.
\<close>

section \<open>Confirmed state is backed\<close>

lemma confirmed_next:
  assumes inv: "cm_inv pb m" and en: "cm_enabled ev m" and c: "conf (cm_next pb now ev m) k = Some e"
  shows "conf m k = Some e \<or> (\<exists>j. ev = On_Outcome (Committed j) \<and> k = job_key j \<and> e = (job_status j, job_id j))"
proof -
  have run: "cm_running m" using inv by (simp add: cm_inv_def)
  have message: "conf m k = Some e" if "ev = On_User msg \<or> ev = On_Automated msg" for msg
    using that c
    by (cases msg) (auto simp: cm_next_automated [OF run] cm_next_user [OF run] cm_next_snapshot [OF run]
        automated_result_def user_result_def Let_def split: if_splits)
  show ?thesis
  proof (cases ev)
    case (On_Outcome r)
    show ?thesis
    proof (cases r)
      case (Committed j)
      with On_Outcome en have j: "j \<in> set (cm_jobs m)" by simp
      obtain st n where sp: "spec m (job_key j) = Some (st, n)" using flight_spec [OF inv j] .
      from c On_Outcome Committed show ?thesis
        by (auto simp: cm_next_committed [OF run] sp split: if_splits)
    next
      case (Failed j)
      with On_Outcome en have j: "j \<in> set (cm_jobs m)" by simp
      obtain st n where sp: "spec m (job_key j) = Some (st, n)" using flight_spec [OF inv j] .
      from c On_Outcome Failed show ?thesis by (auto simp: cm_next_failed [OF run sp] split: if_splits)
    next
      case (Wake k')
      with c On_Outcome show ?thesis
        by (auto simp: cm_next_automated [OF run] automated_result_def Let_def split: if_splits)
    qed
  next
    case Blocked
    with c show ?thesis by (simp add: cm_next_snapshot [OF run])
  qed (use en message in \<open>auto intro: message\<close>)
qed

definition backed :: "hydrated_statuses \<Rightarrow> (alarm_key \<times> status) list \<Rightarrow> alarm_key \<Rightarrow> status \<Rightarrow> bool" where
  "backed h topic k st \<longleftrightarrow> (k, st) \<in> set topic \<or> hm_get h k = Some st"

lemma backed_mono: "backed h topic k st \<Longrightarrow> set topic \<subseteq> set topic' \<Longrightarrow> backed h topic' k st"
  unfolding backed_def by blast

lemma backed_append: "backed h topic k st \<Longrightarrow> backed h (topic @ news) k st"
  by (auto simp: backed_def)

definition confirmed_backed :: "hydrated_statuses \<Rightarrow> ('q, 'h) observed \<Rightarrow> bool" where
  "confirmed_backed h ob \<longleftrightarrow> (\<forall>k st n. hm_get (confirmed_state (sv_coord (ob_service ob))) k = Some (st, n) \<longrightarrow>
     backed h (ob_topic ob) k st)"

lemma reach_confirmed_backed:
  assumes sl: "service_laws js ops view" and r: "reach (observed_start ops h) (observed_step pb js ch ops) ob"
  shows "confirmed_backed h ob"
  using assms
proof (induction rule: observed_induct)
  case start
  then show ?case
    by (auto simp: confirmed_backed_def observed_start_state_def runtime_start_def coordinator_new_confirmed backed_def)
next
  case (turn m s topic commands ev t)
  note ok = turn(7)
  have conf_m: "conf m = hm_get (confirmed_state (sv_coord s))" using turn(3) by (simp add: simulates_def)
  show ?case
  proof (cases "coordinator_turn ev")
    case False
    then have "sv_coord t = sv_coord s" using task_keeps [OF turn(5)] by blast
    with ok show ?thesis unfolding confirmed_backed_def by (auto intro: backed_append)
  next
    case True
    then obtain now cev where ev: "ev = Coordinator_Turn now cev" by (cases ev) auto
    note nxt = turn(5) [unfolded ev]
    have t: "simulates t (cm_next pb now cev m)" using coord_turn_ok [OF turn(2,3,4) nxt] by simp
    note en = coord_enabled [OF turn(3) nxt]
    from reach_topic_ok [OF sl turn(6)] have top: "topic_ok h topic s" by simp
    have "backed h topic k st" if c: "hm_get (confirmed_state (sv_coord t)) k = Some (st, n)" for k st n
    proof -
      have "conf (cm_next pb now cev m) k = Some (st, n)" using c t by (simp add: simulates_def)
      from confirmed_next [OF turn(1) en this] show ?thesis
      proof
        assume "conf m k = Some (st, n)"
        with ok conf_m show ?thesis by (auto simp: confirmed_backed_def)
      next
        assume "\<exists>j. cev = On_Outcome (Committed j) \<and> k = job_key j \<and> (st, n) = (job_status j, job_id j)"
        then obtain j where j: "cev = On_Outcome (Committed j)" "k = job_key j" "st = job_status j" by blast
        then have "Committed j \<in> set (sv_outcome_q s)" using coord_keeps(5) [OF nxt] by auto
        with top j show ?thesis by (auto simp: topic_ok_def results_ok_def backed_def intro: last_on_mem)
      qed
    qed
    then show ?thesis unfolding confirmed_backed_def by (auto intro: backed_append)
  qed
qed

lemma process_confirmed_backed:
  assumes "service_laws js ops view"
    and "reach (process_start ring ops cfg h) (process_step pb js ch ring ops cfg) p"
    and "hm_get (confirmed_state (sv_coord (b_service (ap_tasks p)))) k = Some (st, n)"
  shows "backed h (ap_topic p) k st"
  using reach_confirmed_backed [OF assms(1) reach_seen [OF assms(2)]] assms(3)
  by (auto simp: confirmed_backed_def seen_def)

section \<open>Snapshots\<close>

lemma snapshots_of_append [simp]: "snapshots_of (es @ fs) = snapshots_of es @ snapshots_of fs"
  by (induction es rule: snapshots_of.induct) auto

lemma no_snapshots [simp]:
  "snapshots_of (fst (send_next_for job_open c k)) = []"
  "snapshots_of (snd (resolve_confirmation c n a)) = []"
  "snapshots_of (snd (fail_all_confirmations c)) = []"
proof -
  show "snapshots_of (fst (send_next_for job_open c k)) = []" "snapshots_of (snd (resolve_confirmation c n a)) = []"
    by (auto simp: send_next_for_def job_port_send_def resolve_confirmation_def split: option.splits)
  have "snapshots_of (List.concat (map (\<lambda>(jid, confirmation).
        case find (\<lambda>(key, status, mapped_id). mapped_id = jid) (speculative_state c) of
          Some (key, _) \<Rightarrow> [Confirm confirmation (Inl (Internal key))] | None \<Rightarrow> []) ps)) = []" for ps
    by (induction ps) (auto split: option.splits)
  then show "snapshots_of (snd (fail_all_confirmations c)) = []" by (simp add: fail_all_confirmations_def)
qed

lemma handlers_send_no_snapshots [simp]:
  "snapshots_of (fst (snd (handle_automated_update pb job_open c st))) = []"
  "snapshots_of (fst (snd (handle_user_update pb now job_open c k action user cf))) = []"
  "snapshots_of (fst (snd (reconcile_success job_open c j))) = []"
  "snapshots_of (fst (snd (reconcile_failure pb job_open c j))) = []"
proof -
  show "snapshots_of (fst (snd (handle_automated_update pb job_open c st))) = []"
    by (simp add: handle_automated_update_def get_next_id_def Let_def)
  show "snapshots_of (fst (snd (handle_user_update pb now job_open c k action user cf))) = []"
    by (simp add: handle_user_update_def get_next_id_def Let_def)
  obtain c1 es1 where s1: "resolve_confirmation c (job_id j) (Inr ()) = (c1, es1)" by fastforce
  obtain es r where n1: "send_next_for job_open c1 (job_key j) = (es, r)" by fastforce
  show "snapshots_of (fst (snd (reconcile_success job_open c j))) = []"
    using no_snapshots(2) [of c "job_id j" "Inr ()"] no_snapshots(1) [of job_open c1 "job_key j"]
    by (simp add: reconcile_success_def s1 n1 Let_def split: option.split sum.split)
  obtain c2 es2 where s2: "resolve_confirmation c (job_id j) (Inl (Internal (job_key j))) = (c2, es2)" by fastforce
  have "snapshots_of es2 = []" using no_snapshots(2) [of c "job_id j" "Inl (Internal (job_key j))"] by (simp add: s2)
  moreover have "snapshots_of es = []" if "send_next_for job_open d (job_key j) = (es, r)" for d es r
    using no_snapshots(1) [of job_open d "job_key j"] that by simp
  ultimately show "snapshots_of (fst (snd (reconcile_failure pb job_open c j))) = []"
    by (auto simp: reconcile_failure_def s2 Let_def split: option.split prod.split)
qed

lemma outcome_sends_no_snapshots [simp]:
  "snapshots_of (fst (snd (reconcile_job_outcome pb now job_open c r))) = []"
  by (cases r) (simp_all add: dispatch_automated_wake_def)

lemma turn_snapshots_eq:
  "snapshots_of (fst (snd (coord_turn pb now job_open c ev))) = snapshots_of (fst (snd
     (case ev of
        On_Outcome jo \<Rightarrow> reconcile_job_outcome pb now job_open c jo
      | On_User m \<Rightarrow> handle_message pb now job_open c m
      | On_Automated m \<Rightarrow> handle_message pb now job_open c m
      | All_Dropped \<Rightarrow> (c, [], Inl ''All channels dropped'')
      | Blocked \<Rightarrow> (c, [], Inr ()))))"
proof -
  have fail: "snapshots_of es = []" if "fail_all_confirmations d = (e, es)" for d e es
    using no_snapshots(3) [of d] that by simp
  show ?thesis by (auto simp: coord_turn_def Let_def fail split: prod.split sum.split)
qed

lemma turn_snapshots:
  assumes "(n, snap) \<in> set (snapshots_of (fst (snd (coord_turn pb now job_open c ev))))"
  shows "snap = filter (\<lambda>status. status_state pb status \<notin> {Ok, Unbypassed}) (map (\<lambda>(_, status, _). status) (confirmed_state c))"
proof -
  have message: "snap = filter (\<lambda>status. status_state pb status \<notin> {Ok, Unbypassed}) (map (\<lambda>(_, status, _). status) (confirmed_state c))"
    if "(n, snap) \<in> set (snapshots_of (fst (snd (handle_message pb now job_open c m))))" for m
    using that by (cases m) (simp_all add: handle_snapshot_def)
  show ?thesis
  proof (cases ev)
    case (On_Outcome r)
    with assms show ?thesis by (simp add: turn_snapshots_eq)
  next
    case (On_User m)
    with assms message show ?thesis by (simp add: turn_snapshots_eq)
  next
    case (On_Automated m)
    with assms message show ?thesis by (simp add: turn_snapshots_eq)
  qed (use assms in \<open>simp_all add: turn_snapshots_eq\<close>)
qed

text \<open>The statuses belong to different alarms, are active, and are backed.\<close>

definition snapshot_backed ::
  "proto \<Rightarrow> hydrated_statuses \<Rightarrow> (alarm_key \<times> status) list \<Rightarrow> alarms_snapshot \<Rightarrow> bool" where
  "snapshot_backed pb h topic snapshot \<longleftrightarrow> (\<exists>keys. distinct keys \<and>
     list_all2 (\<lambda>k st. status_state pb st \<notin> {Ok, Unbypassed} \<and> ((k, st) \<in> set topic \<or> hm_get h k = Some st)) keys snapshot)"

lemma snapshot_backed_mono:
  assumes "snapshot_backed pb h topic snap" "set topic \<subseteq> set topic'"
  shows "snapshot_backed pb h topic' snap"
  using assms unfolding snapshot_backed_def by (fastforce elim!: list_all2_mono)

lemma confirmed_snapshot:
  assumes wf: "hm_wf m" and b: "\<And>k st n. hm_get m k = Some (st, n) \<Longrightarrow> backed h topic k st"
  shows "snapshot_backed pb h topic
    (filter (\<lambda>status. status_state pb status \<notin> {Ok, Unbypassed}) (map (\<lambda>(_, status, _). status) m))"
proof -
  let ?es = "filter (\<lambda>(k, st, n). status_state pb st \<notin> {Ok, Unbypassed}) m"
  have distinct: "distinct (map fst ?es)"
    using wf by (auto simp: hm_wf_def distinct_map intro: inj_on_subset)
  have statuses: "filter (\<lambda>st. status_state pb st \<notin> {Ok, Unbypassed}) (map (\<lambda>(_, st, _). st) m) = map (fst \<circ> snd) ?es"
    by (simp add: filter_map comp_def case_prod_unfold)
  have "\<forall>k st n. (k, st, n) \<in> set m \<longrightarrow> (k, st) \<in> set topic \<or> hm_get h k = Some st"
    using b wf by (simp add: hm_get_Some_iff backed_def)
  then have "list_all2 (\<lambda>k st. status_state pb st \<notin> {Ok, Unbypassed} \<and> ((k, st) \<in> set topic \<or> hm_get h k = Some st))
      (map fst ?es) (map (fst \<circ> snd) ?es)"
    by (auto simp: list.rel_map list_all2_same)
  with distinct show ?thesis unfolding snapshot_backed_def statuses by blast
qed

section \<open>The viewers\<close>

lemma confirmed_wf:
  assumes "service_laws js ops view"
    and "reach (process_start ring ops cfg h) (process_step pb js ch ring ops cfg) p"
  shows "hm_wf (confirmed_state (sv_coord (b_service (ap_tasks p))))"
proof -
  from reach_service_rel [OF assms(1) reach_bounded_service [OF reach_tasks [OF assms(2)]]] obtain m where
    "cm_inv pb m" "simulates (unbound (ap_tasks p)) m" by auto
  then show ?thesis by (simp add: simulates_def cm_inv_def inv_maps_def)
qed

lemma sent_backed:
  assumes sl: "service_laws js ops view"
    and r: "reach (process_start ring ops cfg h) (process_step pb js ch ring ops cfg) p"
    and s: "(n, snap) \<in> set (snapshots_sent pb ev p)"
  shows "snapshot_backed pb h (ap_topic p) snap"
proof -
  let ?c = "sv_coord (b_service (ap_tasks p))"
  obtain now cev where "(n, snap) \<in> set (snapshots_of (fst (snd (coord_turn pb now True ?c cev))))"
    using s by (cases ev) auto
  then have snap: "snap = filter (\<lambda>status. status_state pb status \<notin> {Ok, Unbypassed})
      (map (\<lambda>(_, status, _). status) (confirmed_state ?c))"
    by (rule turn_snapshots)
  show ?thesis unfolding snap
    by (rule confirmed_snapshot [OF confirmed_wf [OF sl r]]) (rule process_confirmed_backed [OF sl r])
qed

definition views_backed :: "proto \<Rightarrow> hydrated_statuses \<Rightarrow> ('r, 'q, 'h) served \<Rightarrow> bool" where
  "views_backed pb h s \<longleftrightarrow>
     (\<forall>(n, snap)\<in>set (sd_snapshots s). snapshot_backed pb h (ap_topic (sd_process s)) snap) \<and>
     (\<forall>n snap. (n, Some (Inr snap)) \<in> set (sd_viewers s) \<longrightarrow> snapshot_backed pb h (ap_topic (sd_process s)) snap)"

lemma views_backed_grow:
  assumes "views_backed pb h s" "set (ap_topic (sd_process s)) \<subseteq> set (ap_topic (sd_process s'))"
    and "sd_snapshots s' = sd_snapshots s @ news" "\<forall>(n, snap)\<in>set news. snapshot_backed pb h (ap_topic (sd_process s')) snap"
    and "\<And>n snap. (n, Some (Inr snap)) \<in> set (sd_viewers s') \<Longrightarrow>
      (n, Some (Inr snap)) \<in> set (sd_viewers s) \<or> (n, snap) \<in> set (sd_snapshots s)"
  shows "views_backed pb h s'"
proof -
  have old: "snapshot_backed pb h (ap_topic (sd_process s')) snap"
    if "(n, snap) \<in> set (sd_snapshots s) \<or> (n, Some (Inr snap)) \<in> set (sd_viewers s)" for n snap
  proof -
    have "snapshot_backed pb h (ap_topic (sd_process s)) snap" using that assms(1) by (auto simp: views_backed_def)
    then show ?thesis using assms(2) by (rule snapshot_backed_mono)
  qed
  have "snapshot_backed pb h (ap_topic (sd_process s')) snap" if "(n, snap) \<in> set (sd_snapshots s')" for n snap
    using that assms(3,4) old [of n snap] by auto
  moreover have "snapshot_backed pb h (ap_topic (sd_process s')) snap"
    if "(n, Some (Inr snap)) \<in> set (sd_viewers s')" for n snap
    using old assms(5) [OF that] by blast
  ultimately show ?thesis unfolding views_backed_def by auto
qed

lemma viewer_finish_spec:
  assumes "viewer_finish i s = Some s'"
  obtains a where "sd_viewers s' = (sd_viewers s)[i := (fst (sd_viewers s ! i), Some a)]"
    "\<forall>snap. a = Inr snap \<longrightarrow> (fst (sd_viewers s ! i), snap) \<in> set (sd_snapshots s)"
proof (cases "map_of (sd_snapshots s) (fst (sd_viewers s ! i))")
  case None
  note fin = assms [unfolded viewer_finish_def Let_def None option.case]
  from fin have "s' = s\<lparr>sd_viewers := (sd_viewers s)[i := (fst (sd_viewers s ! i),
      Some (Inl (Internal_Status ''The alarms state machine has shut down!'')))]\<rparr>"
    by (metis option.distinct(1) option.inject)
  then show thesis by (intro that [of "Inl (Internal_Status ''The alarms state machine has shut down!'')"]) (simp, blast)
next
  case (Some snapshot)
  note fin = assms [unfolded viewer_finish_def Let_def Some option.case]
  from fin have "s' = s\<lparr>sd_viewers := (sd_viewers s)[i := (fst (sd_viewers s ! i), Some (Inr snapshot))]\<rparr>"
    by (metis option.distinct(1) option.inject)
  then show thesis by (intro that [of "Inr snapshot"]) (simp, use map_of_SomeD [OF Some] in blast)
qed

lemma reach_views_backed:
  assumes sl: "service_laws js ops view"
    and r: "reach (served_start ring ops cfg h) (served_step pb js ch ring ops cfg) s"
  shows "views_backed pb h s"
  using r
proof (induction rule: reach.induct)
  case (reach_init s)
  then have "s = served_new ring ops cfg h" by (simp add: served_start_def)
  then show ?case by (simp add: served_new_def views_backed_def)
next
  case (reach_step s s')
  note grow = views_backed_grow [OF reach_step.IH]
  from reach_step(2) show ?case
  proof (cases rule: served_step_cases)
    case (begins req)
    then show ?thesis by (intro grow [where news = "[]"]) auto
  next
    case (sends i)
    have "sd_snapshots s' = sd_snapshots s \<and> sd_viewers s' = sd_viewers s" using sends(2) by (rule call_send_spec) simp
    with topic_grows [OF sends(1)] show ?thesis by (intro grow [where news = "[]"]) auto
  next
    case (finishes i elapsed)
    then have "sd_snapshots s' = sd_snapshots s \<and> sd_viewers s' = sd_viewers s \<and> sd_process s' = sd_process s"
      by (rule call_finish_spec) simp
    then show ?thesis by (intro grow [where news = "[]"]) auto
  next
    case viewer
    have "\<exists>n a. sd_snapshots s' = sd_snapshots s \<and> sd_viewers s' = sd_viewers s @ [(n, a)] \<and> (\<forall>snap. a \<noteq> Some (Inr snap))"
    proof (rule viewer_begin_spec [of cfg s])
      fix q ms and r :: "channel_send_error + unit"
      assume "viewer_begin cfg s = s\<lparr>sd_process := process_user cfg (SnapshotRequest (sd_next s)) (sd_process s),
       sd_next := sd_next s + 1, sd_viewers := sd_viewers s @
         [(sd_next s, case r of Inl e \<Rightarrow> Some (Inl (map_user_send_error e)) | Inr _ \<Rightarrow> None)],
       sd_metrics := sd_metrics s @ ms\<rparr>"
      then show ?thesis by (cases r) (simp_all add: viewer(2))
    qed
    then obtain n a where "sd_snapshots s' = sd_snapshots s" "sd_viewers s' = sd_viewers s @ [(n, a)]"
      "\<forall>snap. a \<noteq> Some (Inr snap)" by blast
    with topic_grows [OF viewer(1)] show ?thesis by (intro grow [where news = "[]"]) auto
  next
    case (viewed i)
    have "(n, Some (Inr snap)) \<in> set (sd_viewers s) \<or> (n, snap) \<in> set (sd_snapshots s)"
      if "(n, Some (Inr snap)) \<in> set (sd_viewers s')" for n snap
    proof -
      from viewed obtain a where "sd_viewers s' = (sd_viewers s)[i := (fst (sd_viewers s ! i), Some a)]"
        "\<forall>snap. a = Inr snap \<longrightarrow> (fst (sd_viewers s ! i), snap) \<in> set (sd_snapshots s)"
        by (rule viewer_finish_spec)
      with that set_update_subset_insert [of "sd_viewers s" i] show ?thesis by (cases a) auto
    qed
    with viewed show ?thesis by (intro grow [where news = "[]"]) auto
  next
    case (turn ev p)
    have "\<forall>(n, snap)\<in>set (snapshots_sent pb ev (sd_process s)). snapshot_backed pb h (ap_topic (sd_process s')) snap"
      using sent_backed [OF sl reach_process [OF reach_step(1)]] topic_grows [OF turn(1)] turn(4)
      by (auto intro: snapshot_backed_mono)
    with topic_grows [OF turn(1)] turn(4) show ?thesis by (intro grow) auto
  qed
qed

text \<open>
  C10: an operator never sees speculation. The statuses in a snapshot that a call has received belong
  to different alarms, none is \<open>Ok\<close> or \<open>Unbypassed\<close>, and each was accepted by the publisher or restored
  at startup for its alarm, however the calls, the jobs, failures and retries interleave.
\<close>

theorem viewer_sees_published:
  assumes "service_laws js ops view"
    and "reach (served_start ring ops cfg h) (served_step pb js ch ring ops cfg) s"
    and "(n, Some (Inr snapshot)) \<in> set (sd_viewers s)"
  shows "\<exists>keys. distinct keys \<and> list_all2 (\<lambda>k st. status_state pb st \<notin> {Ok, Unbypassed} \<and>
    ((k, st) \<in> set (ap_topic (sd_process s)) \<or> hm_get h k = Some st)) keys snapshot"
  using reach_views_backed [OF assms(1,2)] assms(3) unfolding views_backed_def snapshot_backed_def by blast

theorem viewer_sees_published_witness:
  "\<exists>k. (k, beam_bypass) \<in> set (ap_topic (sd_process viewed_served))"
proof -
  have "(2, Some (Inr [beam_bypass])) \<in> set (sd_viewers viewed_served)" by (simp add: served_facts)
  from viewer_sees_published [OF sample_service_laws reach_viewed_served this] show ?thesis
    by (auto simp: list_all2_Cons2 hm_new_def hm_get_def)
qed

end
