(* ===== verification/Alarm_Hanging.thy ===== *)
theory Alarm_Hanging
  imports Alarm_Viewers
begin

text \<open>
  A gRPC call that hangs. A command that was accepted while a job for its alarm is in flight, and
  is superseded before its own job was sent, has a confirmation that no event resolves
  (\<open>superseded_confirmation_stranded\<close>). Here is what its operator sees of it.
\<close>

section \<open>Stranded confirmations in the process\<close>

text \<open>The confirmation is pending under an id that stands for nothing any more.\<close>

definition stranded_in :: "('q, 'h) service \<Rightarrow> u64 \<Rightarrow> confirmation \<Rightarrow> bool" where
  "stranded_in s n cf \<longleftrightarrow> hm_get (pending_confirmations (sv_coord s)) n = Some cf \<and>
     (\<forall>k st. hm_get (speculative_state (sv_coord s)) k \<noteq> Some (st, n) \<and> hm_get (confirmed_state (sv_coord s)) k \<noteq> Some (st, n)) \<and>
     (\<forall>j\<in>#pipe_jobs s. job_id j \<noteq> n)"

lemma stranded_machine: "simulates s m \<Longrightarrow> stranded m n cf \<longleftrightarrow> stranded_in s n cf"
  unfolding simulates_def stranded_def stranded_in_def entry_def
  by (simp flip: set_mset_mset) blast

lemma stranded_task:
  assumes sl: "service_laws js ops view"
    and r: "reach (process_start ring ops cfg h) (process_step pb js ch ring ops cfg) p"
    and nxt: "bounded_next pb js ch ops cfg ev (ap_tasks p) = Some b" and c: "\<not> of_coordinator ev"
    and s: "stranded_in (unbound (ap_tasks p)) n cf"
  shows "stranded_in (unbound b) n cf"
proof (cases "\<exists>e. ev = Take e")
  case True
  then obtain e where e: "ev = Take e" by blast
  with nxt have "bounded_take pb js ch ops e (ap_tasks p) = Some b" by simp
  note t = take_simulates [OF this]
  from reach_service_rel [OF sl reach_bounded_service [OF reach_tasks [OF r]]] obtain m where
    m: "cm_inv pb m" "pipe_ok view (unbound (ap_tasks p))" "simulates (unbound (ap_tasks p)) m" by auto
  have "simulates (unbound b) m" using task_turn_ok [OF sl m _ t] c e by simp
  with stranded_machine [OF m(3)] s show ?thesis by (simp add: stranded_machine)
next
  case False
  then have "bounded_send_step cfg ev (ap_tasks p) = Some b" using nxt by (cases ev) auto
  then have "unbound b = unbound (ap_tasks p)" by (rule send_stutters)
  with s show ?thesis by simp
qed

lemma stranded_process_step:
  assumes sl: "service_laws js ops view"
    and r: "reach (process_start ring ops cfg h) (process_step pb js ch ring ops cfg) p"
    and st: "process_step pb js ch ring ops cfg p p'" and s: "stranded_in (unbound (ap_tasks p)) n cf"
  shows "stranded_in (unbound (ap_tasks p')) n cf"
  using st
proof (cases rule: process_step_cases)
  case (select now)
  from select(3) obtain ev where
    t: "bounded_take pb js ch ops (Coordinator_Turn now ev) (ap_tasks p) = Some (ap_tasks p')"
    by (rule select_spec) auto
  from process_turn_machine [OF sl r select(1) t] obtain m where m: "cm_inv pb m" "cm_enabled ev m"
    "simulates (unbound (ap_tasks p)) m" "simulates (unbound (ap_tasks p')) (cm_next pb now ev m)" by blast
  have "stranded m n cf" using s m(3) by (simp add: stranded_machine)
  from stranded_step [OF m(1) this m(2), of now] m(4) show ?thesis by (simp add: stranded_machine)
next
  case (task ev b)
  with stranded_task [OF sl r task(3,4) s] show ?thesis by simp
qed (use s in \<open>simp_all add: process_user_eq\<close>)

lemma stranded_unanswered:
  assumes "service_laws js ops view"
    and r: "reach (served_start ring ops cfg h) (served_step pb js ch ring ops cfg) s"
    and st: "stranded_in (unbound (ap_tasks (sd_process s))) n cf" and opn: "ig_open (ap_ingress (sd_process s))"
  shows "one_shot (sd_process s) cf = None"
proof -
  let ?c = "sv_coord (b_service (ap_tasks (sd_process s)))" and ?a = "sv_answers (b_service (ap_tasks (sd_process s)))"
  have "(n, cf) \<in> set (pending_confirmations ?c)"
    using st by (auto simp: stranded_in_def hm_get_def dest: map_of_SomeD)
  then have p: "cf \<in># image_mset snd (mset (pending_confirmations ?c))" by force
  have "count (mset (confirmations_of (ap_queued (sd_process s)))) cf \<le> 1"
    using served_calls.reach_inv [OF r] by (intro distinct_count_le) (simp add: calls_ok_def)
  then have "count (image_mset snd (mset (pending_confirmations ?c))) cf + count (mset (map fst ?a)) cf \<le> 1"
    unfolding reach_conserved [OF assms(1) reach_process [OF r]] coordinator_holds_def by simp
  moreover have "0 < count (image_mset snd (mset (pending_confirmations ?c))) cf" using p by (simp only: count_greater_zero_iff)
  ultimately have "count (mset (map fst ?a)) cf = 0" by linarith
  then have "map_of ?a cf = None" by (simp add: map_of_eq_None_iff count_eq_zero_iff)
  with opn show ?thesis by (simp add: one_shot_def)
qed

section \<open>The call\<close>

lemma open_step:
  assumes "process_step pb js ch ring ops cfg p p'" "ig_open (ap_ingress p')"
  shows "ig_open (ap_ingress p)"
  using assms(1)
proof (cases rule: process_step_cases)
  case (ingress ev i)
  with assms(2) show ?thesis
    by (cases ev) (auto simp: ig_submit_def ig_direct_def ig_retain_def ig_pop_def ig_deliver_def Let_def
        split: if_splits caller.splits drain.splits list.splits prod.splits sum.splits channel_send_error.splits)
next
  case (select now)
  from select(3) obtain ev where "case ev of
        On_User m \<Rightarrow> ap_users p = m # ap_users p' \<and> ap_ingress p' = ap_ingress p
      | On_Automated m \<Rightarrow> ap_users p' = ap_users p \<and> ig_queue (ap_ingress p) = m # ig_queue (ap_ingress p') \<and>
          ap_ingress p' = (ap_ingress p)\<lparr>ig_queue := ig_queue (ap_ingress p')\<rparr>
      | _ \<Rightarrow> ap_users p' = ap_users p \<and> ap_ingress p' = ap_ingress p"
    by (rule select_spec) auto
  then have "ap_ingress p' = ap_ingress p \<or> ap_ingress p' = (ap_ingress p)\<lparr>ig_queue := ig_queue (ap_ingress p')\<rparr>"
    by (cases ev) simp_all
  with assms(2) show ?thesis by (metis ingress.simps(6) ingress.surjective ingress.update_convs(7))
qed (use assms(2) in \<open>simp_all add: process_user_eq split: if_splits\<close>)

text \<open>The call keeps waiting: its last sends are over, and it cannot return.\<close>

definition hangs :: "('r, 'q, 'h) served \<Rightarrow> nat \<Rightarrow> grpc_call \<Rightarrow> u64 \<Rightarrow> confirmation \<Rightarrow> bool" where
  "hangs s i c n cf \<longleftrightarrow> i < length (sd_calls s) \<and> sd_calls s ! i = c \<and>
     stranded_in (unbound (ap_tasks (sd_process s))) n cf"

lemma hangs_step:
  assumes sl: "service_laws js ops view"
    and r: "reach (served_start ring ops cfg h) (served_step pb js ch ring ops cfg) s"
    and c: "call_waits c" "cf \<in> set (gc_results_fut c)" and hg: "hangs s i c n cf"
    and st: "served_step pb js ch ring ops cfg s s'" and opn: "ig_open (ap_ingress (sd_process s'))"
  shows "ig_open (ap_ingress (sd_process s)) \<and> hangs s' i c n cf"
proof -
  have old: "i < length (sd_calls s)" "sd_calls s ! i = c" "stranded_in (unbound (ap_tasks (sd_process s))) n cf"
    using hg by (simp_all add: hangs_def)
  note strand = stranded_process_step [OF sl reach_process [OF r] _ old(3)]
  from st show ?thesis
  proof (cases rule: served_step_cases)
    case (begins req)
    with old opn show ?thesis by (simp add: hangs_def nth_append)
  next
    case (sends i')
    have "i' \<noteq> i" using sends(2) old(2) c(1) by (auto simp: call_waits_def sends_next_def elim: call_send_spec)
    then have "length (sd_calls s') = length (sd_calls s) \<and> sd_calls s' ! i = sd_calls s ! i"
      using sends(2) by (auto elim: call_send_spec)
    with old strand [OF sends(1)] open_step [OF sends(1) opn] show ?thesis by (simp add: hangs_def)
  next
    case (finishes i' elapsed)
    then obtain d ms r where d: "d = sd_calls s ! i'" "\<forall>cf\<in>set (gc_results_fut d). one_shot (sd_process s) cf \<noteq> None"
      and s': "s' = s\<lparr>sd_calls := (sd_calls s)[i' := d\<lparr>gc_answer := Some r\<rparr>], sd_metrics := sd_metrics s @ ms\<rparr>"
      by (rule call_finish_spec)
    have o: "ig_open (ap_ingress (sd_process s))" using opn by (simp add: s')
    from stranded_unanswered [OF sl r old(3) o] d c(2) old(2) have "i' \<noteq> i" by auto
    with old o show ?thesis by (simp add: hangs_def s')
  next
    case viewer
    have "sd_calls (viewer_begin cfg s) = sd_calls s" by (rule viewer_begin_spec [of cfg s]) simp
    with old strand [OF viewer(1)] open_step [OF viewer(1) opn] show ?thesis by (simp add: hangs_def viewer(2))
  next
    case (viewed i')
    with old opn show ?thesis by (simp add: hangs_def)
  next
    case (turn ev p)
    have "sd_process s' = p" "sd_calls s' = sd_calls s" using turn(4) by simp_all
    with old strand [OF turn(1)] open_step [OF turn(1)] opn show ?thesis by (simp add: hangs_def)
  qed
qed

lemma hangs_forever:
  assumes sl: "service_laws js ops view" and c: "call_waits c" "cf \<in> set (gc_results_fut c)"
    and st: "(served_step pb js ch ring ops cfg)\<^sup>*\<^sup>* s t"
    and r: "reach (served_start ring ops cfg h) (served_step pb js ch ring ops cfg) s" and hg: "hangs s i c n cf"
    and opn: "ig_open (ap_ingress (sd_process t))"
  shows "hangs t i c n cf"
  using st opn
proof (induction rule: rtranclp_induct)
  case base
  with hg show ?case by simp
next
  case (step t u)
  have ru: "reach (served_start ring ops cfg h) (served_step pb js ch ring ops cfg) t" by (rule reach_steps [OF r step(1)])
  have "ig_open (ap_ingress (sd_process t))"
    using step(2)
  proof (cases rule: served_step_cases)
    case (finishes i elapsed)
    then have "sd_process u = sd_process t" by (rule call_finish_spec) simp
    with step(4) show ?thesis by simp
  qed (use step(4) open_step in \<open>auto\<close>)
  from hangs_step [OF sl ru c step.IH [OF this] step(2,4)] show ?case by simp
qed

text \<open>
  C12: a call that hangs. When a command of a waiting call has been superseded before its own job was
  sent, the call never returns while the coordinator runs: in every later state, however the
  process goes on, it still waits and cannot finish. Only the end of the coordinator frees it.
\<close>

theorem superseded_call_hangs:
  assumes "service_laws js ops view"
    and "reach (served_start ring ops cfg h) (served_step pb js ch ring ops cfg) s"
    and "i < length (sd_calls s)" "call_waits (sd_calls s ! i)" "cf \<in> set (gc_results_fut (sd_calls s ! i))"
    and "stranded_in (unbound (ap_tasks (sd_process s))) n cf"
    and "(served_step pb js ch ring ops cfg)\<^sup>*\<^sup>* s t" and "ig_open (ap_ingress (sd_process t))"
  shows "sd_calls t ! i = sd_calls s ! i \<and> call_finish elapsed i t = None"
proof -
  have "hangs s i (sd_calls s ! i) n cf" using assms(3,6) by (simp add: hangs_def)
  from hangs_forever [OF assms(1,4,5,7,2) this assms(8)]
  have t: "i < length (sd_calls t)" "sd_calls t ! i = sd_calls s ! i"
    "stranded_in (unbound (ap_tasks (sd_process t))) n cf" by (simp_all add: hangs_def)
  have "one_shot (sd_process t) cf = None"
    by (rule stranded_unanswered [OF assms(1) reach_steps [OF assms(2,7)] t(3) assms(8)])
  with t(2) assms(5) show ?thesis by (auto simp: call_finish_def)
qed

section \<open>Three operators and one alarm\<close>

text \<open>
  A bypass, an activation and a bypass again, each handled before the job of the first is done.
  Then everything is worked off: the first and the third call can return, the second cannot.
\<close>

definition three_calls :: "served_event list" where
  "three_calls = [Call_Begins (Bypass_Request [''m:beam#epics''] ''op''), Call_Begins (Activate_Request [''m:beam#epics''] ''op2''),
     Call_Begins (Bypass_Request [''m:beam#epics''] ''op3''),
     Call_Sends 0, Process_Turn (Coordinator_Selects 1000), Process_Turn (Task_Turn Send_Job),
     Call_Sends 1, Process_Turn (Coordinator_Selects 1001), Call_Sends 2, Process_Turn (Coordinator_Selects 1002)]"

definition worked_off :: "served_event list" where
  "worked_off = map (Process_Turn \<circ> Task_Turn) [Take Workflow_Job, Send_Workflow, Take (Snooze_Turn near_clocks), Send_Snooze,
    Take Workflow_Snooze, Send_Workflow, Take Publish_Take, Take (Publish_Event (Attempt_Polled 0 1)),
    Take (Publish_Event (Attempt_Answered 0 True 2)), Send_Publish, Take Workflow_Publish, Send_Workflow] @
   [Process_Turn (Coordinator_Selects 1003), Process_Turn (Task_Turn Send_Job)] @
   map (Process_Turn \<circ> Task_Turn) [Take Workflow_Job, Send_Workflow, Take (Snooze_Turn near_clocks), Send_Snooze,
    Take Workflow_Snooze, Send_Workflow, Take Publish_Take, Take (Publish_Event (Attempt_Polled 0 3)),
    Take (Publish_Event (Attempt_Answered 0 True 4)), Send_Publish, Take Workflow_Publish, Send_Workflow] @
   [Process_Turn (Coordinator_Selects 1004), Call_Finishes 0 5, Call_Finishes 2 5]"

definition superseded_served :: "((alarm_key \<times> status) list, sample_queue, nat) served" where
  "superseded_served = the (sample_served three_calls (served_new sample_ring sample_delay tiny_config hm_new))"

definition idle_served :: "((alarm_key \<times> status) list, sample_queue, nat) served" where
  "idle_served = the (sample_served worked_off superseded_served)"

definition list_stranded :: "('q, 'h) service \<Rightarrow> u64 \<Rightarrow> confirmation \<Rightarrow> bool" where
  "list_stranded s n cf \<longleftrightarrow> hm_get (pending_confirmations (sv_coord s)) n = Some cf \<and>
     n \<notin> snd ` snd ` set (speculative_state (sv_coord s)) \<and> n \<notin> snd ` snd ` set (confirmed_state (sv_coord s)) \<and>
     n \<notin> job_id ` set (sv_job_q s) \<and> sv_workflow s = [] \<and> sv_outcome_q s = []"

lemma list_stranded: "list_stranded s n cf \<Longrightarrow> stranded_in s n cf"
  by (auto simp: list_stranded_def stranded_in_def pipe_jobs_def tracked_jobs_def hm_get_def image_iff
      dest!: map_of_SomeD)

lemma three_calls_evaluated:
  "case sample_served three_calls (served_new sample_ring sample_delay tiny_config hm_new) of
     None \<Rightarrow> False
   | Some s \<Rightarrow> length (sd_calls s) = 3 \<and> call_waits (sd_calls s ! 1) \<and> gc_results_fut (sd_calls s ! 1) = [1] \<and>
       list_stranded (unbound (ap_tasks (sd_process s))) 2 1 \<and>
       (case sample_served worked_off s of None \<Rightarrow> False
        | Some t \<Rightarrow> ig_open (ap_ingress (sd_process t)) \<and> ap_users (sd_process t) = [] \<and>
            map gc_answer (sd_calls t) = [Some (Inr ()), None, Some (Inr ())] \<and>
            speculative_state (sv_coord (b_service (ap_tasks (sd_process t)))) = [])"
  by code_simp

lemma superseded_served_ok:
  "sample_served three_calls (served_new sample_ring sample_delay tiny_config hm_new) = Some superseded_served"
  "sample_served worked_off superseded_served = Some idle_served"
  using three_calls_evaluated by (auto simp: superseded_served_def idle_served_def split: option.splits)

lemma superseded_facts:
  "length (sd_calls superseded_served) = 3" "call_waits (sd_calls superseded_served ! 1)"
  "gc_results_fut (sd_calls superseded_served ! 1) = [1]"
  "list_stranded (unbound (ap_tasks (sd_process superseded_served))) 2 1"
  "ig_open (ap_ingress (sd_process idle_served))" "ap_users (sd_process idle_served) = []"
  "map gc_answer (sd_calls idle_served) = [Some (Inr ()), None, Some (Inr ())]"
  using three_calls_evaluated by (simp_all add: superseded_served_ok)

lemma reach_superseded:
  "reach (served_start sample_ring sample_delay tiny_config hm_new)
     (served_step sample_proto sample_json sample_chrono sample_ring sample_delay tiny_config) superseded_served"
  by (rule reach_steps [OF reach_init served_events_steps [OF superseded_served_ok(1)]])
    (simp add: served_start_def served_new_def process_start_def tiny_config_def)

theorem superseded_call_hangs_witness:
  "call_finish 5 1 idle_served = None \<and> ap_users (sd_process idle_served) = [] \<and>
   map gc_answer (sd_calls idle_served) = [Some (Inr ()), None, Some (Inr ())]"
proof -
  have "1 < length (sd_calls superseded_served)" "1 \<in> set (gc_results_fut (sd_calls superseded_served ! 1))"
    unfolding superseded_facts(1,3) by simp_all
  from superseded_call_hangs [OF sample_service_laws reach_superseded this(1) superseded_facts(2) this(2)
      list_stranded [OF superseded_facts(4)] served_events_steps [OF superseded_served_ok(2)] superseded_facts(5)]
  show ?thesis using superseded_facts(6,7) by simp
qed

end
