(* ===== verification/Alarm_Ledger.thy ===== *)
theory Alarm_Ledger
  imports Alarm_Process
begin

text \<open>
  The abstract specification of the coordinator with its failures. The board of \<open>Alarm_Board\<close>
  says what the policy decides as long as no job of a user fails; the ledger also knows what is
  confirmed and which intent is the latest, and so follows the rollbacks (\<open>engine/coordinator.rs\<close>,
  \<open>reconcile_failure\<close>, \<open>converge_to_last_confirmed\<close>). It has no jobs, no confirmations and no
  speculative cache: a coordinator event is one function on it.
\<close>

section \<open>The ledger\<close>

record ledger =
  ld_counter :: u64
  ld_latest :: "alarm_key \<Rightarrow> (status \<times> u64) option"
  ld_confirmed :: "alarm_key \<Rightarrow> (status \<times> u64) option"

definition ledger_start :: "hydrated_statuses \<Rightarrow> ledger" where
  "ledger_start h = (let restored = (\<lambda>k. map_option (\<lambda>st. (st, DEFAULT_HYDRATED_ID)) (hm_get h k)) in
     \<lparr>ld_counter = INITIAL_PUBLISH_ID, ld_latest = restored, ld_confirmed = restored\<rparr>)"

definition ledger_record :: "alarm_key \<Rightarrow> status \<Rightarrow> ledger \<Rightarrow> ledger" where
  "ledger_record k st l = l\<lparr>ld_latest := (ld_latest l)(k \<mapsto> (st, ld_counter l)), ld_counter := ld_counter l + 1\<rparr>"

definition ledger_automated :: "proto \<Rightarrow> status \<Rightarrow> ledger \<Rightarrow> ledger" where
  "ledger_automated pb st l = (let k = key_from_status pb st in
     if should_publish pb (map_option fst (ld_latest l k)) k st then ledger_record k st l else l)"

definition ledger_user :: "proto \<Rightarrow> i64 \<Rightarrow> alarm_key \<Rightarrow> user_action \<Rightarrow> string \<Rightarrow> ledger \<Rightarrow> ledger" where
  "ledger_user pb now key action user l =
     (let (state, wake) = (case ld_latest l key of None \<Rightarrow> (Unknown, None) | Some (st, n) \<Rightarrow> (status_state pb st, st_wake st)) in
      if user_action_allowed state wake action then ledger_record key (build_user_status pb now key action user) l else l)"

fun ledger_message :: "proto \<Rightarrow> i64 \<Rightarrow> domain_input \<Rightarrow> ledger \<Rightarrow> ledger" where
  "ledger_message pb now (AutomatedUpdate st) l = ledger_automated pb st l"
| "ledger_message pb now (UserUpdate key action user cf) l = ledger_user pb now key action user l"
| "ledger_message pb now (SnapshotRequest x) l = l"

definition ledger_commit :: "job \<Rightarrow> ledger \<Rightarrow> ledger" where
  "ledger_commit j l = l\<lparr>ld_confirmed := (ld_confirmed l)(job_key j \<mapsto> (job_status j, job_id j))\<rparr>"

text \<open>A failed job of a user that is still the latest intent is taken back.\<close>

definition ledger_fail :: "proto \<Rightarrow> job \<Rightarrow> ledger \<Rightarrow> ledger" where
  "ledger_fail pb j l =
     (if map_option snd (ld_latest l (job_key j)) = Some (job_id j) \<and> job_user_initiated j then
        l\<lparr>ld_latest := (ld_latest l)(job_key j \<mapsto> (case ld_confirmed l (job_key j) of Some e \<Rightarrow> e
           | None \<Rightarrow> (default_status pb (job_key j), DEFAULT_HYDRATED_ID)))\<rparr>
      else l)"

fun ledger_event :: "proto \<Rightarrow> i64 \<Rightarrow> coord_event \<Rightarrow> ledger \<Rightarrow> ledger" where
  "ledger_event pb now (On_User m) l = ledger_message pb now m l"
| "ledger_event pb now (On_Automated m) l = ledger_message pb now m l"
| "ledger_event pb now (On_Outcome (Wake k)) l = ledger_automated pb (wake_status pb now k) l"
| "ledger_event pb now (On_Outcome (Committed j)) l = ledger_commit j l"
| "ledger_event pb now (On_Outcome (Failed j)) l = ledger_fail pb j l"
| "ledger_event pb now All_Dropped l = l"
| "ledger_event pb now Blocked l = l"

definition ledger_run :: "proto \<Rightarrow> (i64 \<times> coord_event) list \<Rightarrow> ledger \<Rightarrow> ledger" where
  "ledger_run pb handled = fold (\<lambda>(now, ev). ledger_event pb now ev) handled"

lemma ledger_run_simps [simp]:
  "ledger_run pb [] l = l"
  "ledger_run pb (handled @ [(now, ev)]) l = ledger_event pb now ev (ledger_run pb handled l)"
  by (simp_all add: ledger_run_def)

section \<open>The coordinator refines it\<close>

definition ledger_of :: "coordinator \<Rightarrow> ledger" where
  "ledger_of c = \<lparr>ld_counter = id_counter c,
     ld_latest = (\<lambda>k. case hm_get (speculative_state c) k of Some e \<Rightarrow> Some e | None \<Rightarrow> hm_get (confirmed_state c) k),
     ld_confirmed = hm_get (confirmed_state c)\<rparr>"

abbreviation ledger_in :: "cmachine \<Rightarrow> ledger" where
  "ledger_in m \<equiv> ledger_of (cm_coord m)"

lemma ledger_in_simps [simp]:
  "ld_counter (ledger_in m) = counter m"
  "ld_latest (ledger_in m) k = (case spec m k of Some e \<Rightarrow> Some e | None \<Rightarrow> conf m k)"
  "ld_confirmed (ledger_in m) = conf m"
  by (simp_all add: ledger_of_def)

lemma ledger_eqI:
  assumes "counter m = ld_counter l" "\<And>k. (case spec m k of Some e \<Rightarrow> Some e | None \<Rightarrow> conf m k) = ld_latest l k"
    and "conf m = ld_confirmed l"
  shows "ledger_in m = l"
proof -
  have "ld_latest (ledger_in m) = ld_latest l" using assms(2) by (simp add: fun_eq_iff)
  with assms(1,3) show ?thesis by (cases l) (simp add: ledger_of_def)
qed

lemma latest_ledger: "get_latest_status (cm_coord m) k = map_option fst (ld_latest (ledger_in m) k)"
  by (simp add: get_latest_status_def)

lemma ledger_of_record: "ledger_in (record_intent k st cf m) = ledger_record k st (ledger_in m)"
  by (rule ledger_eqI) (auto simp: ledger_record_def split: option.split)

lemma ledger_of_answer: "ledger_in (answer_with as m) = ledger_in m"
  by (simp add: answer_with_def)

lemma ledger_of_automated: "ledger_in (automated_result pb st m) = ledger_automated pb st (ledger_in m)"
  by (simp add: automated_result_def ledger_automated_def ledger_of_record latest_ledger Let_def del: ledger_in_simps)

lemma ledger_of_user: "ledger_in (user_result pb now k action user cf m) = ledger_user pb now k action user (ledger_in m)"
proof (cases "ld_latest (ledger_in m) k")
  case None
  then show ?thesis
    by (simp add: user_result_def ledger_user_def latest_state_def latest_wake_def latest_ledger ledger_of_record
        ledger_of_answer del: ledger_in_simps)
next
  case (Some e)
  then show ?thesis
    by (cases e) (simp add: user_result_def ledger_user_def latest_state_def latest_wake_def latest_ledger ledger_of_record
        ledger_of_answer del: ledger_in_simps)
qed

lemma ledger_of_committed:
  assumes inv: "cm_inv pb m" and j: "j \<in> set (cm_jobs m)"
  shows "ledger_in (cm_next pb now (On_Outcome (Committed j)) m) = ledger_commit j (ledger_in m)"
proof -
  have run: "cm_running m" using inv by (simp add: cm_inv_def)
  obtain st n where sp: "spec m (job_key j) = Some (st, n)" "n = job_id j \<longrightarrow> st = job_status j"
    by (rule flight_spec [OF inv j])
  show ?thesis
    by (rule ledger_eqI) (use sp in \<open>auto simp: cm_next_committed [OF run] ledger_commit_def split: option.splits\<close>)
qed

lemma ledger_of_failed:
  assumes inv: "cm_inv pb m" and j: "j \<in> set (cm_jobs m)"
  shows "ledger_in (cm_next pb now (On_Outcome (Failed j)) m) = ledger_fail pb j (ledger_in m)"
proof -
  have run: "cm_running m" using inv by (simp add: cm_inv_def)
  obtain st n where sp: "spec m (job_key j) = Some (st, n)" by (rule flight_spec [OF inv j])
  show ?thesis
    by (rule ledger_eqI) (use sp in \<open>auto simp: cm_next_failed [OF run sp] ledger_fail_def rollback_entry_def
      default_status_def split: option.splits\<close>)
qed

lemma ledger_next:
  assumes inv: "cm_inv pb m" and en: "cm_enabled ev m"
  shows "ledger_in (cm_next pb now ev m) = ledger_event pb now ev (ledger_in m)"
proof -
  have run: "cm_running m" using inv by (simp add: cm_inv_def)
  have message: "ledger_in (cm_next pb now (On_User msg) m) = ledger_message pb now msg (ledger_in m)"
    "ledger_in (cm_next pb now (On_Automated msg) m) = ledger_message pb now msg (ledger_in m)" for msg
    by (cases msg; simp add: cm_next_user [OF run] cm_next_automated [OF run] cm_next_snapshot [OF run]
        ledger_of_automated ledger_of_user)+
  show ?thesis
  proof (cases ev)
    case (On_Outcome r)
    with en show ?thesis
      by (cases r) (simp_all add: ledger_of_committed [OF inv] ledger_of_failed [OF inv] ledger_of_automated
          cm_next_automated [OF run])
  qed (use en in \<open>simp_all add: message cm_next_snapshot [OF run]\<close>)
qed

text \<open>
  C13: the coordinator is the ledger. In every reachable state, whatever is in flight, every event
  changes what the two caches and the counter say as the ledger's function does: a message is
  decided on the latest intent, a commit confirms, and the failure of a job of a user takes the
  intent back to what is confirmed exactly if the job is still the latest intent.
\<close>

theorem coordinator_refines_ledger:
  assumes "reach cm_start (cm_step pb) s" and "cm_enabled ev s"
  shows "ledger_of (cm_coord (cm_next pb now ev s)) = ledger_event pb now ev (ledger_of (cm_coord s))"
  by (rule ledger_next [OF reach_cm_inv [OF assms(1)] assms(2)])

section \<open>The process refines it\<close>

lemma ledger_of_new: "hm_wf h \<Longrightarrow> ledger_of (coordinator_new h) = ledger_start h"
  by (simp add: ledger_of_def ledger_start_def Let_def coordinator_new_confirmed INITIAL_PUBLISH_ID_def fun_eq_iff)

lemma ledger_kept:
  assumes sl: "service_laws js ops view"
    and r: "reach (process_start ring ops cfg h) (process_step pb js ch ring ops cfg) p"
  shows "ledger_of (sv_coord (b_service (ap_tasks p))) = ledger_run pb (ap_handled p) (ledger_start h)"
  using r
proof (induction rule: reach.induct)
  case (reach_init p)
  then show ?case
    by (simp add: process_start_def process_new_def bounded_start_state_def runtime_start_def ledger_of_new)
next
  case (reach_step p p')
  from reach_step(2) show ?case
  proof (cases rule: process_step_cases)
    case (select now)
    from select(3) obtain ev where t: "bounded_take pb js ch ops (Coordinator_Turn now ev) (ap_tasks p) = Some (ap_tasks p')"
      and h: "ap_handled p' = ap_handled p @ [(now, ev)]"
      by (rule select_spec) auto
    note nxt = take_simulates [OF t]
    from reach_service_rel [OF sl reach_bounded_service [OF reach_tasks [OF reach_step(1)]]] obtain m where
      m: "cm_inv pb m" "pipe_ok view (unbound (ap_tasks p))" "simulates (unbound (ap_tasks p)) m" by auto
    have "simulates (unbound (ap_tasks p')) (cm_next pb now ev m)"
      using coord_turn_ok [OF m(2,3) _ nxt] select(1) by simp
    then have "sv_coord (b_service (ap_tasks p')) = cm_coord (cm_next pb now ev m)"
      "sv_coord (b_service (ap_tasks p)) = cm_coord m"
      using m(3) by (simp_all add: simulates_def)
    with ledger_next [OF m(1) coord_enabled [OF m(3) nxt], of now] h reach_step.IH show ?thesis by simp
  next
    case (task ev b)
    with bounded_task_keeps [OF task(3,4)] reach_step.IH show ?thesis by simp
  qed (use reach_step.IH in \<open>simp_all add: process_user_eq\<close>)
qed

lemma idle_speculative:
  assumes "service_laws js ops view"
    and "reach (process_start ring ops cfg h) (process_step pb js ch ring ops cfg) p"
    and "\<forall>j\<in>#pipe_jobs (unbound (ap_tasks p)). job_key j \<noteq> k"
  shows "hm_get (speculative_state (sv_coord (b_service (ap_tasks p)))) k = None"
proof -
  from reach_service_rel [OF assms(1) reach_bounded_service [OF reach_tasks [OF assms(2)]]] obtain m where
    "cm_inv pb m" "simulates (unbound (ap_tasks p)) m" by auto
  with assms(3) show ?thesis by (simp add: simulates_def cm_inv_def inv_flight_def flip: set_mset_mset)
qed

text \<open>
  C5: the topic shows the ledger, failures included. When no job of an alarm is in the service, the
  last status of the alarm on the topic (or, if there is none, the one restored at startup) is the
  latest intent that the ledger has after the events the coordinator has handled, one after the
  other, rollbacks of failed commands included. Nothing else of the queues, retries, timers and
  interleavings shows.
\<close>

theorem topic_shows_ledger:
  assumes "service_laws js ops view"
    and "reach (process_start ring ops cfg h) (process_step pb js ch ring ops cfg) p"
    and "\<forall>j\<in>#pipe_jobs (unbound (ap_tasks p)). job_key j \<noteq> k"
  shows "(case last_on (ap_topic p) k of Some st \<Rightarrow> Some st | None \<Rightarrow> hm_get h k) =
    map_option fst (ld_latest (ledger_run pb (ap_handled p) (ledger_start h)) k)"
proof -
  let ?c = "sv_coord (b_service (ap_tasks p))"
  have "ld_latest (ledger_of ?c) k = hm_get (confirmed_state ?c) k"
    using idle_speculative [OF assms] by (simp add: ledger_of_def)
  with confirmed_without_job [OF assms(1) reach_seen [OF assms(2)], of k] ledger_kept [OF assms(1,2)] assms(3)
  show ?thesis by (simp add: seen_def)
qed

section \<open>A command that fails\<close>

text \<open>A bypass is on the topic; an activation is refused by the publisher twice and rolled back.\<close>

definition delivered :: "bool list \<Rightarrow> service_event list \<Rightarrow> process_event list" where
  "delivered answers flush = map Task_Turn ([Send_Job, Take Workflow_Job, Send_Workflow, Take (Snooze_Turn near_clocks), Send_Snooze,
     Take Workflow_Snooze, Send_Workflow, Take Publish_Take] @
     List.concat (map (\<lambda>a. [Take (Publish_Event (Attempt_Polled 0 1)), Take (Publish_Event (Attempt_Answered 0 a 2))]) answers) @
     map Take flush @ [Send_Publish, Take Workflow_Publish, Send_Workflow])"

definition failing_run :: "process_event list" where
  "failing_run =
     [User_Message (UserUpdate sample_epics_key (Bypass None) ''op'' 7), Coordinator_Selects 1000] @ delivered [True] [] @
     [Coordinator_Selects 1002, User_Message (UserUpdate sample_epics_key Activate ''op'' 8), Coordinator_Selects 1003] @
     delivered [False, False] [] @ [Coordinator_Selects 1004] @ delivered [True] [Publish_Event Flush_Tick] @ [Coordinator_Selects 1005]"

definition restored_process :: "((alarm_key \<times> status) list, sample_queue, nat) alarms_process" where
  "restored_process = the (process_events sample_proto sample_json sample_chrono sample_ring sample_delay tiny_config failing_run
     (process_new sample_ring sample_delay tiny_config hm_new))"

lemma failing_run_evaluated:
  "case process_events sample_proto sample_json sample_chrono sample_ring sample_delay tiny_config failing_run
     (process_new sample_ring sample_delay tiny_config hm_new) of None \<Rightarrow> False
   | Some p \<Rightarrow> sv_job_q (unbound (ap_tasks p)) = [] \<and> sv_workflow (unbound (ap_tasks p)) = [] \<and>
       sv_outcome_q (unbound (ap_tasks p)) = [] \<and> list_ex (\<lambda>(now, ev). user_failure sample_epics_key ev) (ap_handled p) \<and>
       ap_topic p = [(sample_epics_key, beam_bypass), (sample_epics_key, beam_bypass)] \<and>
       sv_answers (b_service (ap_tasks p)) = [(7, Inr ()), (8, Inl (Internal sample_epics_key))]"
  by code_simp

lemma restored_process_ok:
  "process_events sample_proto sample_json sample_chrono sample_ring sample_delay tiny_config failing_run
     (process_new sample_ring sample_delay tiny_config hm_new) = Some restored_process"
  using failing_run_evaluated by (auto simp: restored_process_def split: option.splits)

lemma restored_process_facts:
  "pipe_jobs (unbound (ap_tasks restored_process)) = {#}"
  "list_ex (\<lambda>(now, ev). user_failure sample_epics_key ev) (ap_handled restored_process)"
  "ap_topic restored_process = [(sample_epics_key, beam_bypass), (sample_epics_key, beam_bypass)]"
  using failing_run_evaluated by (simp_all add: restored_process_ok pipe_jobs_def tracked_jobs_def)

lemma reach_restored_process:
  "reach (process_start sample_ring sample_delay tiny_config hm_new)
     (process_step sample_proto sample_json sample_chrono sample_ring sample_delay tiny_config) restored_process"
  by (rule reach_steps [OF reach_init process_events_steps [OF restored_process_ok]])
    (simp add: process_start_def tiny_config_def)

theorem topic_shows_ledger_witness:
  "map_option fst (ld_latest (ledger_run sample_proto (ap_handled restored_process) (ledger_start hm_new)) sample_epics_key) =
     Some beam_bypass \<and> list_ex (\<lambda>(now, ev). user_failure sample_epics_key ev) (ap_handled restored_process)"
proof -
  have "\<forall>j\<in>#pipe_jobs (unbound (ap_tasks restored_process)). job_key j \<noteq> sample_epics_key"
    by (simp add: restored_process_facts(1))
  from topic_shows_ledger [OF sample_service_laws reach_restored_process this] restored_process_facts(2,3) show ?thesis
    by (simp add: last_on_def)
qed

theorem coordinator_refines_ledger_witness:
  "ld_latest (ledger_of (cm_coord (cm_next sample_proto 500 (On_User (UserUpdate demo_key Activate ''op'' 8)) demo_run)))
     demo_key = Some (build_user_status sample_proto 500 demo_key Activate ''op'', counter demo_run)"
proof -
  have "map_option fst (ld_latest (ledger_in demo_run) demo_key) = Some demo_status"
    by (simp add: latest_ledger [symmetric] get_latest_status_def del: ledger_in_simps)
  then obtain n where latest: "ld_latest (ledger_in demo_run) demo_key = Some (demo_status, n)" by auto
  have "status_state sample_proto demo_status = Bypassed"
    by (simp add: demo_status_def build_user_status_def status_state_def sample_proto_ok)
  with coordinator_refines_ledger [OF reach_demo, of "On_User (UserUpdate demo_key Activate ''op'' 8)" 500] latest
  show ?thesis by (simp add: ledger_user_def ledger_record_def del: ledger_in_simps(2))
qed

end
