(* ===== verification/Alarm_Compaction.thy ===== *)
theory Alarm_Compaction
  imports Alarm_Hydration
begin

text \<open>
  The EPICS topic under log compaction (\<open>adapters/epics_hydration.rs\<close>). The snapshot that
  the hydration reads may have been compacted by the broker at any time: records with a key may
  be gone when a later record has the same key. The reduction does not notice, as long as the
  records of EPICS alarms can be read; an unreadable record makes it depend on the compaction.
\<close>

section \<open>Compaction\<close>

text \<open>Some records are gone, each superseded by a later one with the same text as its key.\<close>

inductive compacted :: "string_message list \<Rightarrow> string_message list \<Rightarrow> bool" where
  compacted_nil: "compacted [] []"
| compacted_keep: "compacted rs cs \<Longrightarrow> compacted (r # rs) (r # cs)"
| compacted_drop: "compacted rs cs \<Longrightarrow> msg_key r = Some t \<Longrightarrow> Some t \<in> msg_key ` set rs \<Longrightarrow> compacted (r # rs) cs"

text \<open>Compaction taken as far as it goes.\<close>

fun compact :: "string_message list \<Rightarrow> string_message list" where
  "compact [] = []"
| "compact (r # rs) = (if msg_key r \<noteq> None \<and> msg_key r \<in> msg_key ` set rs then compact rs else r # compact rs)"

lemma compact_compacted: "compacted rs (compact rs)"
  by (induction rs) (auto intro: compacted.intros)

text \<open>A record that names an EPICS alarm can be read: it says something about its alarm.\<close>

definition names_epics :: "string_message \<Rightarrow> alarm_key \<Rightarrow> bool" where
  "names_epics r k \<longleftrightarrow> (\<exists>t. msg_key r = Some t \<and> key_try_from t = Inr k \<and> key_source k = Epics)"

definition readable :: "proto \<Rightarrow> deserializer \<Rightarrow> string_message \<Rightarrow> bool" where
  "readable pb from_json r \<longleftrightarrow> record_verdict pb from_json r \<noteq> None"

lemma verdict_names: "record_verdict pb from_json r = Some (k, v) \<Longrightarrow> names_epics r k"
  by (auto simp: record_verdict_def names_epics_def split: option.splits sum.splits if_splits)

lemma last_verdict_None: "last_verdict f rs = None \<longleftrightarrow> (\<forall>r\<in>set rs. f r = None)"
  by (induction rs) (auto split: option.splits)

lemma superseded_verdict:
  assumes all: "\<forall>r\<in>set rs. \<forall>k. names_epics r k \<longrightarrow> readable pb from_json r"
    and v: "verdict_on pb from_json k r = Some v" and t: "msg_key r = Some t" "Some t \<in> msg_key ` set rs"
  shows "last_verdict (verdict_on pb from_json k) rs \<noteq> None"
proof -
  have "record_verdict pb from_json r = Some (k, v)"
    using v by (auto simp: verdict_on_def split: option.splits if_splits)
  from verdict_names [OF this] have k: "key_try_from t = Inr k" "key_source k = Epics" using t(1) by (simp_all add: names_epics_def)
  from t(2) obtain r' where r': "r' \<in> set rs" "msg_key r' = Some t" by force
  with k have "names_epics r' k" by (simp add: names_epics_def)
  with all r'(1) obtain k' v' where w: "record_verdict pb from_json r' = Some (k', v')" by (fastforce simp: readable_def)
  from verdict_names [OF this] k(1) r'(2) have "k' = k" by (simp add: names_epics_def)
  with w have "verdict_on pb from_json k r' = Some v'" by (simp add: verdict_on_def)
  with r'(1) show ?thesis by (auto simp: last_verdict_None)
qed

lemma compacted_verdict:
  "compacted rs cs \<Longrightarrow> \<forall>r\<in>set rs. \<forall>k. names_epics r k \<longrightarrow> readable pb from_json r \<Longrightarrow>
     last_verdict (verdict_on pb from_json k) cs = last_verdict (verdict_on pb from_json k) rs"
proof (induction rule: compacted.induct)
  case (compacted_drop rs cs r t)
  have "last_verdict (verdict_on pb from_json k) rs \<noteq> None" if "verdict_on pb from_json k r = Some v" for v
    using superseded_verdict [OF _ that compacted_drop.hyps(2,3)] compacted_drop.prems by simp
  with compacted_drop show ?case by (cases "verdict_on pb from_json k r") (auto split: option.split)
qed auto

text \<open>
  C30: compaction of the topic does not change what a start restores. If every record that names an
  EPICS alarm has a tombstone or a readable EPICS status as its value, then from any compacted topic
  the same bypasses are reduced as from the complete one, also when the broker has kept records of
  one alarm under keys of different spelling.
\<close>

theorem compaction_harmless:
  assumes "compacted records remaining"
    and "\<forall>r\<in>set records. \<forall>k. names_epics r k \<longrightarrow> readable pb from_json r"
  shows "hm_get (reduce_snapshot pb from_json remaining) k = hm_get (reduce_snapshot pb from_json records) k"
  using compacted_verdict [OF assms] by (simp add: reduce_snapshot_get)

text \<open>
  Unreadable records do matter. The reduction skips them, so an older bypass survives when it is
  still there, and is gone once the topic has been compacted.
\<close>

theorem compaction_unreadable:
  assumes r: "record_verdict pb from_json r = Some (k, Some st)"
    and bad: "names_epics r' k" "msg_key r' = msg_key r" "\<not> readable pb from_json r'"
  shows "hm_get (reduce_snapshot pb from_json [r, r']) k = Some st \<and>
    hm_get (reduce_snapshot pb from_json (compact [r, r'])) k = None"
proof -
  have "record_verdict pb from_json r' = None" using bad(3) unfolding readable_def by blast
  then have "verdict_on pb from_json k r = Some (Some st)" "verdict_on pb from_json k r' = None"
    using r by (simp_all add: verdict_on_def)
  moreover have "compact [r, r'] = [r']" using bad(1,2) by (auto simp: names_epics_def)
  ultimately show ?thesis by (simp add: reduce_snapshot_get)
qed

section \<open>Witnesses\<close>

text \<open>Two spellings of a key, and a tombstone under one of them.\<close>

definition spelled_records :: "string_message list" where
  "spelled_records = [\<lparr>msg_key = Some ''M:BEAM#Epics'', msg_body = []\<rparr>, \<lparr>msg_key = Some ''m:beam#epics'', msg_body = ''alarm''\<rparr>,
     \<lparr>msg_key = Some ''M:BEAM#Epics'', msg_body = ''bypass''\<rparr>]"

lemma spelled_evaluated:
  "list_all (readable sample_proto sample_parse) spelled_records \<and> map msg_body (compact spelled_records) = [''alarm'', ''bypass''] \<and>
   hm_get (reduce_snapshot sample_proto sample_parse spelled_records) sample_epics_key =
     Some (sample_status ''M:BEAM'' Bypassed Low Epics)"
  unfolding readable_def by code_simp

theorem compaction_harmless_witness:
  "hm_get (reduce_snapshot sample_proto sample_parse (compact spelled_records)) sample_epics_key =
     Some (sample_status ''M:BEAM'' Bypassed Low Epics) \<and> length (compact spelled_records) = 2"
proof -
  have "\<forall>r\<in>set spelled_records. \<forall>k. names_epics r k \<longrightarrow> readable sample_proto sample_parse r"
    using spelled_evaluated by (simp add: list_all_iff)
  from compaction_harmless [OF compact_compacted this, of sample_epics_key] spelled_evaluated
  have "hm_get (reduce_snapshot sample_proto sample_parse (compact spelled_records)) sample_epics_key =
     Some (sample_status ''M:BEAM'' Bypassed Low Epics)" by simp
  moreover have "length (map msg_body (compact spelled_records)) = 2" using spelled_evaluated by simp
  ultimately show ?thesis by simp
qed

theorem compaction_unreadable_witness:
  "hm_get (reduce_snapshot sample_proto sample_parse (compact [\<lparr>msg_key = Some ''M:BEAM#Epics'', msg_body = ''bypass''\<rparr>,
     \<lparr>msg_key = Some ''M:BEAM#Epics'', msg_body = ''broken''\<rparr>])) sample_epics_key = None"
proof -
  let ?r = "\<lparr>msg_key = Some ''M:BEAM#Epics'', msg_body = ''bypass''\<rparr>" and ?b = "\<lparr>msg_key = Some ''M:BEAM#Epics'', msg_body = ''broken''\<rparr>"
  have "record_verdict sample_proto sample_parse ?r = Some (sample_epics_key, Some (sample_status ''M:BEAM'' Bypassed Low Epics))"
    "record_verdict sample_proto sample_parse ?b = None"
    "key_try_from ''M:BEAM#Epics'' = Inr sample_epics_key" "key_source sample_epics_key = Epics"
    by code_simp+
  then show ?thesis using compaction_unreadable [of sample_proto sample_parse ?r sample_epics_key _ ?b]
    by (simp add: names_epics_def readable_def)
qed

end
