(* ===== verification/Alarm_Deadlocks.thy ===== *)
theory Alarm_Deadlocks
  imports Alarm_Process
begin

text \<open>
  The other cycles of bounded channels (\<open>runtime.rs\<close>): the workflow handler and an effect task,
  the snooze scheduler or the publish engine, each wait for room in the channel that the other
  reads. \<open>Alarm_Backpressure\<close> has the cycle of the coordinator and the workflow handler,
  \<open>Alarm_Progress\<close> the bound on the alarms below which no task waits for good.
\<close>

section \<open>A cycle with an effect task\<close>

definition effect_deadlocked :: "queue_capacity_config \<Rightarrow> ('q, 'h) bounded \<Rightarrow> bool" where
  "effect_deadlocked cfg b \<longleftrightarrow>
     (case b_workflow_out b of
        To_Snooze i # es \<Rightarrow> \<not> room (cap_snooze cfg) (sv_snooze_q (b_service b)) \<and>
          b_snooze_out b \<noteq> [] \<and> \<not> room (cap_snooze cfg) (sv_snooze_out (b_service b))
      | To_Publish p # es \<Rightarrow> \<not> room (cap_publish cfg) (sv_publish_q (b_service b)) \<and>
          b_publish_out b \<noteq> [] \<and> \<not> room (cap_publish cfg) (sv_publish_out (b_service b))
      | _ \<Rightarrow> False)"

text \<open>What stands still: the workflow handler, what it waits to send, and the effect task.\<close>

definition kept_still :: "('q, 'h) bounded \<Rightarrow> ('q, 'h) bounded \<Rightarrow> bool" where
  "kept_still b b' \<longleftrightarrow> b_workflow_out b' = b_workflow_out b \<and> sv_workflow (b_service b') = sv_workflow (b_service b) \<and>
     (\<exists>taken. sv_outcome_q (b_service b) = taken @ sv_outcome_q (b_service b')) \<and>
     (case b_workflow_out b of
        To_Snooze i # es \<Rightarrow> sv_snooze (b_service b') = sv_snooze (b_service b)
      | To_Publish p # es \<Rightarrow> sv_publish (b_service b') = sv_publish (b_service b)
      | _ \<Rightarrow> True)"

lemma kept_refl: "kept_still b b"
  by (auto simp: kept_still_def split: list.split workflow_effect.split)

lemma kept_trans: "kept_still a b \<Longrightarrow> kept_still b c \<Longrightarrow> kept_still a c"
  by (fastforce simp: kept_still_def split: list.splits workflow_effect.splits)

lemma coord_take_parts:
  assumes "bounded_take pb js ch ops (Coordinator_Turn now ev) b = Some b'"
  shows "b_workflow_out b' = b_workflow_out b \<and> b_snooze_out b' = b_snooze_out b \<and> b_publish_out b' = b_publish_out b \<and>
    sv_workflow (b_service b') = sv_workflow (b_service b) \<and> sv_snooze (b_service b') = sv_snooze (b_service b) \<and>
    sv_publish (b_service b') = sv_publish (b_service b) \<and> sv_snooze_q (b_service b') = sv_snooze_q (b_service b) \<and>
    sv_snooze_out (b_service b') = sv_snooze_out (b_service b) \<and> sv_publish_q (b_service b') = sv_publish_q (b_service b) \<and>
    sv_publish_out (b_service b') = sv_publish_out (b_service b) \<and>
    (\<exists>taken. sv_outcome_q (b_service b) = taken @ sv_outcome_q (b_service b'))"
proof -
  from assms obtain s1 where s1: "coord_takes ev (b_service b) = Some s1"
    and b': "b' = take_coord (coord_turn pb now True (sv_coord (b_service b)) ev) s1 b"
    by (auto simp: Let_def split: if_splits)
  obtain c es r where t: "coord_turn pb now True (sv_coord (b_service b)) ev = (c, es, r)" by (metis prod_cases3)
  from s1 consider "s1 = b_service b"
    | r' q where "s1 = (b_service b)\<lparr>sv_outcome_q := q\<rparr>" "sv_outcome_q (b_service b) = [r'] @ q"
    by (cases ev) (auto split: list.splits if_splits)
  then show ?thesis
  proof cases
    case 1
    then show ?thesis by (simp add: b' t take_coord_def)
  next
    case 2
    then show ?thesis by (simp add: b' t take_coord_def)
  qed
qed

lemma snooze_deadlock_step:
  assumes "b_workflow_out b = To_Snooze i # es" and "effect_deadlocked cfg b"
    and nxt: "bounded_next pb js ch ops cfg ev b = Some b'"
  shows "effect_deadlocked cfg b' \<and> kept_still b b'"
proof (cases "\<exists>now cev. ev = Take (Coordinator_Turn now cev)")
  case True
  with nxt obtain now cev where "bounded_take pb js ch ops (Coordinator_Turn now cev) b = Some b'" by auto
  from coord_take_parts [OF this] assms(1,2) show ?thesis by (simp add: effect_deadlocked_def kept_still_def)
next
  case other: False
  show ?thesis
  proof (cases ev)
    case (Take te)
    with other nxt assms(1,2) show ?thesis
      by (cases te) (auto simp: effect_deadlocked_def kept_still_def Let_def take_publish_def
          simp del: publish_turn.simps split: list.splits if_splits option.splits publish_event.splits)
  qed (use assms in \<open>auto simp: effect_deadlocked_def kept_still_def Let_def split: list.splits if_splits\<close>)
qed

lemma publish_deadlock_step:
  assumes "b_workflow_out b = To_Publish p # es" and "effect_deadlocked cfg b"
    and nxt: "bounded_next pb js ch ops cfg ev b = Some b'"
  shows "effect_deadlocked cfg b' \<and> kept_still b b'"
proof (cases "\<exists>now cev. ev = Take (Coordinator_Turn now cev)")
  case True
  with nxt obtain now cev where "bounded_take pb js ch ops (Coordinator_Turn now cev) b = Some b'" by auto
  from coord_take_parts [OF this] assms(1,2) show ?thesis by (simp add: effect_deadlocked_def kept_still_def)
next
  case other: False
  show ?thesis
  proof (cases ev)
    case (Take te)
    with other nxt assms(1,2) show ?thesis
      by (cases te) (auto simp: effect_deadlocked_def kept_still_def Let_def take_snooze_def
          split: list.splits if_splits option.splits publish_event.splits)
  qed (use assms in \<open>auto simp: effect_deadlocked_def kept_still_def Let_def split: list.splits if_splits\<close>)
qed

lemma effect_deadlock_step:
  assumes "effect_deadlocked cfg b" and "bounded_next pb js ch ops cfg ev b = Some b'"
  shows "effect_deadlocked cfg b' \<and> kept_still b b'"
  using assms(1) snooze_deadlock_step [OF _ assms] publish_deadlock_step [OF _ assms]
  by (auto simp: effect_deadlocked_def split: list.splits workflow_effect.splits)

lemma effect_deadlock_steps:
  "(bounded_step pb js ch ops cfg)\<^sup>*\<^sup>* b b' \<Longrightarrow> effect_deadlocked cfg b \<Longrightarrow> effect_deadlocked cfg b' \<and> kept_still b b'"
proof (induction rule: rtranclp_induct)
  case (step b' b'')
  from step(2) obtain ev where "bounded_next pb js ch ops cfg ev b' = Some b''" by (auto elim: bounded_stepE)
  from effect_deadlock_step [OF _ this] step(3,4) kept_trans show ?case by blast
qed (simp add: kept_refl)

text \<open>
  C25: two more deadlocks of the bounded channels are permanent. When the workflow handler waits for
  room in the full channel to the snooze scheduler or the publish engine while that task waits for
  room in the full channel back, both wait in every later state: neither can send, no timer fires or
  nothing is delivered any more, and the coordinator hears of no outcome but those already queued.
\<close>

theorem effect_deadlock_forever:
  assumes "effect_deadlocked cfg b" and "(bounded_step pb js ch ops cfg)\<^sup>*\<^sup>* b b'"
  shows "effect_deadlocked cfg b' \<and> bounded_next pb js ch ops cfg Send_Workflow b' = None \<and>
    sv_workflow (b_service b') = sv_workflow (b_service b) \<and>
    (sv_snooze (b_service b') = sv_snooze (b_service b) \<and> bounded_next pb js ch ops cfg Send_Snooze b' = None \<or>
     sv_publish (b_service b') = sv_publish (b_service b) \<and> bounded_next pb js ch ops cfg Send_Publish b' = None) \<and>
    (\<exists>taken. sv_outcome_q (b_service b) = taken @ sv_outcome_q (b_service b'))"
proof -
  from effect_deadlock_steps [OF assms(2,1)] have d: "effect_deadlocked cfg b'" and k: "kept_still b b'" by blast+
  from d k show ?thesis
    by (auto simp: effect_deadlocked_def kept_still_def Let_def split: list.splits workflow_effect.splits)
qed

section \<open>Runs into the deadlocks\<close>

text \<open>The handler takes a job for the alarm with this name: an update, or a snooze by a user.\<close>

definition snooze_command :: "string \<Rightarrow> bounded_event" where
  "snooze_command d = Take (Coordinator_Turn 1000 (On_User (UserUpdate \<lparr>key_device = d, key_source = Epics\<rparr>
     (Bypass (Some (sample_wake 1060))) ''op'' 7)))"

definition scheduled :: "bounded_event list" where
  "scheduled = [Take (Snooze_Turn near_clocks), Send_Snooze, Take Workflow_Snooze, Send_Workflow]"

text \<open>
  Channels of one place to the scheduler: two snoozed alarms, then jobs for two more, of which the
  second waits for the channel; then both timers expire.
\<close>

definition snooze_config :: queue_capacity_config where
  "snooze_config = small_config\<lparr>cap_job := 8, cap_snooze := 1\<rparr>"

definition snooze_jam_run :: "bounded_event list" where
  "snooze_jam_run =
     [snooze_command ''A'', Send_Job, Take Workflow_Job, Send_Workflow] @ scheduled @
     [snooze_command ''B'', Send_Job, Take Workflow_Job, Send_Workflow] @ scheduled @
     [alarm_update ''C'', Send_Job, Take Workflow_Job, Send_Workflow, alarm_update ''D'', Send_Job, Take Workflow_Job,
      Take (Timer_Poll 20), Send_Snooze, Take (Timer_Poll 20)]"

text \<open>
  Channels of one place to the publisher: two commands being published, then jobs for two more
  alarms, of which the second waits for the channel; then both are answered.
\<close>

definition publish_config :: queue_capacity_config where
  "publish_config = small_config\<lparr>cap_job := 8, cap_publish := 1\<rparr>"

definition publish_jam_run :: "bounded_event list" where
  "publish_jam_run =
     [snooze_command ''A'', Send_Job, Take Workflow_Job, Send_Workflow] @ scheduled @ [Take Publish_Take] @
     [snooze_command ''B'', Send_Job, Take Workflow_Job, Send_Workflow] @ scheduled @ [Take Publish_Take] @
     [alarm_update ''C'', Send_Job, Take Workflow_Job, Send_Workflow] @ scheduled @
     [alarm_update ''D'', Send_Job, Take Workflow_Job, Send_Workflow,
      Take (Snooze_Turn near_clocks), Send_Snooze, Take Workflow_Snooze,
      Take (Publish_Event (Attempt_Polled 0 1)), Take (Publish_Event (Attempt_Polled 1 1)),
      Take (Publish_Event (Attempt_Answered 0 True 2)), Send_Publish, Take (Publish_Event (Attempt_Answered 0 True 3))]"

definition snooze_jam :: "(sample_queue, nat) bounded" where
  "snooze_jam = the (bounded_events sample_proto sample_json sample_chrono sample_delay snooze_config snooze_jam_run
     (bounded_start_state sample_delay hm_new))"

definition publish_jam :: "(sample_queue, nat) bounded" where
  "publish_jam = the (bounded_events sample_proto sample_json sample_chrono sample_delay publish_config publish_jam_run
     (bounded_start_state sample_delay hm_new))"

lemma snooze_jam_evaluated:
  "case bounded_events sample_proto sample_json sample_chrono sample_delay snooze_config snooze_jam_run
     (bounded_start_state sample_delay hm_new) of
     None \<Rightarrow> False | Some b \<Rightarrow> effect_deadlocked snooze_config b"
  by code_simp

lemma publish_jam_evaluated:
  "case bounded_events sample_proto sample_json sample_chrono sample_delay publish_config publish_jam_run
     (bounded_start_state sample_delay hm_new) of
     None \<Rightarrow> False | Some b \<Rightarrow> effect_deadlocked publish_config b"
  by code_simp

lemma jams_ok:
  "bounded_events sample_proto sample_json sample_chrono sample_delay snooze_config snooze_jam_run
     (bounded_start_state sample_delay hm_new) = Some snooze_jam" "effect_deadlocked snooze_config snooze_jam"
  "bounded_events sample_proto sample_json sample_chrono sample_delay publish_config publish_jam_run
     (bounded_start_state sample_delay hm_new) = Some publish_jam" "effect_deadlocked publish_config publish_jam"
  using snooze_jam_evaluated publish_jam_evaluated
  by (auto simp: snooze_jam_def publish_jam_def split: option.splits)

lemma reach_jams:
  "reach (bounded_start sample_delay) (bounded_step sample_proto sample_json sample_chrono sample_delay snooze_config) snooze_jam"
  "reach (bounded_start sample_delay) (bounded_step sample_proto sample_json sample_chrono sample_delay publish_config) publish_jam"
  by (rule reach_steps [OF reach_init bounded_events_steps [OF jams_ok(1)]]
      reach_steps [OF reach_init bounded_events_steps [OF jams_ok(3)]]; auto simp: bounded_start_def)+

theorem effect_deadlock_forever_witness:
  "reach (bounded_start sample_delay) (bounded_step sample_proto sample_json sample_chrono sample_delay snooze_config) snooze_jam \<and>
   bounded_next sample_proto sample_json sample_chrono sample_delay snooze_config Send_Workflow snooze_jam = None \<and>
   reach (bounded_start sample_delay) (bounded_step sample_proto sample_json sample_chrono sample_delay publish_config) publish_jam \<and>
   bounded_next sample_proto sample_json sample_chrono sample_delay publish_config Send_Workflow publish_jam = None"
  using effect_deadlock_forever [OF jams_ok(2) rtranclp.rtrancl_refl, of sample_proto sample_json sample_chrono sample_delay]
    effect_deadlock_forever [OF jams_ok(4) rtranclp.rtrancl_refl, of sample_proto sample_json sample_chrono sample_delay]
    reach_jams by blast

end
