(* ===== verification/Alarm_Progress.thy ===== *)
theory Alarm_Progress
  imports Alarm_Liveness Alarm_Backpressure
begin

text \<open>
  Progress of the service with bounded channels. Without new input it cannot run for ever, as
  in \<open>Alarm_Liveness\<close>, unless it sends failed automated jobs again and again (for which
  \<open>Alarm_Stale_Wake\<close> has an example); and where the deadlock of \<open>Alarm_Backpressure\<close> is excluded,
  because there are at most as many alarms with jobs as the job, snooze and publish channels
  have places, it stops only when everything is done. The timers and wakes are not counted among
  the alarms.
\<close>

section \<open>Turns without new input\<close>

inductive bounded_rest ::
  "proto \<Rightarrow> serializer \<Rightarrow> chrono_ops \<Rightarrow> ('q, 'h) delay_ops \<Rightarrow> queue_capacity_config \<Rightarrow>
   ('q, 'h) bounded \<Rightarrow> ('q, 'h) bounded \<Rightarrow> bool"
  for pb js ch ops cfg where
  rest_take: "id_counter (sv_coord (b_service b)) \<noteq> - 1 \<Longrightarrow> \<not> sv_panicked (b_service b) \<Longrightarrow>
     effect_event ev (b_service b) \<Longrightarrow> bounded_take pb js ch ops ev b = Some b' \<Longrightarrow> bounded_rest pb js ch ops cfg b b'"
| rest_take_outcome: "id_counter (sv_coord (b_service b)) \<noteq> - 1 \<Longrightarrow> \<not> sv_panicked (b_service b) \<Longrightarrow>
     (\<And>j. r = Failed j \<Longrightarrow> \<not> retried (sv_coord (b_service b)) j) \<Longrightarrow>
     bounded_take pb js ch ops (Coordinator_Turn now (On_Outcome r)) b = Some b' \<Longrightarrow> bounded_rest pb js ch ops cfg b b'"
| rest_send: "id_counter (sv_coord (b_service b)) \<noteq> - 1 \<Longrightarrow> \<not> sv_panicked (b_service b) \<Longrightarrow>
     bounded_send_step cfg ev b = Some b' \<Longrightarrow> bounded_rest pb js ch ops cfg b b'"

lemma bounded_rest_step: "bounded_rest pb js ch ops cfg b b' \<Longrightarrow> bounded_step pb js ch ops cfg b b'"
proof (induction rule: bounded_rest.induct)
  case (rest_take b ev b')
  then show ?case by (intro bounded_stepI [where ev = "Take ev"]) simp_all
next
  case (rest_take_outcome b r now b')
  then show ?case by (intro bounded_stepI [where ev = "Take (Coordinator_Turn now (On_Outcome r))"]) simp_all
next
  case (rest_send b ev b')
  from rest_send(3) have "bounded_next pb js ch ops cfg ev b = Some b'" by (cases ev) simp_all
  with rest_send(1,2) show ?case by (rule bounded_stepI)
qed

text \<open>
  \<open>bounded_rest\<close> leaves out one turn without new input: taking the failure of an automated job
  that nothing newer has overtaken, which sends the job again.
\<close>

definition failure_next :: "('q, 'h) bounded \<Rightarrow> bool" where
  "failure_next b \<longleftrightarrow>
     (\<exists>j q. sv_outcome_q (b_service b) = Failed j # q \<and> retried (sv_coord (b_service b)) j)"

definition bounded_resend ::
  "proto \<Rightarrow> serializer \<Rightarrow> chrono_ops \<Rightarrow> ('q, 'h) delay_ops \<Rightarrow> ('q, 'h) bounded \<Rightarrow> ('q, 'h) bounded \<Rightarrow> bool" where
  "bounded_resend pb js ch ops b b' \<longleftrightarrow>
     id_counter (sv_coord (b_service b)) \<noteq> - 1 \<and> \<not> sv_panicked (b_service b) \<and>
     (\<exists>now j. retried (sv_coord (b_service b)) j \<and>
        bounded_take pb js ch ops (Coordinator_Turn now (On_Outcome (Failed j))) b = Some b')"

definition bounded_quiet ::
  "proto \<Rightarrow> serializer \<Rightarrow> chrono_ops \<Rightarrow> ('q, 'h) delay_ops \<Rightarrow> queue_capacity_config \<Rightarrow>
   ('q, 'h) bounded \<Rightarrow> ('q, 'h) bounded \<Rightarrow> bool" where
  "bounded_quiet pb js ch ops cfg b b' \<longleftrightarrow> bounded_rest pb js ch ops cfg b b' \<or> bounded_resend pb js ch ops b b'"

lemma bounded_quiet_step: "bounded_quiet pb js ch ops cfg b b' \<Longrightarrow> bounded_step pb js ch ops cfg b b'"
  unfolding bounded_quiet_def bounded_resend_def
proof (elim disjE conjE exE)
  fix now j
  assume "id_counter (sv_coord (b_service b)) \<noteq> - 1" "\<not> sv_panicked (b_service b)"
    "bounded_take pb js ch ops (Coordinator_Turn now (On_Outcome (Failed j))) b = Some b'"
  then show ?thesis by (intro bounded_stepI [where ev = "Take (Coordinator_Turn now (On_Outcome (Failed j)))"]) simp_all
qed (rule bounded_rest_step)

definition outboxes :: "('q, 'h) bounded \<Rightarrow> nat" where
  "outboxes b = length (b_coord_out b) + length (b_workflow_out b) + length (b_snooze_out b) + length (b_publish_out b)"

lemma send_empties: "bounded_send_step cfg ev b = Some b' \<Longrightarrow> outboxes b' < outboxes b"
  by (cases ev) (auto simp: outboxes_def Let_def split: list.splits if_splits workflow_effect.splits)

lemma effect_event_unbound: "effect_event ev (unbound b) = effect_event ev (b_service b)"
proof (cases ev)
  case (Publish_Event pe)
  then show ?thesis by (cases pe) simp_all
qed simp_all

lemma bounded_rest_left:
  assumes sl: "service_laws js ops view" and r: "reach (bounded_start ops) (bounded_step pb js ch ops cfg) b"
    and st: "bounded_rest pb js ch ops cfg b b'"
  shows "(b', b) \<in> measures [\<lambda>b. service_left (unbound b), outboxes]"
proof -
  note rs = reach_bounded_service [OF r]
  from st show ?thesis
  proof (cases rule: bounded_rest.cases)
    case (rest_take ev)
    then have "rest_step pb js ch ops (unbound b) (unbound b')"
      by (intro rest_effect [OF _ _ _ take_simulates]) (simp_all add: effect_event_unbound)
    from rest_step_left [OF sl rs this] show ?thesis by simp
  next
    case (rest_take_outcome r now)
    then have "rest_step pb js ch ops (unbound b) (unbound b')"
      by (intro rest_outcome [OF _ _ _ take_simulates]) simp_all
    from rest_step_left [OF sl rs this] show ?thesis by simp
  next
    case (rest_send ev)
    from send_stutters [OF this(3)] send_empties [OF this(3)] show ?thesis by simp
  qed
qed

lemma no_endless_rest:
  assumes sl: "service_laws js ops view" and r: "reach (bounded_start ops) (bounded_step pb js ch ops cfg) b"
  shows "\<nexists>f. f 0 = b \<and> (\<forall>i. bounded_rest pb js ch ops cfg (f i) (f (Suc i)))"
proof
  assume "\<exists>f. f 0 = b \<and> (\<forall>i. bounded_rest pb js ch ops cfg (f i) (f (Suc i)))"
  then obtain f where f: "f 0 = b" "\<And>i. bounded_rest pb js ch ops cfg (f i) (f (Suc i))" by blast
  have "reach (bounded_start ops) (bounded_step pb js ch ops cfg) (f i)" for i
    by (induction i) (auto simp: f(1) intro: r reach_step bounded_rest_step f(2))
  then have "\<forall>i. (f (Suc i), f i) \<in> measures [\<lambda>b. service_left (unbound b), outboxes]"
    using bounded_rest_left [OF sl _ f(2)] by blast
  moreover have "wf (measures [\<lambda>b. service_left (unbound b), outboxes :: ('a, 'b) bounded \<Rightarrow> nat])" by simp
  ultimately show False unfolding wf_iff_no_infinite_down_chain by blast
qed

lemma endless_resends:
  assumes sl: "service_laws js ops view" and r: "reach (bounded_start ops) (bounded_step pb js ch ops cfg) (f 0)"
    and run: "\<And>i. bounded_quiet pb js ch ops cfg (f i) (f (Suc i))"
  shows "\<exists>i\<ge>n. bounded_resend pb js ch ops (f i) (f (Suc i))"
proof (rule ccontr)
  assume "\<not> ?thesis"
  then have "bounded_rest pb js ch ops cfg (f (n + i)) (f (Suc (n + i)))" for i
    using run [of "n + i"] by (auto simp: bounded_quiet_def)
  moreover have reached: "reach (bounded_start ops) (bounded_step pb js ch ops cfg) (f n)"
    by (induction n) (auto intro: r reach_step bounded_quiet_step run)
  ultimately have "\<exists>g. g 0 = f n \<and> (\<forall>i. bounded_rest pb js ch ops cfg (g i) (g (Suc i)))"
    by (intro exI [of _ "\<lambda>i. f (n + i)"]) simp
  with no_endless_rest [OF sl reached] show False by simp
qed

section \<open>Few alarms\<close>

definition channels_hold :: "queue_capacity_config \<Rightarrow> nat \<Rightarrow> bool" where
  "channels_hold cfg n \<longleftrightarrow> 0 < unat (cap_job cfg) \<and> 0 < unat (cap_snooze cfg) \<and> 0 < unat (cap_publish cfg) \<and>
     n \<le> unat (cap_job cfg) \<and> n \<le> unat (cap_snooze cfg) \<and> n \<le> unat (cap_publish cfg)"

definition alarms_with_jobs :: "('q, 'h) service \<Rightarrow> alarm_key set" where
  "alarms_with_jobs s = job_key ` set_mset (pipe_jobs s)"

lemma jobs_of_alarms:
  assumes "cm_inv pb m" "simulates s m"
  shows "size (pipe_jobs s) = card (alarms_with_jobs s)"
proof -
  have "distinct (map job_key (cm_jobs m))" using assms(1) by (simp add: cm_inv_def inv_flight_def)
  from distinct_card [OF this] show ?thesis
    using assms(2) by (metis alarms_with_jobs_def length_map list.set_map set_mset_mset simulates_def size_mset)
qed

lemma queues_fit:
  assumes "pipe_ok view s"
  shows "length (sv_job_q s) \<le> size (pipe_jobs s)" "length (sv_snooze_q s) \<le> size (pipe_jobs s)"
    "length (sv_publish_q s) \<le> size (pipe_jobs s)"
proof -
  have part: "size (awaiting n (sv_workflow s)) \<le> length (sv_workflow s)" for n
    unfolding awaiting_def size_image_mset by (metis size_filter_mset_lesseq size_mset)
  have tracked: "size (awaiting n (sv_workflow s)) \<le> size (pipe_jobs s)" for n
    using part [of n] by (simp add: pipe_jobs_def tracked_jobs_def)
  show "length (sv_job_q s) \<le> size (pipe_jobs s)" by (simp add: pipe_jobs_def)
  show "length (sv_snooze_q s) \<le> size (pipe_jobs s)"
    using tracked [of 1] pipe_okD(4) [OF assms] by simp
  show "length (sv_publish_q s) \<le> size (pipe_jobs s)"
    using tracked [of 2] pipe_okD(5) [OF assms] by simp
qed

text \<open>With empty outboxes a bounded task can take what the unbounded one can.\<close>

lemma empty_outboxes_take:
  assumes "outboxes b = 0" "service_next pb js ch ops ev (b_service b) = Some t"
  shows "\<exists>b'. bounded_take pb js ch ops ev b = Some b'"
proof (cases ev)
  case (Publish_Event pe)
  with assms show ?thesis by (cases pe) (simp_all add: outboxes_def Let_def del: publish_turn.simps)
qed (use assms in \<open>auto simp: outboxes_def Let_def simp del: publish_turn.simps workflow_turn.simps
    split: list.splits if_splits\<close>)

lemma unbound_empty: "outboxes b = 0 \<Longrightarrow> unbound b = b_service b"
  by (simp add: outboxes_def unbound_def Let_def)

lemma waiting_progress:
  assumes sl: "service_laws js ops view" and r: "reach (bounded_start ops) (bounded_step pb js ch ops cfg) b"
    and few: "channels_hold cfg (card (alarms_with_jobs (unbound b)))"
    and stop: "\<nexists>b'. bounded_quiet pb js ch ops cfg b b'" and c: "id_counter (sv_coord (b_service b)) \<noteq> - 1"
  shows "outboxes b = 0" and "\<not> failure_next b"
proof -
  let ?s = "b_service b"
  obtain m where m: "cm_inv pb m" "pipe_ok view (unbound b)" "simulates (unbound b) m"
    using reach_service_rel [OF sl reach_bounded_service [OF r]] by blast
  have no_rest: "\<nexists>b'. bounded_rest pb js ch ops cfg b b'" using stop by (auto simp: bounded_quiet_def)
  have up: "sv_running ?s" "\<not> sv_panicked ?s" using m by (simp_all add: simulates_def cm_inv_def pipe_ok_def)
  have fit: "length (sv_job_q ?s @ b_coord_out b) \<le> unat (cap_job cfg)"
    "length (sv_snooze_q ?s @ snoozes_of (b_workflow_out b)) \<le> unat (cap_snooze cfg)"
    "length (sv_publish_q ?s @ publishes_of (b_workflow_out b)) \<le> unat (cap_publish cfg)"
    "0 < unat (cap_job cfg)" "0 < unat (cap_snooze cfg)" "0 < unat (cap_publish cfg)"
    using queues_fit [OF m(2)] few unfolding jobs_of_alarms [OF m(1,3)] channels_hold_def by simp_all
  have no_send: "bounded_send_step cfg ev b = None" for ev
    using no_rest rest_send [OF c up(2)] by (metis option.exhaust)
  have no_take: "bounded_take pb js ch ops ev b = None" if "effect_event ev ?s" for ev
    using no_rest rest_take [OF c up(2) that] by (metis option.exhaust)
  have coord: "b_coord_out b = []"
    using no_send [of Send_Job] fit(1) by (auto simp: Let_def room_def split: list.splits if_splits)
  have outcomes: "sv_outcome_q ?s = []"
  proof (cases "sv_outcome_q ?s")
    case (Cons r q)
    then obtain b' where take: "bounded_take pb js ch ops (Coordinator_Turn 0 (On_Outcome r)) b = Some b'"
      using coord up(1) by (simp add: Let_def)
    have "\<exists>j. r = Failed j \<and> retried (sv_coord ?s) j"
      using no_rest rest_take_outcome [OF c up(2) _ take] by blast
    with take c up(2) have "bounded_resend pb js ch ops b b'" by (auto simp: bounded_resend_def)
    with stop show ?thesis by (auto simp: bounded_quiet_def)
  qed simp
  then show "\<not> failure_next b" by (simp add: failure_next_def)
  have flow: "b_workflow_out b = []"
  proof (cases "b_workflow_out b")
    case (Cons e es)
    with no_send [of Send_Workflow] fit outcomes show ?thesis
      by (cases e) (simp_all add: Let_def room_def snoozes_of_def publishes_of_def split: if_splits)
  qed simp
  have "sv_snooze_out ?s = []" "sv_publish_out ?s = []"
    using no_take [of Workflow_Snooze] no_take [of Workflow_Publish] flow
    by (simp_all add: Let_def split: list.splits)
  then have "b_snooze_out b = []" "b_publish_out b = []"
    using no_send [of Send_Snooze] no_send [of Send_Publish] fit(5,6)
    by (simp_all add: Let_def room_def split: list.splits if_splits)
  with coord flow show "outboxes b = 0" by (simp add: outboxes_def)
qed

text \<open>
  C26: the bounded service comes to rest. Without new input, and without sending a failed
  automated job again, it has no infinite run, in whatever order the tasks take and send; in an
  infinite run that does send such jobs again, it does so again and again, without end. While
  the alarms with jobs are at most as many as the job, snooze and publish channels have
  places, it stops only when every message has been sent, no job is left and no alarm has
  speculative state (or the id counter is exhausted): no task waits for room for good.
\<close>

theorem bounded_comes_to_rest:
  assumes "service_laws js ops view" and "reach (bounded_start ops) (bounded_step pb js ch ops cfg) b"
    and "channels_hold cfg (card (alarms_with_jobs (unbound b)))"
  shows "(\<nexists>f. f 0 = b \<and> (\<forall>i. bounded_rest pb js ch ops cfg (f i) (f (Suc i)))) \<and>
    (\<forall>f n. f 0 = b \<and> (\<forall>i. bounded_quiet pb js ch ops cfg (f i) (f (Suc i))) \<longrightarrow>
       (\<exists>i\<ge>n. bounded_resend pb js ch ops (f i) (f (Suc i)))) \<and>
    ((\<exists>b'. bounded_quiet pb js ch ops cfg b b') \<or> id_counter (sv_coord (b_service b)) = - 1 \<or>
     outboxes b = 0 \<and> pipe_jobs (b_service b) = {#} \<and>
       (\<forall>k. hm_get (speculative_state (sv_coord (b_service b))) k = None))"
proof -
  have "outboxes b = 0 \<and> pipe_jobs (b_service b) = {#} \<and>
       (\<forall>k. hm_get (speculative_state (sv_coord (b_service b))) k = None)"
    if stop: "\<nexists>b'. bounded_quiet pb js ch ops cfg b b'" and c: "id_counter (sv_coord (b_service b)) \<noteq> - 1"
  proof -
    note out = waiting_progress [OF assms stop c]
    note same = unbound_empty [OF out(1)]
    have rest: "\<nexists>b'. bounded_rest pb js ch ops cfg b b'" using stop by (auto simp: bounded_quiet_def)
    have "\<nexists>t. rest_step pb js ch ops (b_service b) t"
    proof
      assume "\<exists>t. rest_step pb js ch ops (b_service b) t"
      then obtain t where "rest_step pb js ch ops (b_service b) t" by blast
      then show False
      proof (cases rule: rest_stepE)
        case (effect ev)
        with empty_outboxes_take [OF out(1) effect(4)] rest rest_take show False by blast
      next
        case (outcome r now)
        from empty_outboxes_take [OF out(1) outcome(4)] obtain b' where
          "bounded_take pb js ch ops (Coordinator_Turn now (On_Outcome r)) b = Some b'" ..
        with rest_take_outcome [OF outcome(1,2,3)] rest show False by blast
      qed
    qed
    with stopped_service [OF assms(1) reach_bounded_service [OF assms(2)]] c out show ?thesis
      unfolding same failure_next_def by blast
  qed
  moreover have "\<exists>i\<ge>n. bounded_resend pb js ch ops (f i) (f (Suc i))"
    if "f 0 = b" "\<forall>i. bounded_quiet pb js ch ops cfg (f i) (f (Suc i))" for f n
    using endless_resends [OF assms(1), where f = f] assms(2) that by blast
  ultimately show ?thesis using no_endless_rest [OF assms(1,2)] by blast
qed

section \<open>A service at work\<close>

lemma few_jobs: "card (alarms_with_jobs s) \<le> size (pipe_jobs s)"
proof -
  obtain js where js: "pipe_jobs s = mset js" by (metis ex_mset)
  have "card (job_key ` set js) \<le> length js"
    by (rule order_trans [OF card_image_le card_length]) simp
  then show ?thesis by (simp add: alarms_with_jobs_def js)
qed

definition roomy_config :: queue_capacity_config where
  "roomy_config = \<lparr>cap_automated = 2, cap_user = 2, cap_job = 2, cap_publish = 2, cap_snooze = 2\<rparr>"

text \<open>Two alarms of which one is at the publisher and the other in front of the workflow.\<close>

definition working_run :: "bounded_event list" where
  "working_run = to_publisher ''A'' @ [alarm_update ''B'', Send_Job]"

definition working :: "(sample_queue, nat) bounded" where
  "working = the (bounded_events sample_proto sample_json sample_chrono sample_delay roomy_config working_run
     (bounded_start_state sample_delay hm_new))"

lemma working_evaluated:
  "case bounded_events sample_proto sample_json sample_chrono sample_delay roomy_config working_run
     (bounded_start_state sample_delay hm_new) of
     None \<Rightarrow> False
   | Some b \<Rightarrow> length (sv_job_q (unbound b)) = 1 \<and> length (sv_workflow (unbound b)) = 1 \<and>
       sv_outcome_q (unbound b) = [] \<and> id_counter (sv_coord (b_service b)) = 3 \<and> length (sv_job_q (b_service b)) = 1"
  by code_simp

lemma working_ok:
  "bounded_events sample_proto sample_json sample_chrono sample_delay roomy_config working_run
     (bounded_start_state sample_delay hm_new) = Some working"
  using working_evaluated by (auto simp: working_def split: option.splits)

lemmas working_facts = working_evaluated [unfolded working_ok option.case]

theorem bounded_comes_to_rest_witness:
  "\<exists>b'. bounded_quiet sample_proto sample_json sample_chrono sample_delay roomy_config working b'"
proof -
  have "reach (bounded_start sample_delay)
      (bounded_step sample_proto sample_json sample_chrono sample_delay roomy_config) working"
    by (rule reach_steps [OF reach_init bounded_events_steps [OF working_ok]]) (auto simp: bounded_start_def)
  moreover have "size (pipe_jobs (unbound working)) = 2"
    using working_facts by (simp add: pipe_jobs_def tracked_jobs_def del: unbound_simps)
  then have "channels_hold roomy_config (card (alarms_with_jobs (unbound working)))"
    using few_jobs [of "unbound working"] by (simp add: channels_hold_def roomy_config_def)
  moreover have "sv_outcome_q (b_service working) = []" "pipe_jobs (b_service working) \<noteq> {#}"
    "id_counter (sv_coord (b_service working)) \<noteq> - 1"
    using working_facts by (auto simp: pipe_jobs_def)
  ultimately show ?thesis
    using bounded_comes_to_rest [OF sample_service_laws, of sample_proto sample_chrono roomy_config working] by auto
qed

end
