(* ===== verification/Alarm_Test_Support.thy ===== *)
theory Alarm_Test_Support
  imports Alarm_Process
begin

text \<open>
  The fixtures of the unit tests (\<open>src/test_utils.rs\<close>): a publisher that keeps the latest
  message and either accepts or refuses all, runtimes on such publishers, and a status. What a
  test can rely on when it runs on the refusing publisher is a theorem about the process.
  The conversion of a message into bytes belongs to the publishing library, a parameter.
\<close>

section \<open>The publisher\<close>

record 'b test_pub =
  tp_latest :: "'b option"
  tp_throw_err :: bool

definition test_pub_new :: "string \<Rightarrow> string \<Rightarrow> 'b test_pub" where
  "test_pub_new host topic = \<lparr>tp_latest = None, tp_throw_err = False\<rparr>"

definition init_throwing :: "'b test_pub" where
  "init_throwing = \<lparr>tp_latest = None, tp_throw_err = True\<rparr>"

definition test_pub_init :: "'b test_pub" where
  "test_pub_init = test_pub_new [] []"

definition init_inspectable :: "'b option \<Rightarrow> 'b test_pub" where
  "init_inspectable dropbox = \<lparr>tp_latest = dropbox, tp_throw_err = False\<rparr>"

definition test_pub_publish :: "(string_message \<Rightarrow> 'b) \<Rightarrow> string_message \<Rightarrow> 'b test_pub \<Rightarrow> 'b test_pub \<times> (unit option)" where
  "test_pub_publish into_bytes message p =
     (p\<lparr>tp_latest := Some (into_bytes message)\<rparr>, if \<not> tp_throw_err p then Some () else None)"

text \<open>The publisher's answer to any message, which is what the publish engine sees of it.\<close>

definition test_pub_accepts :: "'b test_pub \<Rightarrow> bool" where
  "test_pub_accepts p \<longleftrightarrow> \<not> tp_throw_err p"

lemma test_pub_answers:
  "fst (test_pub_publish into_bytes message p) = p\<lparr>tp_latest := Some (into_bytes message)\<rparr>"
  "(snd (test_pub_publish into_bytes message p) = Some ()) = test_pub_accepts p"
  "test_pub_accepts (fst (test_pub_publish into_bytes message p)) = test_pub_accepts p"
  by (simp_all add: test_pub_publish_def test_pub_accepts_def)

section \<open>Runtimes and a status\<close>

definition DEFAULT_TEST_QUEUE_CONFIG :: queue_capacity_config where
  "DEFAULT_TEST_QUEUE_CONFIG = \<lparr>cap_automated = 10, cap_user = 10, cap_job = 10, cap_publish = 10, cap_snooze = 10\<rparr>"

definition get_runtime ::
  "'r ring_ops \<Rightarrow> ('q, 'h) delay_ops \<Rightarrow> (('q, 'h) bounded \<times> 'r alarm_state_ingress) option \<times> 'b test_pub" where
  "get_runtime ring ops = (start_tasks ring ops DEFAULT_TEST_QUEUE_CONFIG hm_new, test_pub_init)"

definition get_throwing_runtime ::
  "'r ring_ops \<Rightarrow> ('q, 'h) delay_ops \<Rightarrow> (('q, 'h) bounded \<times> 'r alarm_state_ingress) option \<times> 'b test_pub" where
  "get_throwing_runtime ring ops = (start_tasks ring ops DEFAULT_TEST_QUEUE_CONFIG hm_new, init_throwing)"

definition make_status :: "proto \<Rightarrow> string \<Rightarrow> alarm_state \<Rightarrow> alarm_source \<Rightarrow> status" where
  "make_status pb device state source = \<lparr>st_device = device, st_severity = severity_to_i32 pb Low,
     st_state = state_to_i32 pb state, st_source = source_to_i32 pb source, st_acknowledgeable = False,
     st_time = Some \<lparr>ts_seconds = 0, ts_nanos = 0\<rparr>, st_epics_type = [], st_user = [], st_wake = None\<rparr>"

section \<open>Runs on a test publisher\<close>

definition start_with :: "('q, 'h) bounded \<times> 'r alarm_state_ingress \<Rightarrow> ('r, 'q, 'h) alarms_process" where
  "start_with started = \<lparr>ap_ingress = automated_tx (snd started), ap_users = [], ap_tasks = fst started,
     ap_handled = [], ap_queued = [], ap_topic = [], ap_commands = []\<rparr>"

fun answers_like :: "bool \<Rightarrow> process_event \<Rightarrow> bool" where
  "answers_like accepts (Task_Turn (Take (Publish_Event (Attempt_Answered n acc now)))) \<longleftrightarrow> acc = accepts"
| "answers_like accepts _ \<longleftrightarrow> True"

inductive test_step ::
  "'b test_pub \<Rightarrow> proto \<Rightarrow> serializer \<Rightarrow> chrono_ops \<Rightarrow> 'r ring_ops \<Rightarrow> ('q, 'h) delay_ops \<Rightarrow> queue_capacity_config \<Rightarrow>
   ('r, 'q, 'h) alarms_process \<Rightarrow> ('r, 'q, 'h) alarms_process \<Rightarrow> bool"
  for pub pb js ch ring ops cfg where
  test_stepI: "id_counter (sv_coord (b_service (ap_tasks p))) \<noteq> - 1 \<Longrightarrow> \<not> sv_panicked (b_service (ap_tasks p)) \<Longrightarrow>
     answers_like (test_pub_accepts pub) ev \<Longrightarrow> process_next pb js ch ring ops cfg ev p = Some p' \<Longrightarrow>
     test_step pub pb js ch ring ops cfg p p'"

inductive_cases test_stepE: "test_step pub pb js ch ring ops cfg p p'"

lemma test_step_process: "test_step pub pb js ch ring ops cfg p p' \<Longrightarrow> process_step pb js ch ring ops cfg p p'"
  by (erule test_stepE) (rule process_stepI)

lemma test_steps_process:
  "(test_step pub pb js ch ring ops cfg)\<^sup>*\<^sup>* p p' \<Longrightarrow> (process_step pb js ch ring ops cfg)\<^sup>*\<^sup>* p p'"
  by (metis mono_rtranclp test_step_process)

text \<open>Only an accepted attempt puts something on the topic.\<close>

lemma refused_accepts_nothing:
  "answers_like False (Task_Turn ev) \<Longrightarrow> accepted_in ev b = []"
proof (cases "\<exists>n acc now. ev = Take (Publish_Event (Attempt_Answered n acc now))")
  case True
  then obtain n acc now where "ev = Take (Publish_Event (Attempt_Answered n acc now))" by blast
  then show "answers_like False (Task_Turn ev) \<Longrightarrow> accepted_in ev b = []" by simp
next
  case False
  show "accepted_in ev b = []"
  proof (cases ev)
    case (Take sev)
    show ?thesis
    proof (cases sev)
      case (Publish_Event pe)
      with Take False show ?thesis by (cases pe) simp_all
    qed (use Take in simp_all)
  qed simp_all
qed

lemma refusing_topic:
  assumes "test_step pub pb js ch ring ops cfg p p'" "\<not> test_pub_accepts pub"
  shows "ap_topic p' = ap_topic p"
  using assms(1)
proof (rule test_stepE)
  fix ev assume ev: "answers_like (test_pub_accepts pub) ev" "process_next pb js ch ring ops cfg ev p = Some p'"
  show ?thesis
  proof (cases ev)
    case (Coordinator_Selects now)
    with ev(2) have "process_select pb js ch ops now p = Some p'" by simp
    then show ?thesis by (rule select_spec)
  next
    case (Task_Turn tev)
    with ev(2) have "process_task pb js ch ops cfg tev p = Some p'" by simp
    then obtain b where "p' = p\<lparr>ap_tasks := b, ap_topic := ap_topic p @ accepted_in tev (ap_tasks p)\<rparr>"
      by (rule task_changes)
    with ev(1) Task_Turn assms(2) refused_accepts_nothing [of tev] show ?thesis by simp
  qed (use ev(2) in \<open>auto simp: process_user_eq process_ingress_def split: if_splits\<close>)
qed

lemma throwing_topic:
  assumes "(test_step pub pb js ch ring ops cfg)\<^sup>*\<^sup>* p p'" "\<not> test_pub_accepts pub"
  shows "ap_topic p' = ap_topic p"
  using assms(1) by (induction rule: rtranclp_induct) (simp_all add: refusing_topic [OF _ assms(2)])

lemma test_capacities: "capacities_ok DEFAULT_TEST_QUEUE_CONFIG"
  by code_simp

text \<open>
  The refusing runtime confirms nothing. Whatever a test sends to the runtime of
  \<open>get_throwing_runtime\<close>, in whatever order the tasks take their turns, no status reaches the
  topic, no command is answered with success, and no alarm without a job has confirmed state.
\<close>

theorem throwing_runtime_confirms_nothing:
  assumes sl: "service_laws js ops view"
    and rt: "get_throwing_runtime ring ops = (Some started, pub)"
    and run: "(test_step pub pb js ch ring ops DEFAULT_TEST_QUEUE_CONFIG)\<^sup>*\<^sup>* (start_with started) p"
  shows "ap_topic p = [] \<and> (\<forall>cf. (cf, Inr ()) \<notin> set (sv_answers (b_service (ap_tasks p)))) \<and>
    (\<forall>k. (\<forall>j\<in>#pipe_jobs (unbound (ap_tasks p)). job_key j \<noteq> k) \<longrightarrow>
       hm_get (confirmed_state (sv_coord (b_service (ap_tasks p)))) k = None)"
proof -
  let ?start = "start_with started"
  have pub: "\<not> test_pub_accepts pub"
    using rt by (auto simp: get_throwing_runtime_def init_throwing_def test_pub_accepts_def)
  have "0 < unat (cap_automated DEFAULT_TEST_QUEUE_CONFIG)" by (simp add: DEFAULT_TEST_QUEUE_CONFIG_def)
  then have st: "process_start ring ops DEFAULT_TEST_QUEUE_CONFIG hm_new ?start"
    using rt test_capacities
    by (auto simp: get_throwing_runtime_def start_tasks_def process_start_def process_new_def start_with_def Let_def)
  note r = reach_steps [OF reach_init [of "process_start ring ops DEFAULT_TEST_QUEUE_CONFIG hm_new", OF st]
      test_steps_process [OF run]]
  have topic: "ap_topic p = []" using throwing_topic [OF run pub] by (simp add: start_with_def)
  from reach_answers_ok [OF sl reach_seen [OF r]] topic
  have "(cf, Inr ()) \<notin> set (sv_answers (b_service (ap_tasks p)))" for cf
    by (auto simp: seen_def answers_ok_def)
  moreover have "hm_get (confirmed_state (sv_coord (b_service (ap_tasks p)))) k = None"
    if "\<forall>j\<in>#pipe_jobs (unbound (ap_tasks p)). job_key j \<noteq> k" for k
    using confirmed_without_job [OF sl reach_seen [OF r], of k] that topic by (simp add: seen_def)
  ultimately show ?thesis using topic by blast
qed

section \<open>A refused command\<close>

fun test_events ::
  "'b test_pub \<Rightarrow> proto \<Rightarrow> serializer \<Rightarrow> chrono_ops \<Rightarrow> 'r ring_ops \<Rightarrow> ('q, 'h) delay_ops \<Rightarrow> queue_capacity_config \<Rightarrow>
   process_event list \<Rightarrow> ('r, 'q, 'h) alarms_process \<Rightarrow> ('r, 'q, 'h) alarms_process option" where
  "test_events pub pb js ch ring ops cfg [] p = Some p"
| "test_events pub pb js ch ring ops cfg (ev # evs) p =
     (if id_counter (sv_coord (b_service (ap_tasks p))) = - 1 \<or> sv_panicked (b_service (ap_tasks p)) \<or>
         \<not> answers_like (test_pub_accepts pub) ev then None
      else Option.bind (process_next pb js ch ring ops cfg ev p) (test_events pub pb js ch ring ops cfg evs))"

lemma test_events_steps:
  "test_events pub pb js ch ring ops cfg evs p = Some p' \<Longrightarrow> (test_step pub pb js ch ring ops cfg)\<^sup>*\<^sup>* p p'"
proof (induction evs arbitrary: p)
  case (Cons ev evs)
  then obtain u where "test_step pub pb js ch ring ops cfg p u" "test_events pub pb js ch ring ops cfg evs u = Some p'"
    by (auto split: Option.bind_splits if_splits intro: test_stepI)
  with Cons.IH [of u] show ?case by (meson converse_rtranclp_into_rtranclp)
qed simp

text \<open>A bypass whose two attempts are refused: the operator gets an internal error.\<close>

definition refused_run :: "process_event list" where
  "refused_run = [User_Message (UserUpdate sample_epics_key (Bypass None) ''op'' 7), Coordinator_Selects 1000] @
   map Task_Turn [Send_Job, Take Workflow_Job, Send_Workflow, Take (Snooze_Turn near_clocks), Send_Snooze,
    Take Workflow_Snooze, Send_Workflow, Take Publish_Take, Take (Publish_Event (Attempt_Polled 0 1)),
    Take (Publish_Event (Attempt_Answered 0 False 2)), Take (Publish_Event (Attempt_Polled 0 3)),
    Take (Publish_Event (Attempt_Answered 0 False 4)), Send_Publish, Take Workflow_Publish, Send_Workflow] @
   [Coordinator_Selects 1002]"

definition refused_start :: "(sample_queue, nat) bounded \<times> (alarm_key \<times> status) list alarm_state_ingress" where
  "refused_start = the (start_tasks sample_ring sample_delay DEFAULT_TEST_QUEUE_CONFIG hm_new)"

lemma refused_start_ok: "get_throwing_runtime sample_ring sample_delay = (Some refused_start, init_throwing)"
  using test_capacities by (simp add: get_throwing_runtime_def refused_start_def start_tasks_def Let_def)

lemma refused_run_evaluated:
  "case test_events (init_throwing :: string_message test_pub) sample_proto sample_json sample_chrono sample_ring sample_delay
     DEFAULT_TEST_QUEUE_CONFIG refused_run (start_with refused_start) of
     None \<Rightarrow> False
   | Some p \<Rightarrow> sv_answers (b_service (ap_tasks p)) = [(7, Inl (Internal sample_epics_key))]"
  by code_simp

theorem throwing_runtime_confirms_nothing_witness:
  "\<exists>p. (test_step (init_throwing :: string_message test_pub) sample_proto sample_json sample_chrono sample_ring sample_delay
      DEFAULT_TEST_QUEUE_CONFIG)\<^sup>*\<^sup>* (start_with refused_start) p \<and>
     sv_answers (b_service (ap_tasks p)) = [(7, Inl (Internal sample_epics_key))] \<and> ap_topic p = []"
proof -
  obtain p where p: "test_events (init_throwing :: string_message test_pub) sample_proto sample_json sample_chrono
      sample_ring sample_delay DEFAULT_TEST_QUEUE_CONFIG refused_run (start_with refused_start) = Some p"
    "sv_answers (b_service (ap_tasks p)) = [(7, Inl (Internal sample_epics_key))]"
    using refused_run_evaluated by (auto split: option.splits)
  note run = test_events_steps [OF p(1)]
  from throwing_runtime_confirms_nothing [OF sample_service_laws refused_start_ok run] run p(2)
  show ?thesis by blast
qed

end
