(* ===== verification/Spec2Isabelle.thy ===== *)
theory Spec2Isabelle
  imports Alarm_Hanging Alarm_Ledger Alarm_Compaction Alarm_Deadlocks Alarm_Progress Alarm_Test_Support
begin

text \<open>
  The ACORN alarms service (package \<open>src/src\<close>, Rust): it takes alarm updates from a Redis
  stream and commands of operators over gRPC, decides which of them change the state of an alarm,
  arms and cancels the timers of snoozed alarms, publishes every change to a Kafka topic, and
  answers each operator when the change is on the topic.

  \<^bold>\<open>The parts and how they interact.\<close>

  \<^item> The Redis reader (\<open>adapters/redis.rs\<close>) turns stream entries into automated updates and
    submits them through the automated ingress (\<open>engine/ingress.rs\<close>), which queues them for
    the coordinator and, when that queue is full, keeps the latest update per alarm in a
    backlog that a drain task empties.
  \<^item> The gRPC service (\<open>adapters/grpc.rs\<close>) submits one user update per named alarm through
    the user ingress, which refuses when its queue is full, and waits for all confirmations.
  \<^item> The coordinator (\<open>engine/coordinator.rs\<close>) alone holds the state of the alarms: a
    confirmed cache, a speculative cache with the latest accepted intent, and the pending
    confirmations by job id. It asks the policy (\<open>engine/policy.rs\<close>) about every update,
    sends at most one job per alarm to the workflow handler, and reconciles the outcomes.
  \<^item> The workflow handler (\<open>engine/workflow.rs\<close>) takes each job through two effects, first
    the snooze scheduler (\<open>effects/snooze.rs\<close>: arm or cancel the timer) and then the publish
    engine (\<open>effects/publish.rs\<close>: deliver, retry once, report at once or in batches), and sends
    the outcome back to the coordinator, as it does with the expiry of timers.
  \<^item> At startup (\<open>main.rs\<close>, \<open>runtime.rs\<close>, \<open>runtime/hydration.rs\<close>,
    \<open>adapters/acnet_hydration.rs\<close>, \<open>adapters/epics_hydration.rs\<close>) the bypassed alarms are
    collected from two sources, merged and given to the coordinator as confirmed state.

  \<^bold>\<open>The theories.\<close>

  \<^item> \<open>Alarm_Prelude\<close>, \<open>Hash_Map\<close>, \<open>Transition_System\<close>, \<open>Effect_Worker\<close>: the library. The
    machine types and saturating arithmetic; \<open>std\<close> hash maps as association lists behind the
    locale \<open>keyed_map\<close>; reachable states, the invariant rule and stuttering simulations as
    locales; the contract of an effect worker (locale \<open>effect_worker\<close>: it answers every
    command it takes once), interpreted by the snooze scheduler and by the publish engine.
  \<^item> \<open>Alarm_Proto\<close>, \<open>Alarm_Key\<close>, \<open>Alarm_Model\<close>: the data. The protobuf types are
    generated code, a parameter \<open>pb\<close> with its documented laws; the rest follows \<open>src/model\<close> and
    \<open>engine/messages.rs\<close> constructor by constructor. A key is printed and parsed back.
  \<^item> \<open>Alarm_Policy\<close>: the decisions, characterised as a table over states and severities.
  \<^item> \<open>Alarm_Metrics\<close>: counters, gauges and histograms of \<open>metrics.rs\<close> as words; gauges are
    the differences of their counters, histograms account for every sample.
  \<^item> \<open>Alarm_Coordinator\<close>, \<open>Coordinator_Machine\<close>, \<open>Coordinator_Properties\<close>: the handlers and
    the biased event loop; the coordinator with the jobs in flight as a transition system and its
    inductive invariant; what follows from it: one job per alarm, ids that identify an intent,
    outcomes that resolve the right confirmation, rollback, convergence, and the confirmations
    that nobody answers.
  \<^item> \<open>Alarm_Workflow\<close>, \<open>Alarm_Snooze\<close>, \<open>Alarm_Publish\<close>: the three tasks behind the coordinator.
    The scheduler refines a map of deadlines given by plain arithmetic, and never gives the delay queue
    a deadline beyond the range it is promised to take; the publish engine loses and duplicates nothing,
    delivers at most twice, and settles every request.
  \<^item> \<open>Alarm_Ingress\<close>: both ingress handles and the drain task as a machine with interleaving;
    its abstract specification is the sequence of submissions per alarm.
  \<^item> \<open>Alarm_Redis\<close>, \<open>Alarm_Grpc\<close>, \<open>Alarm_Hydration\<close>: the adapters, from the text of an
    entry, a request or a record to the message and back to the answer.
  \<^item> \<open>Alarm_System\<close>: the configuration and the four tasks joined by their queues. It refines
    the machine of \<open>Coordinator_Machine\<close>: the tasks together are the job executor which that
    machine assumes, so that its theorems hold of the service, and no task panics.
  \<^item> \<open>Alarm_Backpressure\<close>: the same with the bounded channels of \<open>runtime.rs\<close>, in which a
    send waits for room. It refines \<open>Alarm_System\<close>; it can deadlock, and cannot while the
    alarms with jobs are at most as many as the job channel has places. \<open>Alarm_Deadlocks\<close>: the two
    other cycles of channels, between the workflow handler and an effect task.
  \<^item> \<open>Service_Turns\<close>: what one turn of a task does to commands, timers, jobs and outcomes, as
    one case rule; the next three theories argue with it.
  \<^item> \<open>Alarm_Liveness\<close>: without new input the service comes to rest, in any order of the turns,
    unless an automated job fails. \<open>Alarm_Stale_Wake\<close>: two ways in which a snoozed alarm never
    wakes, a rollback to a bypass whose time has passed and a bypass restored at startup.
    \<open>Alarm_Timers\<close>: the other snoozes do wake. An invariant that follows a job past the
    scheduler shows that no timer stays behind when its command is superseded, refused or rolled
    back, and that a snooze committed in the run has its timer, or its wake is on the way. Its timed
    service records the clocks of each command, so that it can say to which instant a timer is set.
  \<^item> \<open>Alarm_Progress\<close>: the bounded service comes to rest as well, unless it sends failed automated jobs
    again without end, and with few alarms it stops only when all its work is done.
  \<^item> \<open>Alarm_Topic\<close>: the service together with the log of what the publisher has accepted and of
    what the operators have asked for. Confirmed state agrees with the topic, and a success is
    reported only for a status that is on it.
  \<^item> \<open>Alarm_Restart\<close>: a run, its records, and the hydration of the next process from them: the
    bypasses of EPICS alarms come back with the status they were confirmed with.
  \<^item> \<open>Alarm_Main\<close>: \<open>main\<close>. Its startup from the environment and the hydration, what it spawns, the
    loop of Redis readers and the metrics log; a process that has started is a run of
    \<open>Alarm_Backpressure\<close> from a hydrated state.
  \<^item> \<open>Alarm_Board\<close>: the abstract specification of the coordinator, a board on which the policy
    decides each message at once. \<open>Alarm_Process\<close>: the whole process, with the automated ingress and
    its drain task, the user queue, the biased select and the four tasks. It refines the ingress
    machine and the bounded service, and shows on the topic what the board decides on the messages
    in the order they were submitted.
  \<^item> \<open>Alarm_Ledger\<close>: the specification with failures. One function per event on the latest intents and
    the confirmed statuses, rollbacks included; the coordinator refines it, and the topic shows it.
  \<^item> \<open>Alarm_Commands\<close>, \<open>Alarm_Confirmations\<close>: commands and confirmations in that process. A command that
    is carried out was queued by a user; a confirmation that was queued is in the user channel,
    pending, or answered, and in one of these places once.
  \<^item> \<open>Alarm_Calls\<close>, \<open>Alarm_Viewers\<close>: the gRPC calls themselves, any number of them, interleaved with
    each other and with the turns of the process. Every call has its own one-shot channels; its success
    means that what it asked for is on the topic; it can return once its commands are answered; and a
    snapshot shows only what was published or restored.
    \<open>Alarm_Hanging\<close>: the call that never returns, because its command was superseded in time.
  \<^item> \<open>Alarm_Compaction\<close>: a compacted EPICS topic restores the same bypasses as the complete one, if its
    records can be read.
  \<^item> \<open>Alarm_Test_Support\<close>: the fixtures of the unit tests, and what a test on the refusing
    publisher can rely on.

  \<^bold>\<open>Conventions.\<close> A struct is a record with a prefix per type, an enum a datatype. A handler
  returns the new state together with the list of what it sent, in order, and \<open>None\<close> where the
  Rust code would panic. Errors are the left side of a sum. Integers have their width where they
  are counted or parsed; instants and durations are nanoseconds in \<open>nat\<close>. Clocks are arguments.
  A one-shot channel is its identity, and answering it is a message.

  \<^bold>\<open>Bounds and fuel.\<close> \<open>drain\<close> in \<open>Coordinator_Properties\<close> takes as fuel the jobs in flight plus
  the jobs overtaken by a newer intent, and the convergence theorem shows that this is enough.
  \<open>settle\<close> in \<open>Alarm_Publish\<close> takes four turns per attempt, which bounds the polls and answers of
  an attempt and its retry. \<open>service_left\<close> in \<open>Alarm_Liveness\<close> bounds the turns of the service:
  ten turns per job, and the jobs that can follow a job or a wake. Every other recursion is
  structural, and loops without end (the tasks, the Redis readers) are step relations or
  are followed through a finite list of events.

  \<^bold>\<open>Parameters.\<close> Code outside the repository is an argument of the definitions that use it:
  the protobuf conversions (\<open>proto\<close>), chrono and the delay queue of tokio-util (\<open>chrono_ops\<close>,
  \<open>delay_ops\<close>), the ring map of the ingress, JSON, the proxy client and the snapshot reader of
  the hydration, the environment variables. Their laws are named predicates that state documented
  behaviour, and each has a concrete instance for which the laws are proved. The delay queue panics on a
  deadline too far ahead: its laws promise success only up to a year from the current time (the
  range the comment of \<open>MAX_DELAY\<close> in \<open>effects/snooze.rs\<close> relies on), so that the absence of panics
  rests on the cap in the code. The publisher answers
  as it likes; in \<open>Alarm_Topic\<close> and \<open>Alarm_Restart\<close> a record is on the topic exactly if the
  publisher has answered with success, and JSON is read back as it was written (\<open>json_laws\<close>).

  \<^bold>\<open>Not modelled.\<close> Log lines and the layers of the subscriber; the transport of gRPC, Kafka and Redis, the
  gRPC server of tonic; the memory order of atomics and the locks of
  the histograms; texts outside ASCII. A run is followed until the 64-bit job counter would wrap.
  The automated ingress handle has one caller at a time, as in \<open>main.rs\<close>. In \<open>Alarm_System\<close> a task
  may take any of its queues, which includes the order of the biased selects; in \<open>Alarm_Process\<close>
  the coordinator takes them in its order. Module
  lists and the generated code have no behaviour of their own.
\<close>

end
